(* ===== verification/Prelude.thy ===== *)
theory Prelude
  imports Main "HOL-Library.Word" "HOL-Library.Signed_Division"
begin

text \<open>
  Shared vocabulary of the development.

  \<^item> C integers: \<open>int\<close> values are HOL integers in the range of a signed 32-bit
    integer, and \<open>c_int\<close> is the two's complement wrap-around that the compiled code
    applies to every arithmetic result; \<open>uint\<close>, \<open>ushort\<close> and \<open>uchar\<close> values are
    words.
  \<^item> Byte-addressed memory with little-endian 32-bit loads and stores.
  \<^item> \<open>res\<close>: the outcome of a kernel routine.  It returns a value and a new state
    (\<open>Ok\<close>), stops the machine (\<open>Panic\<close>), spins for ever on a lock that nobody on
    this processor can release (\<open>Spin\<close>), or gives the processor up to the scheduler
    (\<open>Switch\<close>).
  \<^item> Generic lemmas on first-match searches and list updates.
\<close>

unbundle bit_operations_syntax

named_theorems wp \<open>weakest-precondition rules for the outcome type\<close>

type_synonym u8 = "8 word"
type_synonym u16 = "16 word"
type_synonym u32 = "32 word"
type_synonym memory = "u32 \<Rightarrow> u8"

section \<open>C integers\<close>

definition c_int :: "int \<Rightarrow> int" where
  "c_int x = signed_take_bit 31 x"

definition int_range :: "int \<Rightarrow> bool" where
  "int_range x \<longleftrightarrow> - 2147483648 \<le> x \<and> x \<le> 2147483647"

lemma c_int_id [simp]: "int_range x \<Longrightarrow> c_int x = x"
  by (simp add: c_int_def int_range_def signed_take_bit_int_eq_self)

lemma c_int_range [simp]: "int_range (c_int x)"
proof -
  have "- (2 ^ 31) \<le> signed_take_bit 31 x" "signed_take_bit 31 x < 2 ^ 31"
    by (simp_all only: signed_take_bit_int_greater_eq_minus_exp signed_take_bit_int_less_exp)
  then show ?thesis by (simp add: c_int_def int_range_def)
qed

lemma u32_bound: "unat (x :: u32) < 2 ^ 32"
proof -
  have "unat x < 2 ^ LENGTH(32)" by (rule unsigned_less)
  then show ?thesis by simp
qed

lemma unat_word_of_int:
  assumes "0 \<le> y" "y < 2 ^ 32"
  shows "unat (word_of_int y :: u32) = nat y"
proof -
  have "unat (word_of_int y :: u32) = nat (take_bit 32 y)" by (simp add: unsigned_of_int)
  then show ?thesis using assms by (simp add: take_bit_int_eq_self)
qed

section \<open>Little-endian words in byte memory\<close>

definition load32 :: "memory \<Rightarrow> u32 \<Rightarrow> u32" where
  "load32 m a = ucast (m a) OR push_bit 8 (ucast (m (a + 1)))
     OR push_bit 16 (ucast (m (a + 2))) OR push_bit 24 (ucast (m (a + 3)))"

definition store32 :: "u32 \<Rightarrow> u32 \<Rightarrow> memory \<Rightarrow> memory" where
  "store32 a v m = m(a := ucast v, a + 1 := ucast (drop_bit 8 v),
     a + 2 := ucast (drop_bit 16 v), a + 3 := ucast (drop_bit 24 v))"

definition store16 :: "u32 \<Rightarrow> u16 \<Rightarrow> memory \<Rightarrow> memory" where
  "store16 a v m = m(a := ucast v, a + 1 := ucast (drop_bit 8 v))"

definition store_bytes :: "u32 \<Rightarrow> u8 list \<Rightarrow> memory \<Rightarrow> memory" where
  "store_bytes a bs m = (\<lambda>x. if unat (x - a) < length bs then bs ! unat (x - a) else m x)"

text \<open>The four bytes of a word, least significant first, and back.\<close>

definition le_bytes :: "u32 \<Rightarrow> u8 list" where
  "le_bytes v = [ucast v, ucast (drop_bit 8 v), ucast (drop_bit 16 v), ucast (drop_bit 24 v)]"

definition le_word :: "u8 \<Rightarrow> u8 \<Rightarrow> u8 \<Rightarrow> u8 \<Rightarrow> u32" where
  "le_word b0 b1 b2 b3 = ucast b0 OR push_bit 8 (ucast b1)
     OR push_bit 16 (ucast b2) OR push_bit 24 (ucast b3)"

lemma le_word_bytes [simp]:
  "le_word (ucast v) (ucast (drop_bit 8 v)) (ucast (drop_bit 16 v)) (ucast (drop_bit 24 v)) = v"
proof (rule bit_eqI)
  fix n :: nat
  assume "possible_bit TYPE(u32) n"
  then have n: "n < 32" by simp
  consider "n < 8" | "8 \<le> n" "n < 16" | "16 \<le> n" "n < 24" | "24 \<le> n" "n < 32"
    using n by linarith
  then show "bit (le_word (ucast v) (ucast (drop_bit 8 v)) (ucast (drop_bit 16 v))
      (ucast (drop_bit 24 v))) n = bit v n"
    by cases (auto simp: le_word_def bit_or_iff bit_push_bit_iff bit_ucast_iff bit_drop_bit_eq)
qed

lemma load32_le_word: "load32 m a = le_word (m a) (m (a + 1)) (m (a + 2)) (m (a + 3))"
  by (simp add: load32_def le_word_def)

lemma word_small_offset_neq [simp]:
  "(a::u32) + 1 \<noteq> a" "a + 2 \<noteq> a" "a + 3 \<noteq> a" "a \<noteq> a + 1" "a \<noteq> a + 2" "a \<noteq> a + 3"
  by simp_all

lemma load32_store32 [simp]: "load32 (store32 a v m) a = v"
  by (simp add: load32_le_word store32_def)

lemma store32_other: "b - a \<ge> 4 \<Longrightarrow> store32 a v m b = m b"
proof -
  assume far: "b - a \<ge> 4"
  have "b \<noteq> a" "b \<noteq> a + 1" "b \<noteq> a + 2" "b \<noteq> a + 3"
    using far by (auto simp: word_le_nat_alt)
  then show ?thesis by (simp add: store32_def)
qed

lemma load32_cong:
  "m' b = m b \<Longrightarrow> m' (b + 1) = m (b + 1) \<Longrightarrow> m' (b + 2) = m (b + 2) \<Longrightarrow> m' (b + 3) = m (b + 3) \<Longrightarrow>
     load32 m' b = load32 m b"
  by (simp add: load32_def)

lemma word_gap:
  fixes a b :: u32
  assumes "4 \<le> b - a" "4 \<le> a - b" "i < 4" "j < 4"
  shows "b + of_nat i \<noteq> a + of_nat j"
proof
  assume e: "b + of_nat i = a + of_nat j"
  have i: "i = 0 \<or> i = 1 \<or> i = 2 \<or> i = 3" and j: "j = 0 \<or> j = 1 \<or> j = 2 \<or> j = 3"
    using assms(3,4) by linarith+
  have d: "b - a = of_nat j - of_nat i" "a - b = of_nat i - of_nat j"
    using e by (simp_all add: algebra_simps)
  show False using assms(1,2) i j unfolding d by (auto simp: word_le_nat_alt)
qed

lemma load32_store32_other:
  assumes "4 \<le> b - a" "4 \<le> a - b"
  shows "load32 (store32 a v m) b = load32 m b"
proof (rule load32_cong)
  have k: "b + of_nat i \<notin> {a, a + 1, a + 2, a + 3}" if "i < 4" for i
    using word_gap [OF assms that, of 0] word_gap [OF assms that, of 1] word_gap [OF assms that, of 2]
      word_gap [OF assms that, of 3] by simp
  show "store32 a v m b = m b" using k [of 0] by (simp add: store32_def)
  show "store32 a v m (b + 1) = m (b + 1)" using k [of 1] by (simp add: store32_def)
  show "store32 a v m (b + 2) = m (b + 2)" using k [of 2] by (simp add: store32_def)
  show "store32 a v m (b + 3) = m (b + 3)" using k [of 3] by (simp add: store32_def)
qed

section \<open>Outcomes of kernel routines\<close>

datatype ('s, 'a) res = Ok 'a 's | Panic string | Spin | Switch 's

fun run :: "('s, 'a) res \<Rightarrow> ('a \<Rightarrow> 's \<Rightarrow> ('s, 'b) res) \<Rightarrow> ('s, 'b) res" where
  "run (Ok a s) f = f a s"
| "run (Panic e) f = Panic e"
| "run Spin f = Spin"
| "run (Switch s) f = Switch s"

text \<open>
  A routine written as the list of its atomic sections: run in one go by \<open>seq\<close>, and interleaved
  with the sections of other processors where the order matters.
\<close>

type_synonym 's sections = "('s \<Rightarrow> ('s, unit) res) list"

fun seq :: "'s sections \<Rightarrow> 's \<Rightarrow> ('s, unit) res" where
  "seq [] s = Ok () s"
| "seq (f # fs) s = run (f s) (\<lambda>_ s. seq fs s)"

text \<open>\<open>returns m Q\<close>: the routine returns normally, with a result that satisfies \<open>Q\<close>.\<close>

fun returns :: "('s, 'a) res \<Rightarrow> ('a \<Rightarrow> 's \<Rightarrow> bool) \<Rightarrow> bool" where
  "returns (Ok a s) Q = Q a s"
| "returns _ Q = False"

text \<open>\<open>ensures m Q\<close>: if the routine returns normally, its result satisfies \<open>Q\<close>.\<close>

fun ensures :: "('s, 'a) res \<Rightarrow> ('a \<Rightarrow> 's \<Rightarrow> bool) \<Rightarrow> bool" where
  "ensures (Ok a s) Q = Q a s"
| "ensures _ Q = True"

lemma run_Ok_right [simp]: "run m Ok = m"
  by (cases m) simp_all

lemma run_assoc [simp]: "run (run m f) g = run m (\<lambda>a s. run (f a s) g)"
  by (cases m) simp_all

lemma returns_run [wp]: "returns (run m f) Q = returns m (\<lambda>a s. returns (f a s) Q)"
  by (cases m) simp_all

lemma ensures_run [wp]: "ensures (run m f) Q = ensures m (\<lambda>a s. ensures (f a s) Q)"
  by (cases m) simp_all

lemma returns_mono: "returns m P \<Longrightarrow> (\<And>a s. P a s \<Longrightarrow> Q a s) \<Longrightarrow> returns m Q"
  by (cases m) simp_all

lemma ensures_mono: "ensures m P \<Longrightarrow> (\<And>a s. P a s \<Longrightarrow> Q a s) \<Longrightarrow> ensures m Q"
  by (cases m) simp_all

lemma returns_ensures: "returns m Q \<Longrightarrow> ensures m Q"
  by (cases m) simp_all

lemma returns_iff: "returns m Q \<longleftrightarrow> (\<exists>a s. m = Ok a s \<and> Q a s)"
  by (cases m) simp_all

lemma run_eq_Ok: "run m f = Ok b t \<longleftrightarrow> (\<exists>a s. m = Ok a s \<and> f a s = Ok b t)"
  by (cases m) simp_all

lemma run_cong [fundef_cong]:
  "m = m' \<Longrightarrow> (\<And>a s. m' = Ok a s \<Longrightarrow> f a s = g a s) \<Longrightarrow> run m f = run m' g"
  by (cases m') simp_all

lemma run_if: "run (if b then x else y) f = (if b then run x f else run y f)"
  by simp

section \<open>First match in a table\<close>

text \<open>
  \<open>find_index P xs\<close> is the position of the first element that satisfies \<open>P\<close>: the
  loops \<open>for(p = table; p < &table[N]; p++) if(P) goto found;\<close> of the kernel.
\<close>

fun find_index :: "('a \<Rightarrow> bool) \<Rightarrow> 'a list \<Rightarrow> nat option" where
  "find_index P [] = None"
| "find_index P (x # xs) = (if P x then Some 0 else map_option Suc (find_index P xs))"

lemma find_index_None: "find_index P xs = None \<longleftrightarrow> (\<forall>x \<in> set xs. \<not> P x)"
  by (induction xs) auto

lemma find_index_Some:
  "find_index P xs = Some i \<longleftrightarrow> i < length xs \<and> P (xs ! i) \<and> (\<forall>j < i. \<not> P (xs ! j))"
proof (induction xs arbitrary: i)
  case Nil
  then show ?case by simp
next
  case (Cons x xs)
  then show ?case
    by (cases i) (auto simp: less_Suc_eq_0_disj)
qed

lemma find_index_SomeD:
  assumes "find_index P xs = Some i"
  shows "i < length xs" and "P (xs ! i)" and "\<And>j. j < i \<Longrightarrow> \<not> P (xs ! j)"
  using assms by (simp_all add: find_index_Some)

lemma find_index_unique:
  assumes "i < length xs" "P (xs ! i)" "\<And>j. j < length xs \<Longrightarrow> P (xs ! j) \<Longrightarrow> j = i"
  shows "find_index P xs = Some i"
  unfolding find_index_Some
proof (intro conjI allI impI)
  fix j assume "j < i"
  then show "\<not> P (xs ! j)" using assms(3) [of j] assms(1) by linarith
qed (fact assms(1,2))+

text \<open>A routine applied to every element of a list of indices, in order.\<close>

fun for_each :: "'i list \<Rightarrow> ('i \<Rightarrow> 's \<Rightarrow> ('s, unit) res) \<Rightarrow> 's \<Rightarrow> ('s, unit) res" where
  "for_each [] f s = Ok () s"
| "for_each (i # is) f s = run (f i s) (\<lambda>_ s. for_each is f s)"

lemma for_each_append: "for_each (xs @ ys) f = (\<lambda>s. run (for_each xs f s) (\<lambda>_ s. for_each ys f s))"
  by (induction xs) (rule ext, simp)+

lemma for_each_returns:
  assumes "I 0 s"
    and "\<And>k s. k < length xs \<Longrightarrow> I k s \<Longrightarrow> returns (f (xs ! k) s) (\<lambda>_ s. I (Suc k) s)"
  shows "returns (for_each xs f s) (\<lambda>_ s. I (length xs) s)"
  using assms
proof (induction xs arbitrary: s I)
  case Nil
  then show ?case by simp
next
  case (Cons x xs)
  have step: "returns (f x s) (\<lambda>_ s. I (Suc 0) s)"
    using Cons.prems(1) Cons.prems(2) [of 0 s] by simp
  have rest: "returns (for_each xs f s') (\<lambda>_ t. I (Suc (length xs)) t)" if "I (Suc 0) s'" for s'
    using Cons.IH [of "\<lambda>k. I (Suc k)" s'] that Cons.prems(2) by fastforce
  show ?case
    by (simp add: returns_run) (rule returns_mono [OF step], rule rest)
qed

lemma update_same_nth [simp]: "xs[i := xs ! i] = xs"
  by simp

end
