(* ===== verification/CString.thy ===== *)
theory CString
  imports Prelude
begin

text \<open>
  The memory and string routines of \<open>lab2/string.c\<close> with the string instructions of
  \<open>lab2/x86.h\<close> they use, over byte-addressed memory.  The lemmas give each routine its
  specification: \<open>memset\<close> fills a range whichever instruction it picks, \<open>memmove\<close>
  copies also between overlapping ranges, the string routines compute on the
  NUL-terminated strings at their arguments and write only inside their buffers.
\<close>

section \<open>The code\<close>

fun stosb :: "u32 \<Rightarrow> u8 \<Rightarrow> nat \<Rightarrow> memory \<Rightarrow> memory" where
  "stosb a c 0 m = m"
| "stosb a c (Suc n) m = stosb (a + 1) c n (m(a := c))"

fun stosl :: "u32 \<Rightarrow> u32 \<Rightarrow> nat \<Rightarrow> memory \<Rightarrow> memory" where
  "stosl a v 0 m = m"
| "stosl a v (Suc n) m = stosl (a + 4) v n (store32 a v m)"

definition memset :: "u32 \<Rightarrow> u32 \<Rightarrow> u32 \<Rightarrow> memory \<Rightarrow> memory" where
  "memset dst c n m =
     (if sint dst smod 4 = 0 \<and> n mod 4 = 0
      then let c = c AND 0xFF in
        stosl dst (push_bit 24 c OR push_bit 16 c OR push_bit 8 c OR c) (unat (n div 4)) m
      else stosb dst (ucast c) (unat n) m)"

fun memcmp :: "u32 \<Rightarrow> u32 \<Rightarrow> nat \<Rightarrow> memory \<Rightarrow> int" where
  "memcmp s1 s2 0 m = 0"
| "memcmp s1 s2 (Suc n) m =
     (if m s1 \<noteq> m s2 then uint (m s1) - uint (m s2) else memcmp (s1 + 1) (s2 + 1) n m)"

fun copy_down :: "u32 \<Rightarrow> u32 \<Rightarrow> nat \<Rightarrow> memory \<Rightarrow> memory" where
  "copy_down d s 0 m = m"
| "copy_down d s (Suc n) m =
     (let d = d - 1; s = s - 1 in copy_down d s n (m(d := m s)))"

fun copy_up :: "u32 \<Rightarrow> u32 \<Rightarrow> nat \<Rightarrow> memory \<Rightarrow> memory" where
  "copy_up d s 0 m = m"
| "copy_up d s (Suc n) m = copy_up (d + 1) (s + 1) n (m(d := m s))"

definition memmove :: "u32 \<Rightarrow> u32 \<Rightarrow> u32 \<Rightarrow> memory \<Rightarrow> memory" where
  "memmove d s n m =
     (if s < d \<and> s + n > d then copy_down (d + n) (s + n) (unat n) m
      else copy_up d s (unat n) m)"

definition memcpy :: "u32 \<Rightarrow> u32 \<Rightarrow> u32 \<Rightarrow> memory \<Rightarrow> memory" where
  "memcpy d s n m = memmove d s n m"

fun strncmp :: "u32 \<Rightarrow> u32 \<Rightarrow> nat \<Rightarrow> memory \<Rightarrow> int" where
  "strncmp p q 0 m = 0"
| "strncmp p q (Suc n) m =
     (if m p \<noteq> 0 \<and> m p = m q then strncmp (p + 1) (q + 1) n m
      else uint (m p) - uint (m q))"

fun zero_fill :: "u32 \<Rightarrow> nat \<Rightarrow> memory \<Rightarrow> memory" where
  "zero_fill s 0 m = m"
| "zero_fill s (Suc n) m = zero_fill (s + 1) n (m(s := 0))"

fun strncpy_loop :: "u32 \<Rightarrow> u32 \<Rightarrow> nat \<Rightarrow> memory \<Rightarrow> memory" where
  "strncpy_loop s t 0 m = m"
| "strncpy_loop s t (Suc n) m =
     (if m t \<noteq> 0 then strncpy_loop (s + 1) (t + 1) n (m(s := m t))
      else zero_fill (s + 1) n (m(s := m t)))"

definition strncpy :: "u32 \<Rightarrow> u32 \<Rightarrow> int \<Rightarrow> memory \<Rightarrow> memory" where
  "strncpy s t n m = strncpy_loop s t (nat n) m"

fun safestrcpy_loop :: "u32 \<Rightarrow> u32 \<Rightarrow> nat \<Rightarrow> memory \<Rightarrow> memory" where
  "safestrcpy_loop s t 0 m = m(s := 0)"
| "safestrcpy_loop s t (Suc n) m =
     (if m t \<noteq> 0 then safestrcpy_loop (s + 1) (t + 1) n (m(s := m t))
      else (m(s := m t))(s + 1 := 0))"

definition safestrcpy :: "u32 \<Rightarrow> u32 \<Rightarrow> int \<Rightarrow> memory \<Rightarrow> memory" where
  "safestrcpy s t n m = (if n \<le> 0 then m else safestrcpy_loop s t (nat (n - 1)) m)"

text \<open>The search for the terminator has no bound: \<open>None\<close> is a search that never ends.\<close>

partial_function (option) strlen :: "memory \<Rightarrow> u32 \<Rightarrow> nat \<Rightarrow> nat option" where
  "strlen m s n = (if m (s + of_nat n) = 0 then Some n else strlen m s (Suc n))"

section \<open>Ranges\<close>

text \<open>\<open>in_range a d n\<close>: the address \<open>a\<close> is one of the \<open>n\<close> bytes from \<open>d\<close> on.\<close>

definition in_range :: "u32 \<Rightarrow> u32 \<Rightarrow> nat \<Rightarrow> bool" where
  "in_range a d n \<longleftrightarrow> unat (a - d) < n"

lemma in_range_0 [simp]: "\<not> in_range a d 0"
  by (simp add: in_range_def)

lemma unat_diff_one:
  fixes x :: u32
  assumes "x \<noteq> 0"
  shows "unat (x - 1) = unat x - 1"
  using assms by (simp add: unat_minus_one)

lemma in_range_Suc: "in_range a d (Suc n) \<longleftrightarrow> a = d \<or> in_range a (d + 1) n \<and> a \<noteq> d"
proof (cases "a = d")
  case True
  then show ?thesis by (simp add: in_range_def)
next
  case False
  then have "a - d \<noteq> 0" by simp
  then have u: "unat (a - d - 1) = unat (a - d) - 1" and p: "0 < unat (a - d)"
    using unat_diff_one [of "a - d"] by (simp_all add: unat_gt_0)
  have "a - (d + 1) = a - d - 1" by simp
  then have "unat (a - (d + 1)) < n \<longleftrightarrow> unat (a - d) < Suc n"
    using u p by (simp only: less_Suc_eq_le) linarith
  then show ?thesis using False by (simp add: in_range_def)
qed

lemma not_in_range_self: "n < 2 ^ 32 \<Longrightarrow> \<not> in_range d (d + 1) n"
  by (simp add: in_range_def unsigned_minus_1_eq_mask mask_eq_exp_minus_1)

lemma unat_plus_small:
  fixes d :: u32
  assumes "unat d + j < 2 ^ 32"
  shows "unat (d + of_nat j) = unat d + j"
  using assms by (simp add: unat_word_ariths unat_of_nat)

section \<open>Filling\<close>

lemma stosb_eq: "n < 2 ^ 32 \<Longrightarrow> stosb d c n m a = (if in_range a d n then c else m a)"
  by (induction n arbitrary: d m) (auto simp: in_range_Suc not_in_range_self)

lemma stosb_add: "stosb a c (k + n) m = stosb (a + of_nat k) c n (stosb a c k m)"
  by (induction k arbitrary: a m) (simp_all add: algebra_simps)

definition repl_byte :: "u32 \<Rightarrow> u32" where
  "repl_byte c = (let c = c AND 0xFF in push_bit 24 c OR push_bit 16 c OR push_bit 8 c OR c)"

lemma bit_0xFF: "bit (0xFF :: u32) n \<longleftrightarrow> n < 8"
proof -
  have "(0xFF :: u32) = mask 8" by (simp add: mask_eq_exp_minus_1)
  then have "bit (0xFF :: u32) n \<longleftrightarrow> n < 32 \<and> n < 8" by (simp only: bit_mask_iff possible_bit_word) simp
  then show ?thesis by auto
qed

lemma repl_byte_bytes:
  "ucast (repl_byte c) = (ucast c :: u8)"
  "ucast (drop_bit 8 (repl_byte c)) = (ucast c :: u8)"
  "ucast (drop_bit 16 (repl_byte c)) = (ucast c :: u8)"
  "ucast (drop_bit 24 (repl_byte c)) = (ucast c :: u8)"
  unfolding repl_byte_def Let_def
  by (rule bit_eqI, simp only: bit_ucast_iff bit_drop_bit_eq bit_or_iff bit_push_bit_iff bit_and_iff
      bit_0xFF comp_def, force)+

lemma store32_repl: "store32 a (repl_byte c) m = stosb a (ucast c) 4 m"
proof -
  have four: "(4 :: nat) = Suc (Suc (Suc (Suc 0)))" by simp
  show ?thesis
    by (simp add: store32_def repl_byte_bytes four add.assoc)
qed

lemma stosl_stosb: "stosl a (repl_byte c) n m = stosb a (ucast c) (4 * n) m"
proof (induction n arbitrary: a m)
  case 0
  then show ?case by simp
next
  case (Suc n)
  have "stosb a (ucast c) (4 + 4 * n) m = stosb (a + 4) (ucast c) (4 * n) (stosb a (ucast c) 4 m)"
    using stosb_add [of a "ucast c" 4 "4 * n" m] by simp
  then show ?case using Suc by (simp add: store32_repl)
qed

lemma memset_eq: "memset d c n m a = (if in_range a d (unat n) then ucast c else m a)"
proof (cases "sint d smod 4 = 0 \<and> n mod 4 = 0")
  case True
  have "unat n = 4 * unat (n div 4)"
  proof -
    have "unat (n mod 4) = 0" using True by simp
    then have "unat n mod 4 = 0" by (simp add: unat_mod)
    then have "4 dvd unat n" by (simp add: mod_eq_0_iff_dvd)
    then show ?thesis by (simp add: unat_div)
  qed
  moreover have "memset d c n m = stosl d (repl_byte c) (unat (n div 4)) m"
    using True by (simp add: memset_def repl_byte_def Let_def)
  moreover have "unat n < 2 ^ 32" by (rule u32_bound)
  ultimately show ?thesis
    using stosb_eq [of "4 * unat (n div 4)" d "ucast c" m a] by (simp add: stosl_stosb)
next
  case False
  have "unat n < 2 ^ 32" by (rule u32_bound)
  moreover have "memset d c n m = stosb d (ucast c) (unat n) m"
    using False by (simp only: memset_def if_False)
  ultimately show ?thesis by (simp add: stosb_eq)
qed

section \<open>Copying\<close>

lemma copy_up_eq:
  assumes "n < 2 ^ 32" and "\<And>j k. j < k \<Longrightarrow> k < n \<Longrightarrow> d + of_nat j \<noteq> s + of_nat k"
  shows "copy_up d s n m a = (if in_range a d n then m (s + (a - d)) else m a)"
  using assms
proof (induction n arbitrary: d s m)
  case 0
  then show ?case by simp
next
  case (Suc n)
  let ?m = "m(d := m s)"
  have h: "d + 1 + of_nat j \<noteq> s + 1 + of_nat k" if "j < k" "k < n" for j k
    using Suc.prems(2) [of "Suc j" "Suc k"] that by (simp add: algebra_simps)
  have ih: "copy_up (d + 1) (s + 1) n ?m a =
      (if in_range a (d + 1) n then ?m (s + 1 + (a - (d + 1))) else ?m a)"
    using Suc.prems(1) h by (intro Suc.IH) auto
  have e: "s + 1 + (a - (d + 1)) = s + (a - d)" by simp
  have "s + (a - d) \<noteq> d" if "a \<noteq> d" "in_range a d (Suc n)"
  proof -
    have "0 < unat (a - d)" "unat (a - d) < Suc n"
      using that by (simp_all add: in_range_def unat_gt_0)
    then show ?thesis using Suc.prems(2) [of 0 "unat (a - d)"] by simp
  qed
  then show ?case
    using ih Suc.prems(1) by (auto simp: e in_range_Suc not_in_range_self)
qed

lemma copy_down_eq:
  assumes "n < 2 ^ 32" and "\<And>j k. j < k \<Longrightarrow> k < n \<Longrightarrow> d - 1 - of_nat j \<noteq> s - 1 - of_nat k"
  shows "copy_down d s n m a = (if unat (d - 1 - a) < n then m (s - (d - a)) else m a)"
  using assms
proof (induction n arbitrary: d s m)
  case 0
  then show ?case by simp
next
  case (Suc n)
  let ?m = "m(d - 1 := m (s - 1))"
  have h: "d - 1 - 1 - of_nat j \<noteq> s - 1 - 1 - of_nat k" if "j < k" "k < n" for j k
    using Suc.prems(2) [of "Suc j" "Suc k"] that by (simp add: algebra_simps)
  have ih: "copy_down (d - 1) (s - 1) n ?m a =
      (if unat (d - 1 - 1 - a) < n then ?m (s - 1 - (d - 1 - a)) else ?m a)"
    using Suc.prems(1) h by (intro Suc.IH) auto
  have e: "s - 1 - (d - 1 - a) = s - (d - a)" by simp
  show ?case
  proof (cases "a = d - 1")
    case True
    have "\<not> unat (- 1 :: u32) < n"
      using Suc.prems(1) by (simp add: unsigned_minus_1_eq_mask mask_eq_exp_minus_1)
    then show ?thesis using ih by (simp add: True Let_def)
  next
    case False
    then have nz: "d - 1 - a \<noteq> 0" by auto
    have u: "unat (d - 1 - 1 - a) = unat (d - 1 - a) - 1" "0 < unat (d - 1 - a)"
      using unat_diff_one [OF nz] nz by (simp_all add: unat_gt_0 algebra_simps)
    have "s - (d - a) \<noteq> d - 1" if "unat (d - 1 - a) < Suc n"
    proof -
      have "s - 1 - of_nat (unat (d - 1 - a)) = s - (d - a)" by simp
      then show ?thesis
        using Suc.prems(2) [of 0 "unat (d - 1 - a)"] that u(2) by simp
    qed
    then show ?thesis
      using ih False u by (auto simp: e Let_def)
  qed
qed

lemma memmove_eq:
  assumes s: "unat s + unat n < 2 ^ 32" and d: "unat d + unat n < 2 ^ 32"
  shows "memmove d s n m a = (if in_range a d (unat n) then m (s + (a - d)) else m a)"
proof (cases "s < d \<and> s + n > d")
  case False
  have "s + n = s + of_nat (unat n)" by simp
  then have sn: "unat (s + n) = unat s + unat n" using unat_plus_small [OF s] by simp
  have "d + of_nat j \<noteq> s + of_nat k" if "j < k" "k < unat n" for j k
  proof
    assume "d + of_nat j = s + of_nat k"
    moreover have "unat (d + of_nat j) = unat d + j" "unat (s + of_nat k) = unat s + k"
      using s d that by (intro unat_plus_small; simp)+
    ultimately have "unat d + j = unat s + k" by simp
    then show False using False that sn by (auto simp: word_less_nat_alt)
  qed
  moreover have "unat n < 2 ^ 32" using s by simp
  ultimately have "copy_up d s (unat n) m a = (if in_range a d (unat n) then m (s + (a - d)) else m a)"
    by (intro copy_up_eq) auto
  then show ?thesis using False by (auto simp: memmove_def)
next
  case True
  have "s + n = s + of_nat (unat n)" "d + n = d + of_nat (unat n)" by simp_all
  then have sn: "unat (s + n) = unat s + unat n" "unat (d + n) = unat d + unat n"
    using unat_plus_small [OF s] unat_plus_small [OF d] by simp_all
  have "d + n - 1 - of_nat j \<noteq> s + n - 1 - of_nat k" if "j < k" "k < unat n" for j k
  proof
    assume "d + n - 1 - of_nat j = s + n - 1 - of_nat k"
    then have "d + of_nat k = s + of_nat j" by (simp add: algebra_simps)
    moreover have "unat (d + of_nat k) = unat d + k" "unat (s + of_nat j) = unat s + j"
      using s d that by (intro unat_plus_small; simp)+
    ultimately have "unat d + k = unat s + j" by simp
    then show False using True that by (auto simp: word_less_nat_alt)
  qed
  moreover have "unat n < 2 ^ 32" using s by simp
  ultimately have "copy_down (d + n) (s + n) (unat n) m a =
      (if unat (d + n - 1 - a) < unat n then m (s + n - (d + n - a)) else m a)"
    by (intro copy_down_eq) auto
  then have c: "memmove d s n m a =
      (if unat (d + n - 1 - a) < unat n then m (s + n - (d + n - a)) else m a)"
    using True by (simp add: memmove_def)
  have "unat (d + n - 1 - a) < unat n \<longleftrightarrow> in_range a d (unat n)"
  proof -
    have "n - 1 - (a - d) < n \<longleftrightarrow> a - d < n" by unat_arith
    moreover have "d + n - 1 - a = n - 1 - (a - d)" by simp
    ultimately show ?thesis by (simp only: in_range_def word_less_nat_alt)
  qed
  moreover have "s + n - (d + n - a) = s + (a - d)" by simp
  ultimately show ?thesis using c by simp
qed

section \<open>Strings\<close>

fun is_cstr :: "memory \<Rightarrow> u32 \<Rightarrow> u8 list \<Rightarrow> bool" where
  "is_cstr m a [] = (m a = 0)"
| "is_cstr m a (x # xs) = (m a = x \<and> x \<noteq> 0 \<and> is_cstr m (a + 1) xs)"

lemma strlen_from: "is_cstr m (s + of_nat k) xs \<Longrightarrow> strlen m s k = Some (k + length xs)"
proof (induction xs arbitrary: k)
  case Nil
  then show ?case by (subst strlen.simps) simp
next
  case (Cons x xs)
  have "is_cstr m (s + of_nat (Suc k)) xs" using Cons.prems by (simp add: algebra_simps)
  then have "strlen m s (Suc k) = Some (Suc k + length xs)" by (rule Cons.IH)
  then show ?case using Cons.prems by (subst strlen.simps) simp
qed

lemma strlen_eq: "is_cstr m s xs \<Longrightarrow> strlen m s 0 = Some (length xs)"
  using strlen_from [of m s 0 xs] by simp

lemma strncmp_eq:
  "is_cstr m p xs \<Longrightarrow> is_cstr m q ys \<Longrightarrow> strncmp p q n m = 0 \<longleftrightarrow> take n xs = take n ys"
proof (induction n arbitrary: p q xs ys)
  case 0
  then show ?case by simp
next
  case (Suc n)
  then show ?case
    by (cases xs; cases ys) (auto simp: unsigned_eq_0_iff dest: unsigned_word_eqI)
qed

text \<open>The bytes a padded copy leaves in the buffer: the string, then zeros.\<close>

definition padded :: "u8 list \<Rightarrow> nat \<Rightarrow> u8" where
  "padded xs i = (if i < length xs then xs ! i else 0)"

lemma zero_fill_eq: "n < 2 ^ 32 \<Longrightarrow> zero_fill s n m a = (if in_range a s n then 0 else m a)"
  by (induction n arbitrary: s m) (auto simp: in_range_Suc not_in_range_self)

lemma is_cstr_upd: "(\<forall>i \<le> length xs. t + of_nat i \<noteq> a) \<Longrightarrow> is_cstr (m(a := v)) t xs = is_cstr m t xs"
proof (induction xs arbitrary: t)
  case Nil
  then show ?case by simp
next
  case (Cons x xs)
  have "\<forall>i \<le> length xs. t + 1 + of_nat i \<noteq> a"
  proof (intro allI impI)
    fix i assume "i \<le> length xs"
    then show "t + 1 + of_nat i \<noteq> a" using Cons.prems [rule_format, of "Suc i"] by (simp add: algebra_simps)
  qed
  moreover have "t \<noteq> a" using Cons.prems [rule_format, of 0] by simp
  ultimately show ?case using Cons.IH [of "t + 1"] by simp
qed

lemma unat_diff_shift: "a \<noteq> s \<Longrightarrow> unat (a - s) = Suc (unat (a - (s + 1)))" for a s :: u32
proof -
  assume "a \<noteq> s"
  then have nz: "a - s \<noteq> 0" by simp
  have "unat (a - (s + 1)) = unat (a - s) - 1"
    using unat_diff_one [OF nz] by (simp add: diff_diff_eq)
  moreover have "0 < unat (a - s)" using nz by (simp add: unat_gt_0)
  ultimately show ?thesis by simp
qed

lemma far_shift:
  assumes "\<forall>i \<le> length (x # xs). \<not> in_range (t + of_nat i) s (Suc n)" "n < 2 ^ 32"
  shows "\<forall>i \<le> length xs. \<not> in_range (t + 1 + of_nat i) (s + 1) n"
    and "\<forall>i \<le> length xs. t + 1 + of_nat i \<noteq> s"
proof -
  have "\<not> in_range (t + 1 + of_nat i) s (Suc n)" if "i \<le> length xs" for i
    using assms(1) [rule_format, of "Suc i"] that by (simp add: algebra_simps)
  then show "\<forall>i \<le> length xs. \<not> in_range (t + 1 + of_nat i) (s + 1) n"
    and "\<forall>i \<le> length xs. t + 1 + of_nat i \<noteq> s"
    by (auto simp: in_range_Suc)
qed

lemma strncpy_loop_eq:
  assumes "is_cstr m t xs" "n < 2 ^ 32" "\<forall>i \<le> length xs. \<not> in_range (t + of_nat i) s n"
  shows "strncpy_loop s t n m a = (if in_range a s n then padded xs (unat (a - s)) else m a)"
  using assms
proof (induction n arbitrary: s t m xs)
  case 0
  then show ?case by simp
next
  case (Suc n)
  show ?case
  proof (cases xs)
    case Nil
    then show ?thesis
      using Suc.prems by (auto simp: zero_fill_eq in_range_Suc padded_def not_in_range_self)
  next
    case (Cons x ys)
    have n: "n < 2 ^ 32" using Suc.prems by simp
    note far = far_shift [OF Suc.prems(3) [unfolded Cons] n]
    have c: "is_cstr m (t + 1) ys" "m t = x" "x \<noteq> 0" using Suc.prems Cons by auto
    have k: "is_cstr (m(s := x)) (t + 1) ys" using c(1) far(2) by (simp only: is_cstr_upd)
    have "strncpy_loop (s + 1) (t + 1) n (m(s := x)) a =
        (if in_range a (s + 1) n then padded ys (unat (a - (s + 1))) else (m(s := x)) a)"
      by (rule Suc.IH [OF k n far(1)])
    then show ?thesis
      using c n by (auto simp: Cons in_range_Suc padded_def unat_diff_shift not_in_range_self)
  qed
qed

lemma strncpy_eq:
  assumes "is_cstr m t xs" "0 \<le> n" "n < 2 ^ 31" "\<forall>i \<le> length xs. \<not> in_range (t + of_nat i) s (nat n)"
  shows "strncpy s t n m a = (if in_range a s (nat n) then padded xs (unat (a - s)) else m a)"
  using assms by (simp add: strncpy_def strncpy_loop_eq)

lemma safestrcpy_loop_cstr:
  assumes "is_cstr m t xs" "n < 2 ^ 31" "\<forall>i \<le> length xs. \<not> in_range (t + of_nat i) s (Suc n)"
  shows "is_cstr (safestrcpy_loop s t n m) s (take n xs) \<and>
     (\<forall>a. \<not> in_range a s (Suc n) \<longrightarrow> safestrcpy_loop s t n m a = m a)"
  using assms
proof (induction n arbitrary: s t m xs)
  case 0
  then show ?case by (simp add: in_range_def)
next
  case (Suc n)
  show ?case
  proof (cases xs)
    case Nil
    then show ?thesis using Suc.prems by (auto simp: in_range_Suc)
  next
    case (Cons x ys)
    have n: "Suc n < 2 ^ 32" using Suc.prems by simp
    note far = far_shift [OF Suc.prems(3) [unfolded Cons] n]
    have c: "is_cstr m (t + 1) ys" "m t = x" "x \<noteq> 0" using Suc.prems Cons by auto
    have k: "is_cstr (m(s := x)) (t + 1) ys" using c(1) far(2) by (simp only: is_cstr_upd)
    have n': "n < 2 ^ 31" using Suc.prems(2) by simp
    have ih: "is_cstr (safestrcpy_loop (s + 1) (t + 1) n (m(s := x))) (s + 1) (take n ys) \<and>
        (\<forall>a. \<not> in_range a (s + 1) (Suc n) \<longrightarrow>
          safestrcpy_loop (s + 1) (t + 1) n (m(s := x)) a = (m(s := x)) a)"
      by (rule Suc.IH [OF k n' far(1)])
    moreover have "\<not> in_range s (s + 1) (Suc n)" using n by (rule not_in_range_self)
    ultimately show ?thesis using c by (auto simp: Cons in_range_Suc [of _ _ "Suc n"])
  qed
qed

lemma safestrcpy_cstr:
  assumes "is_cstr m t xs" "0 < n" "n < 2 ^ 31" "\<forall>i \<le> length xs. \<not> in_range (t + of_nat i) s (nat n)"
  shows "is_cstr (safestrcpy s t n m) s (take (nat n - 1) xs)"
    and "\<not> in_range a s (nat n) \<Longrightarrow> safestrcpy s t n m a = m a"
proof -
  have e: "Suc (nat (n - 1)) = nat n" "nat (n - 1) = nat n - 1" using assms(2) by simp_all
  show "is_cstr (safestrcpy s t n m) s (take (nat n - 1) xs)"
    and "\<not> in_range a s (nat n) \<Longrightarrow> safestrcpy s t n m a = m a"
    using safestrcpy_loop_cstr [of m t xs "nat (n - 1)" s] assms e
    by (simp_all add: safestrcpy_def)
qed

section \<open>Properties\<close>

text \<open>
  C9: \<open>memmove\<close> copies the source bytes as they were before the call, also when source
  and destination overlap, and leaves all other bytes alone.
\<close>

theorem memmove_copies:
  assumes "unat s + unat n < 2 ^ 32" "unat d + unat n < 2 ^ 32"
  shows "(\<forall>i < unat n. memmove d s n m (d + of_nat i) = m (s + of_nat i)) \<and>
     (\<forall>a. \<not> in_range a d (unat n) \<longrightarrow> memmove d s n m a = m a)"
proof (intro conjI allI impI)
  fix i assume "i < unat n"
  moreover have "unat (of_nat i :: u32) = i"
    using unat_plus_small [of 0 i] \<open>i < unat n\<close> assms by simp
  ultimately have "in_range (d + of_nat i) d (unat n)" by (simp add: in_range_def)
  then show "memmove d s n m (d + of_nat i) = m (s + of_nat i)"
    by (simp add: memmove_eq [OF assms])
next
  fix a assume "\<not> in_range a d (unat n)"
  then show "memmove d s n m a = m a" by (simp add: memmove_eq [OF assms])
qed

theorem memmove_copies_witness:
  "memmove 102 100 8 ucast 105 = 103 \<and> memmove 102 100 8 ucast 101 = 101"
proof -
  have "\<not> in_range 101 102 (unat (8 :: u32))"
    by (simp add: in_range_def unsigned_minus_1_eq_mask mask_eq_exp_minus_1)
  then show ?thesis
    using memmove_copies [of 100 8 102 ucast] by (auto dest: spec [of _ 3])
qed

text \<open>
  C11: \<open>memset\<close> fills exactly the given range, whether it takes the word-wise path for
  aligned arguments or the byte-wise one.
\<close>

theorem memset_fills:
  "memset d c n m a = (if in_range a d (unat n) then ucast c else m a)"
  by (rule memset_eq)

text \<open>
  C10: \<open>safestrcpy\<close> into a buffer of \<open>n > 0\<close> bytes always leaves a terminated string,
  the longest prefix of the source that fits, and writes nothing outside the buffer.
\<close>

theorem safestrcpy_terminates:
  assumes "is_cstr m t xs" "0 < n" "n < 2 ^ 31" "\<forall>i \<le> length xs. \<not> in_range (t + of_nat i) s (nat n)"
  shows "is_cstr (safestrcpy s t n m) s (take (nat n - 1) xs) \<and>
     (\<forall>a. \<not> in_range a s (nat n) \<longrightarrow> safestrcpy s t n m a = m a)"
  using safestrcpy_cstr [OF assms] by simp

theorem safestrcpy_terminates_witness:
  "is_cstr (safestrcpy 100 200 3 ((\<lambda>_. 0)(200 := 65, 201 := 66, 202 := 67))) 100 [65, 66]"
proof -
  let ?m = "(\<lambda>_. 0)(200 := 65, 201 := 66, 202 := 67) :: memory"
  have far: "\<forall>i \<le> length [65, 66, 67 :: u8]. \<not> in_range (200 + of_nat i) 100 (nat 3)"
  proof (intro allI impI)
    fix i assume "i \<le> length [65, 66, 67 :: u8]"
    then have "i = 0 \<or> i = 1 \<or> i = 2 \<or> i = 3" by auto
    then show "\<not> in_range (200 + of_nat i) 100 (nat 3)" by (auto simp: in_range_def)
  qed
  have "is_cstr ?m 200 [65, 66, 67]" by simp
  from safestrcpy_terminates [OF this _ _ far]
  have "is_cstr (safestrcpy 100 200 3 ?m) 100 (take (nat 3 - 1) [65, 66, 67])" by simp
  moreover have "take (nat 3 - 1) [65, 66, 67 :: u8] = [65, 66]" by (simp add: numeral_2_eq_2)
  ultimately show ?thesis by (simp only:)
qed

end
