(* ===== verification/Mmu.thy ===== *)
theory Mmu
  imports CString
begin

text \<open>
  Addresses, pages and page-table entries: the macros of \<open>lab2/mmu.h\<close> and
  \<open>lab2/memlayout.h\<close>, with the arithmetic of page alignment they rely on.
\<close>

section \<open>The macros\<close>

abbreviation KERNBASE :: u32 where
  "KERNBASE \<equiv> 0x80000000"

abbreviation PHYSTOP :: u32 where
  "PHYSTOP \<equiv> 0xE000000"

abbreviation EXTMEM :: u32 where
  "EXTMEM \<equiv> 0x100000"

abbreviation DEVSPACE :: u32 where
  "DEVSPACE \<equiv> 0xFE000000"

abbreviation (input) PGSIZE :: u32 where
  "PGSIZE \<equiv> 4096"

abbreviation (input) PTE_P :: u32 where
  "PTE_P \<equiv> 1"

abbreviation (input) PTE_W :: u32 where
  "PTE_W \<equiv> 2"

abbreviation (input) PTE_U :: u32 where
  "PTE_U \<equiv> 4"

definition V2P :: "u32 \<Rightarrow> u32" where
  "V2P a = a - KERNBASE"

definition P2V :: "u32 \<Rightarrow> u32" where
  "P2V a = a + KERNBASE"

definition PDX :: "u32 \<Rightarrow> u32" where
  "PDX va = drop_bit 22 va AND 0x3FF"

definition PTX :: "u32 \<Rightarrow> u32" where
  "PTX va = drop_bit 12 va AND 0x3FF"

definition PGADDR :: "u32 \<Rightarrow> u32 \<Rightarrow> u32 \<Rightarrow> u32" where
  "PGADDR d t off = push_bit 22 d OR push_bit 12 t OR off"

definition PGROUNDUP :: "u32 \<Rightarrow> u32" where
  "PGROUNDUP sz = (sz + PGSIZE - 1) AND NOT (PGSIZE - 1)"

definition PGROUNDDOWN :: "u32 \<Rightarrow> u32" where
  "PGROUNDDOWN a = a AND NOT (PGSIZE - 1)"

definition PTE_ADDR :: "u32 \<Rightarrow> u32" where
  "PTE_ADDR pte = pte AND NOT 0xFFF"

definition PTE_FLAGS :: "u32 \<Rightarrow> u32" where
  "PTE_FLAGS pte = pte AND 0xFFF"

section \<open>Alignment\<close>

definition aligned :: "u32 \<Rightarrow> bool" where
  "aligned a \<longleftrightarrow> a mod PGSIZE = 0"

lemma aligned_nat: "aligned a \<longleftrightarrow> unat a mod 4096 = 0"
proof -
  have "unat (a mod PGSIZE) = unat a mod 4096" by (simp add: unat_mod)
  moreover have "aligned a \<longleftrightarrow> unat (a mod PGSIZE) = 0"
    by (simp add: aligned_def unsigned_eq_0_iff)
  ultimately show ?thesis by simp
qed

lemma aligned_mult:
  assumes "aligned a"
  obtains k where "unat a = 4096 * k"
  using assms by (auto simp: aligned_nat mod_eq_0_iff_dvd elim: dvdE)

lemma aligned_bound: "aligned a \<Longrightarrow> unat a + 4096 \<le> 2 ^ 32"
  using u32_bound [of a] by (auto simp: aligned_nat)

lemma and_not_mask:
  fixes a :: u32
  shows "unat (a AND NOT 0xFFF) = 4096 * (unat a div 4096)"
proof -
  have m: "(0xFFF :: u32) = mask 12" by (simp add: mask_eq_exp_minus_1)
  have "a AND NOT (mask 12) = push_bit 12 (drop_bit 12 a)"
    by (rule bit_eqI) (auto simp: bit_simps)
  then have "unat (a AND NOT 0xFFF) = unat (push_bit 12 (drop_bit 12 a))" by (simp only: m)
  also have "\<dots> = (4096 * (unat a div 4096)) mod 2 ^ 32"
    by (simp add: push_bit_eq_mult drop_bit_eq_div unat_word_ariths unat_div mod_mult_right_eq mult.commute)
  also have "\<dots> = 4096 * (unat a div 4096)"
  proof (rule mod_less)
    have "4096 * (unat a div 4096) \<le> unat a" by simp
    then show "4096 * (unat a div 4096) < 2 ^ 32" using u32_bound [of a] by linarith
  qed
  finally show ?thesis .
qed

lemma and_neg_4096: "unat ((a :: u32) AND - 4096) = 4096 * (unat a div 4096)"
  using and_not_mask [of a] by simp

lemma PGROUNDDOWN_nat: "unat (PGROUNDDOWN a) = 4096 * (unat a div 4096)"
  by (simp add: PGROUNDDOWN_def and_neg_4096)

lemma PGROUNDUP_nat:
  assumes "unat a + 4095 < 2 ^ 32"
  shows "unat (PGROUNDUP a) = 4096 * ((unat a + 4095) div 4096)"
proof -
  have e: "a + PGSIZE - 1 = a + of_nat 4095" by simp
  have "unat (a + of_nat 4095) = unat a + 4095" using assms by (rule unat_plus_small)
  then show ?thesis
    using and_not_mask [of "a + of_nat 4095"] unfolding PGROUNDUP_def e by simp
qed

lemma aligned_PGROUNDDOWN [simp]: "aligned (PGROUNDDOWN a)"
  by (simp add: aligned_nat PGROUNDDOWN_nat)

lemma PTE_ADDR_nat: "unat (PTE_ADDR a) = 4096 * (unat a div 4096)"
  by (simp add: PTE_ADDR_def and_neg_4096)

lemma aligned_PTE_ADDR [simp]: "aligned (PTE_ADDR a)"
  by (simp add: aligned_nat PTE_ADDR_nat)

lemma in_page_iff:
  assumes "aligned v"
  shows "in_range a v 4096 \<longleftrightarrow> unat a div 4096 = unat v div 4096"
proof -
  obtain k where k: "unat v = 4096 * k" using assms by (rule aligned_mult)
  show ?thesis
  proof (cases "v \<le> a")
    case True
    then have "unat (a - v) = unat a - unat v" by (rule unat_sub)
    moreover have "unat v \<le> unat a" using True by (simp add: word_le_nat_alt)
    moreover have "x - 4096 * k < 4096 \<longleftrightarrow> x div 4096 = k" if "4096 * k \<le> x" for x :: nat
      using that by auto
    ultimately show ?thesis using k by (simp add: in_range_def)
  next
    case False
    then have lt: "unat a < unat v" by (simp add: word_le_nat_alt)
    have "unat (a - v) = 2 ^ 32 + unat a - unat v"
      using False lt by (simp add: unat_sub_if_size word_size word_le_nat_alt)
    moreover have "unat v + 4096 \<le> 2 ^ 32" using assms by (rule aligned_bound)
    ultimately have "\<not> in_range a v 4096" using lt unfolding in_range_def by linarith
    moreover have "unat a div 4096 \<noteq> k" using lt k by auto
    ultimately show ?thesis using k by simp
  qed
qed

lemma page_offset:
  assumes "aligned v" "i < 4096"
  shows "unat (v + of_nat i) = unat v + i" and "unat (v + of_nat i) div 4096 = unat v div 4096"
proof -
  have "unat v + i < 2 ^ 32" using aligned_bound [OF assms(1)] assms(2) by simp
  then show u: "unat (v + of_nat i) = unat v + i" by (rule unat_plus_small)
  obtain k where k: "unat v = 4096 * k" using assms(1) by (rule aligned_mult)
  have "(4096 * k + i) div 4096 = k" using assms(2) by simp
  then show "unat (v + of_nat i) div 4096 = unat v div 4096" by (simp add: u k)
qed

lemma aligned_div_inj: "aligned x \<Longrightarrow> aligned y \<Longrightarrow> unat x div 4096 = unat y div 4096 \<Longrightarrow> x = y"
proof -
  assume "aligned x" "aligned y" "unat x div 4096 = unat y div 4096"
  then have "unat x = unat y" by (metis aligned_nat mult_div_mod_eq add_0_right)
  then show "x = y" by (rule unsigned_word_eqI)
qed

lemma other_page:
  assumes "aligned x" "aligned v" "x \<noteq> v" "i < 4096"
  shows "\<not> in_range (x + of_nat i) v 4096"
  using assms aligned_div_inj [of x v] page_offset(2) [of x i] by (auto simp: in_page_iff)

text \<open>A word in one page is not affected by what happens in another.\<close>

lemma load32_other_page:
  assumes "aligned x" "i \<le> 4092" "\<And>a. unat a div 4096 = unat x div 4096 \<Longrightarrow> m' a = m a"
  shows "load32 m' (x + of_nat i) = load32 m (x + of_nat i)"
proof -
  have "m' (x + of_nat (i + k)) = m (x + of_nat (i + k))" if "k < 4" for k
    using assms that by (intro assms(3) page_offset(2)) auto
  from this [of 0] this [of 1] this [of 2] this [of 3] show ?thesis
    by (simp add: load32_def algebra_simps)
qed

section \<open>Changes confined to one page\<close>

definition only_page :: "u32 \<Rightarrow> memory \<Rightarrow> memory \<Rightarrow> bool" where
  "only_page v m m' \<longleftrightarrow> (\<forall>a :: u32. unat a div 4096 \<noteq> unat v div 4096 \<longrightarrow> m' a = m a)"

lemma only_page_refl [simp]: "only_page v m m"
  by (simp add: only_page_def)

lemma only_page_trans: "only_page v m m' \<Longrightarrow> only_page v m' m'' \<Longrightarrow> only_page v m m''"
  by (simp add: only_page_def)

lemma only_page_memset:
  assumes "aligned v" "i + unat n \<le> 4096"
  shows "only_page v m (memset (v + of_nat i) c n m)"
  unfolding only_page_def
proof (intro allI impI)
  fix a :: u32
  assume a: "unat a div 4096 \<noteq> unat v div 4096"
  have "\<not> in_range a (v + of_nat i) (unat n)"
  proof
    assume r: "in_range a (v + of_nat i) (unat n)"
    define k where "k = unat (a - (v + of_nat i))"
    have k: "k < unat n" using r by (simp add: k_def in_range_def)
    have "a = v + of_nat (i + k)" by (simp add: k_def)
    moreover have "i + k < 4096" using k assms(2) by simp
    ultimately show False using page_offset(2) [OF assms(1)] a by blast
  qed
  then show "memset (v + of_nat i) c n m a = m a" by (simp add: memset_eq)
qed

lemma only_page_store32:
  assumes "aligned v" "i \<le> 4092"
  shows "only_page v m (store32 (v + of_nat i) w m)"
  unfolding only_page_def
proof (intro allI impI)
  fix a :: u32
  assume a: "unat a div 4096 \<noteq> unat v div 4096"
  have "a \<noteq> v + of_nat (i + k)" if "k < 4" for k
    using page_offset(2) [OF assms(1), of "i + k"] assms(2) that a by auto
  from this [of 0] this [of 1] this [of 2] this [of 3]
  show "store32 (v + of_nat i) w m a = m a"
    by (simp add: store32_def algebra_simps)
qed

lemma load32_memset:
  assumes "k + 4 \<le> unat n" "unat n < 2 ^ 31"
  shows "load32 (memset v 0 n m) (v + of_nat k) = 0"
proof -
  have "in_range (v + of_nat (k + j)) v (unat n)" if "j < 4" for j
    using unat_plus_small [of 0 "k + j"] assms that by (simp add: in_range_def)
  from this [of 0] this [of 1] this [of 2] this [of 3] show ?thesis
    by (simp add: load32_def memset_eq algebra_simps)
qed

end
