(* ===== verification/Machine.thy ===== *)
theory Machine
  imports Mmu
begin

text \<open>
  The processors and the spin locks of the xv6 kernel: \<open>struct cpu\<close> of
  \<open>lab2/proc.h\<close>, \<open>struct spinlock\<close> of \<open>lab2/spinlock.h\<close>, the functions of
  \<open>lab2/spinlock.c\<close> and \<open>cpuid\<close>, \<open>mycpu\<close>, \<open>myproc\<close> of \<open>lab2/proc.c\<close>.

  The state is that of the machine as the kernel code running on one processor sees it:
  the processor table, the identity the local APIC reports for the executing processor,
  its interrupt flag, the locks and the physical memory at its kernel addresses.
  Later components extend the record with the state they own, and the definitions here
  apply to every extension.  The nesting depth \<open>ncli\<close> is an unbounded integer: a C \<open>int\<close> would
  wrap only after some two thousand million locks taken at once.
\<close>

section \<open>Data\<close>

text \<open>
  Pointers to kernel objects are names: a lock is named by the object that holds it, a
  sleep channel by the object whose address is used as the channel.
\<close>

datatype sleepid = BufSleep nat | InodeSleep nat

datatype lockid = PtableLock | KmemLock | TicksLock | BcacheLock | IdeLock | LogLock
  | IcacheLock | FtableLock | PipeLock u32 | ConsLock | SleepSpin sleepid

datatype chan = ChanProc nat | ChanTicks | ChanLog | ChanSleeplock sleepid
  | ChanPipeRead u32 | ChanPipeWrite u32 | ChanBuf nat | ChanCons

record segdesc =
  lim_15_0 :: u16
  base_15_0 :: u16
  base_23_16 :: u8
  sd_type :: "4 word"
  sd_s :: "1 word"
  sd_dpl :: "2 word"
  sd_p :: "1 word"
  lim_19_16 :: "4 word"
  sd_avl :: "1 word"
  sd_rsv1 :: "1 word"
  sd_db :: "1 word"
  sd_g :: "1 word"
  base_31_24 :: u8

text \<open>Of the task state only the three members that the kernel writes.\<close>

record taskstate =
  esp0 :: u32
  ss0 :: u16
  iomb :: u16

text \<open>\<open>cr3\<close> and \<open>tr\<close> are registers of the processor, the rest is \<open>struct cpu\<close> without its saved
  \<open>scheduler\<close> context: a switch to it is the outcome \<open>Switch\<close>.\<close>

record cpu =
  apicid :: u8
  cpu_ts :: taskstate
  gdt :: "segdesc list"
  started :: bool
  ncli :: int
  intena :: bool
  cpu_proc :: "nat option"
  cr3 :: u32
  tr :: u16

record spinlock =
  locked :: u32
  lk_name :: string
  lk_cpu :: "nat option"
  pcs :: "u32 list"

record machine =
  cpus :: "cpu list"
  lapic_id :: u8
  intr :: bool
  locks :: "lockid \<Rightarrow> spinlock"
  mem :: memory
  lk_argp :: u32

definition upd_cpu :: "nat \<Rightarrow> (cpu \<Rightarrow> cpu) \<Rightarrow> 'z machine_scheme \<Rightarrow> 'z machine_scheme" where
  "upd_cpu i f s = s\<lparr>cpus := (cpus s)[i := f (cpus s ! i)]\<rparr>"

definition upd_lock :: "lockid \<Rightarrow> (spinlock \<Rightarrow> spinlock) \<Rightarrow> 'z machine_scheme \<Rightarrow> 'z machine_scheme" where
  "upd_lock l f s = s\<lparr>locks := (locks s)(l := f (locks s l))\<rparr>"

section \<open>The code\<close>

definition mycpu :: "'z machine_scheme \<Rightarrow> ('z machine_scheme, nat) res" where
  "mycpu s =
     (if intr s then Panic (''mycpu called with interrupts enabled'' @ [CHR 0x0A])
      else case find_index (\<lambda>c. apicid c = lapic_id s) (cpus s) of
          Some i \<Rightarrow> Ok i s
        | None \<Rightarrow> Panic (''unknown apicid'' @ [CHR 0x0A]))"

definition cpuid :: "'z machine_scheme \<Rightarrow> ('z machine_scheme, nat) res" where
  "cpuid s = mycpu s"

definition initlock :: "lockid \<Rightarrow> string \<Rightarrow> 'z machine_scheme \<Rightarrow> 'z machine_scheme" where
  "initlock l name s = upd_lock l (\<lambda>k. k\<lparr>lk_name := name, locked := 0, lk_cpu := None\<rparr>) s"

definition pushcli :: "'z machine_scheme \<Rightarrow> ('z machine_scheme, unit) res" where
  "pushcli s =
     (let eflags = intr s; s = s\<lparr>intr := False\<rparr> in
      run (mycpu s) (\<lambda>i s.
      run (if ncli (cpus s ! i) = 0
           then run (mycpu s) (\<lambda>j s. Ok () (upd_cpu j (\<lambda>c. c\<lparr>intena := eflags\<rparr>) s))
           else Ok () s) (\<lambda>_ s.
      run (mycpu s) (\<lambda>j s. Ok () (upd_cpu j (\<lambda>c. c\<lparr>ncli := ncli c + 1\<rparr>) s)))))"

definition popcli :: "'z machine_scheme \<Rightarrow> ('z machine_scheme, unit) res" where
  "popcli s =
     (if intr s then Panic ''popcli - interruptible''
      else run (mycpu s) (\<lambda>i s.
        let s = upd_cpu i (\<lambda>c. c\<lparr>ncli := ncli c - 1\<rparr>) s in
        if ncli (cpus s ! i) < 0 then Panic ''popcli''
        else run (mycpu s) (\<lambda>j s.
          if ncli (cpus s ! j) = 0 \<and> intena (cpus s ! j) then Ok () (s\<lparr>intr := True\<rparr>)
          else Ok () s)))"

definition holding :: "lockid \<Rightarrow> 'z machine_scheme \<Rightarrow> ('z machine_scheme, bool) res" where
  "holding l s =
     run (pushcli s) (\<lambda>_ s.
     run (mycpu s) (\<lambda>i s.
     let r = (locked (locks s l) \<noteq> 0 \<and> lk_cpu (locks s l) = Some i) in
     run (popcli s) (\<lambda>_ s. Ok r s)))"

text \<open>
  The saved frame pointers are followed for at most ten frames; \<open>ebp[0]\<close> is the
  caller's frame pointer and \<open>ebp[1]\<close> the return address.
\<close>

fun pcs_from :: "nat \<Rightarrow> memory \<Rightarrow> u32 \<Rightarrow> u32 list" where
  "pcs_from 0 m ebp = []"
| "pcs_from (Suc k) m ebp =
     (if ebp = 0 \<or> ebp < KERNBASE \<or> ebp = 0xffffffff then replicate (Suc k) 0
      else load32 m (ebp + 4) # pcs_from k m (load32 m ebp))"

definition getcallerpcs :: "u32 \<Rightarrow> memory \<Rightarrow> u32 list" where
  "getcallerpcs v m = pcs_from 10 m (v - 8)"

definition acquire :: "lockid \<Rightarrow> 'z machine_scheme \<Rightarrow> ('z machine_scheme, unit) res" where
  "acquire l s =
     run (pushcli s) (\<lambda>_ s.
     run (holding l s) (\<lambda>h s.
     if h then Panic ''acquire''
     else if locked (locks s l) \<noteq> 0 then Spin
     else
       let s = upd_lock l (\<lambda>k. k\<lparr>locked := 1\<rparr>) s in
       run (mycpu s) (\<lambda>i s.
       Ok () (upd_lock l (\<lambda>k. k\<lparr>lk_cpu := Some i, pcs := getcallerpcs (lk_argp s) (mem s)\<rparr>) s))))"

definition release :: "lockid \<Rightarrow> 'z machine_scheme \<Rightarrow> ('z machine_scheme, unit) res" where
  "release l s =
     run (holding l s) (\<lambda>h s.
     if \<not> h then Panic ''release''
     else
       let s = upd_lock l (\<lambda>k. k\<lparr>pcs := (pcs k)[0 := 0], lk_cpu := None\<rparr>) s;
           s = upd_lock l (\<lambda>k. k\<lparr>locked := 0\<rparr>) s in
       popcli s)"

definition myproc :: "'z machine_scheme \<Rightarrow> ('z machine_scheme, nat option) res" where
  "myproc s =
     run (pushcli s) (\<lambda>_ s.
     run (mycpu s) (\<lambda>i s.
     let p = cpu_proc (cpus s ! i) in
     run (popcli s) (\<lambda>_ s. Ok p s)))"

section \<open>Behaviour\<close>

text \<open>
  \<open>cpu_inv\<close>: the executing processor is in the table, its nesting depth is not
  negative, and interrupts are on only at depth zero.
\<close>

definition me :: "'z machine_scheme \<Rightarrow> nat" where
  "me s = (case find_index (\<lambda>c. apicid c = lapic_id s) (cpus s) of Some i \<Rightarrow> i | None \<Rightarrow> 0)"

abbreviation my_cpu :: "'z machine_scheme \<Rightarrow> cpu" where
  "my_cpu s \<equiv> cpus s ! me s"

definition cpu_inv :: "'z machine_scheme \<Rightarrow> bool" where
  "cpu_inv s \<longleftrightarrow> find_index (\<lambda>c. apicid c = lapic_id s) (cpus s) = Some (me s) \<and>
     0 \<le> ncli (my_cpu s) \<and> (intr s \<longrightarrow> ncli (my_cpu s) = 0)"

definition held :: "lockid \<Rightarrow> 'z machine_scheme \<Rightarrow> bool" where
  "held l s \<longleftrightarrow> locked (locks s l) \<noteq> 0 \<and> lk_cpu (locks s l) = Some (me s)"

definition can_lock :: "lockid \<Rightarrow> 'z machine_scheme \<Rightarrow> bool" where
  "can_lock l s \<longleftrightarrow> cpu_inv s \<and> locked (locks s l) = 0"

definition in_crit :: "lockid \<Rightarrow> 'z machine_scheme \<Rightarrow> bool" where
  "in_crit l s \<longleftrightarrow> cpu_inv s \<and> \<not> intr s \<and> 1 \<le> ncli (my_cpu s) \<and> held l s"

text \<open>The states the lock operations lead to.\<close>

definition pushed :: "'z machine_scheme \<Rightarrow> 'z machine_scheme" where
  "pushed s = s\<lparr>intr := False, cpus := (cpus s)[me s := (my_cpu s)
     \<lparr>intena := (if ncli (my_cpu s) = 0 then intr s else intena (my_cpu s)),
      ncli := ncli (my_cpu s) + 1\<rparr>]\<rparr>"

definition popped :: "'z machine_scheme \<Rightarrow> 'z machine_scheme" where
  "popped s = s\<lparr>intr := (ncli (my_cpu s) = 1 \<and> intena (my_cpu s)),
     cpus := (cpus s)[me s := (my_cpu s)\<lparr>ncli := ncli (my_cpu s) - 1\<rparr>]\<rparr>"

definition acquired :: "lockid \<Rightarrow> 'z machine_scheme \<Rightarrow> 'z machine_scheme" where
  "acquired l s = upd_lock l (\<lambda>k. k\<lparr>locked := 1, lk_cpu := Some (me s),
     pcs := getcallerpcs (lk_argp s) (mem s)\<rparr>) (pushed s)"

definition released :: "lockid \<Rightarrow> 'z machine_scheme \<Rightarrow> 'z machine_scheme" where
  "released l s = popped (upd_lock l (\<lambda>k. k\<lparr>locked := 0, lk_cpu := None, pcs := (pcs k)[0 := 0]\<rparr>) s)"

text \<open>
  \<open>balanced s t\<close>: as far as locking is concerned \<open>t\<close> is \<open>s\<close> again: the same
  interrupt flag, the same nesting depths, the same interrupt state to restore when the
  outermost lock is released, the same running processes and the same lock holders.
\<close>

definition cpu_view :: "cpu \<Rightarrow> u8 \<times> int \<times> bool \<times> nat option" where
  "cpu_view c = (apicid c, ncli c, ncli c \<noteq> 0 \<and> intena c, cpu_proc c)"

definition holder :: "spinlock \<Rightarrow> nat option option" where
  "holder k = (if locked k = 0 then None else Some (lk_cpu k))"

definition balanced :: "'z machine_scheme \<Rightarrow> 'y machine_scheme \<Rightarrow> bool" where
  "balanced s t \<longleftrightarrow> intr t = intr s \<and> lapic_id t = lapic_id s \<and>
     map cpu_view (cpus t) = map cpu_view (cpus s) \<and>
     (\<forall>l. holder (locks t l) = holder (locks s l))"

lemma find_index_map: "find_index P (map f xs) = find_index (\<lambda>x. P (f x)) xs"
  by (induction xs) simp_all

lemma find_apicid_cong:
  assumes "map apicid xs = map apicid ys"
  shows "find_index (\<lambda>c. apicid c = a) xs = find_index (\<lambda>c. apicid c = a) ys"
  using assms find_index_map [of "\<lambda>x. x = a" apicid xs] find_index_map [of "\<lambda>x. x = a" apicid ys]
  by simp

lemma map_update_same: "f y = f (xs ! i) \<Longrightarrow> map f (xs[i := y]) = map f xs"
  by (cases "i < length xs") (simp_all add: map_update list_update_same_conv list_update_beyond)

lemma me_cong: "map apicid (cpus t) = map apicid (cpus s) \<Longrightarrow> lapic_id t = lapic_id s \<Longrightarrow> me t = me s"
  by (simp add: me_def find_apicid_cong [of "cpus t" "cpus s"])

lemma me_less: "cpu_inv s \<Longrightarrow> me s < length (cpus s)"
  by (auto simp: cpu_inv_def dest: find_index_SomeD)

lemma me_pushed [simp]: "me (pushed s) = me s"
  by (rule me_cong) (simp_all add: pushed_def map_update_same)

lemma me_popped [simp]: "me (popped s) = me s"
  by (rule me_cong) (simp_all add: popped_def map_update_same)

lemma pushed_fields:
  "intr (pushed s) = False" "locks (pushed s) = locks s" "lk_argp (pushed s) = lk_argp s"
  "mem (pushed s) = mem s" "lapic_id (pushed s) = lapic_id s"
  by (simp_all add: pushed_def)

lemma cpus_popped: "cpus (popped s) = (cpus s)[me s := (my_cpu s)\<lparr>ncli := ncli (my_cpu s) - 1\<rparr>]"
  by (simp add: popped_def)

lemma cpus_pushed: "cpus (pushed s) = (cpus s)[me s := (my_cpu s)
     \<lparr>intena := (if ncli (my_cpu s) = 0 then intr s else intena (my_cpu s)),
      ncli := ncli (my_cpu s) + 1\<rparr>]"
  by (simp add: pushed_def)

lemma my_cpu_pushed:
  "me s < length (cpus s) \<Longrightarrow> cpus (pushed s) ! me s = (my_cpu s)
     \<lparr>intena := (if ncli (my_cpu s) = 0 then intr s else intena (my_cpu s)),
      ncli := ncli (my_cpu s) + 1\<rparr>"
  by (simp add: pushed_def)

lemma me_upd_lock [simp]: "me (upd_lock l f s) = me s"
  by (simp add: me_def upd_lock_def)

lemma mycpu_ok: "cpu_inv s \<Longrightarrow> \<not> intr s \<Longrightarrow> mycpu s = Ok (me s) s"
  by (simp add: mycpu_def cpu_inv_def)

lemma cpu_inv_upd_lock [simp]: "cpu_inv (upd_lock l f s) = cpu_inv s"
  by (simp add: cpu_inv_def) (simp add: upd_lock_def)

lemma find_my_cpu_upd:
  assumes "apicid c = apicid (cpus s ! i)"
  shows "find_index (\<lambda>c. apicid c = a) ((cpus s)[i := c]) = find_index (\<lambda>c. apicid c = a) (cpus s)"
  using assms by (intro find_apicid_cong map_update_same)

lemma pushcli_ok:
  assumes "cpu_inv s"
  shows "pushcli s = Ok () (pushed s)"
proof -
  have f: "find_index (\<lambda>c. apicid c = lapic_id s) (cpus s) = Some (me s)"
    using assms by (simp add: cpu_inv_def)
  have l: "me s < length (cpus s)" using assms by (rule me_less)
  show ?thesis
    by (simp add: pushcli_def mycpu_def f upd_cpu_def find_my_cpu_upd l pushed_def)
qed

lemma popcli_ok:
  assumes "cpu_inv s" "\<not> intr s" "1 \<le> ncli (my_cpu s)"
  shows "popcli s = Ok () (popped s)"
proof -
  have f: "find_index (\<lambda>c. apicid c = lapic_id s) (cpus s) = Some (me s)"
    using assms(1) by (simp add: cpu_inv_def)
  have l: "me s < length (cpus s)" using assms(1) by (rule me_less)
  show ?thesis
    using assms(2,3)
    by (auto simp add: popcli_def mycpu_def f upd_cpu_def find_my_cpu_upd l popped_def Let_def)
qed

lemma cpu_inv_pushed [simp]: "cpu_inv s \<Longrightarrow> cpu_inv (pushed s)"
  using me_less [of s] unfolding cpu_inv_def me_pushed
  by (simp add: pushed_def find_my_cpu_upd)

lemma popped_pushed:
  assumes "cpu_inv s" "1 \<le> ncli (my_cpu s)"
  shows "popped (pushed s) = s"
proof -
  have "me s < length (cpus s)" using assms(1) by (rule me_less)
  moreover have "\<not> intr s" using assms by (auto simp: cpu_inv_def)
  ultimately show ?thesis
    using assms(2) by (simp add: popped_def) (simp add: pushed_def)
qed

lemma holding_ok:
  assumes "cpu_inv s" "1 \<le> ncli (my_cpu s)"
  shows "holding l s = Ok (held l s) s"
proof -
  have l: "me s < length (cpus s)" using assms(1) by (rule me_less)
  have i: "\<not> intr (pushed s)" and n: "1 \<le> ncli (my_cpu (pushed s))"
    using assms(2) l by (simp_all add: pushed_fields my_cpu_pushed)
  have k: "locks (pushed s) = locks s" by (simp add: pushed_fields)
  show ?thesis
    using assms i n
    by (simp add: holding_def pushcli_ok mycpu_ok popcli_ok popped_pushed held_def Let_def k)
qed

lemma pushed_depth:
  assumes "cpu_inv s"
  shows "ncli (my_cpu (pushed s)) = ncli (my_cpu s) + 1" and "\<not> intr (pushed s)"
  using me_less [OF assms] by (simp_all add: pushed_fields my_cpu_pushed)

lemma acquire_cases:
  assumes "cpu_inv s"
  shows "acquire l s = (if held l s then Panic ''acquire''
           else if locked (locks s l) \<noteq> 0 then Spin else Ok () (acquired l s))"
proof -
  have d: "1 \<le> ncli (my_cpu (pushed s))"
    using pushed_depth(1) [OF assms] assms by (simp add: cpu_inv_def)
  note k = pushed_fields
  have h: "held l (pushed s) = held l s" by (simp add: held_def k)
  have i: "\<not> intr (upd_lock l f (pushed s))" for f
    using pushed_depth(2) [OF assms] by (simp add: upd_lock_def)
  show ?thesis
    using assms d
    by (simp add: acquire_def pushcli_ok holding_ok h mycpu_ok i k Let_def acquired_def)
      (simp add: upd_lock_def k)
qed

lemma acquire_ok: "can_lock l s \<Longrightarrow> acquire l s = Ok () (acquired l s)"
  by (simp add: can_lock_def acquire_cases held_def)

lemma release_ok:
  assumes "in_crit l s"
  shows "release l s = Ok () (released l s)"
proof -
  have a: "cpu_inv s" "1 \<le> ncli (my_cpu s)" "held l s" "\<not> intr s"
    using assms by (simp_all add: in_crit_def)
  have m: "me (upd_lock l f s) = me s" "cpus (upd_lock l f s) = cpus s" "intr (upd_lock l f s) = intr s" for f
    by simp (simp_all add: upd_lock_def)
  have two: "upd_lock l g (upd_lock l f s) = upd_lock l (\<lambda>k. g (f k)) s" for f g
    by (simp add: upd_lock_def)
  have eq: "(\<lambda>k. k\<lparr>pcs := (pcs k)[0 := 0], lk_cpu := None, locked := 0\<rparr>) =
     (\<lambda>k::spinlock. k\<lparr>locked := 0, lk_cpu := None, pcs := (pcs k)[0 := 0]\<rparr>)"
    by (rule ext) simp
  show ?thesis
    using a by (simp add: release_def holding_ok two popcli_ok m released_def Let_def eq)
qed

lemma release_not_held: "cpu_inv s \<Longrightarrow> 1 \<le> ncli (my_cpu s) \<Longrightarrow> \<not> held l s \<Longrightarrow> release l s = Panic ''release''"
  by (simp add: release_def holding_ok)

section \<open>Balanced locking\<close>

lemma balanced_refl [simp]: "balanced s s"
  by (simp add: balanced_def)

lemma balanced_trans [trans]: "balanced s t \<Longrightarrow> balanced t u \<Longrightarrow> balanced s u"
  by (simp add: balanced_def)

lemma balanced_sym: "balanced s t \<Longrightarrow> balanced t s"
  by (simp add: balanced_def)

lemma balanced_cpu:
  assumes "balanced s t"
  shows "length (cpus t) = length (cpus s)"
    and "i < length (cpus s) \<Longrightarrow> cpu_view (cpus t ! i) = cpu_view (cpus s ! i)"
proof -
  have m: "map cpu_view (cpus t) = map cpu_view (cpus s)"
    using assms by (simp add: balanced_def)
  then show l: "length (cpus t) = length (cpus s)" by (metis length_map)
  show "cpu_view (cpus t ! i) = cpu_view (cpus s ! i)" if "i < length (cpus s)"
    using m l that by (metis nth_map)
qed

lemma balanced_me:
  assumes "balanced s t"
  shows "me t = me s"
proof (rule me_cong)
  have "map fst (map cpu_view (cpus t)) = map fst (map cpu_view (cpus s))"
    using assms by (simp add: balanced_def)
  then show "map apicid (cpus t) = map apicid (cpus s)"
    by (simp add: cpu_view_def comp_def)
  show "lapic_id t = lapic_id s" using assms by (simp add: balanced_def)
qed

lemma cpu_inv_iff: "cpu_inv s \<longleftrightarrow> me s < length (cpus s) \<and> apicid (my_cpu s) = lapic_id s \<and>
    0 \<le> ncli (my_cpu s) \<and> (intr s \<longrightarrow> ncli (my_cpu s) = 0)"
proof -
  have "find_index (\<lambda>c. apicid c = lapic_id s) (cpus s) = Some (me s) \<longleftrightarrow>
      me s < length (cpus s) \<and> apicid (my_cpu s) = lapic_id s"
  proof (cases "find_index (\<lambda>c. apicid c = lapic_id s) (cpus s)")
    case None
    then have "\<forall>c \<in> set (cpus s). apicid c \<noteq> lapic_id s" by (simp only: find_index_None)
    with None show ?thesis using nth_mem [of "me s" "cpus s"] by auto
  next
    case (Some i)
    then show ?thesis using find_index_SomeD(1,2) [OF Some] by (simp add: me_def)
  qed
  then show ?thesis by (auto simp: cpu_inv_def)
qed

lemma balanced_my_cpu:
  assumes "balanced s t" "me s < length (cpus s)"
  shows "cpu_view (my_cpu t) = cpu_view (my_cpu s)"
  using balanced_cpu(2) [OF assms] by (simp add: balanced_me [OF assms(1)])

lemma cpu_inv_balanced:
  assumes "balanced s t" "cpu_inv s"
  shows "cpu_inv t"
proof -
  have l: "me s < length (cpus s)" using assms(2) by (rule me_less)
  have "lapic_id t = lapic_id s" "intr t = intr s" using assms(1) by (simp_all add: balanced_def)
  then show ?thesis
    using assms(2) l balanced_my_cpu [OF assms(1) l] balanced_cpu(1) [OF assms(1)]
    by (simp add: cpu_inv_iff balanced_me [OF assms(1)] cpu_view_def)
qed

lemma locked_holder: "locked k = 0 \<longleftrightarrow> holder k = None"
  by (simp add: holder_def)

lemma held_holder: "held l s \<longleftrightarrow> holder (locks s l) = Some (Some (me s))"
  by (simp add: held_def holder_def)

lemma can_lock_balanced: "balanced s t \<Longrightarrow> can_lock l s \<Longrightarrow> can_lock l t"
  by (simp add: can_lock_def cpu_inv_balanced) (simp add: locked_holder balanced_def)

lemma in_crit_balanced:
  assumes "balanced s t" "in_crit l s"
  shows "in_crit l t"
proof -
  have c: "cpu_inv s" using assms(2) by (simp add: in_crit_def)
  have "ncli (my_cpu t) = ncli (my_cpu s)"
    using balanced_my_cpu [OF assms(1) me_less [OF c]] by (simp add: cpu_view_def)
  moreover have "held l t = held l s"
    using assms(1) by (simp add: held_holder balanced_me [OF assms(1)]) (simp add: balanced_def)
  moreover have "intr t = intr s" using assms(1) by (simp add: balanced_def)
  ultimately show ?thesis
    using assms cpu_inv_balanced [OF assms(1) c] by (simp add: in_crit_def)
qed

lemma me_acquired [simp]: "me (acquired l s) = me s"
  by (simp add: acquired_def)

lemma in_crit_acquired:
  assumes "can_lock l s"
  shows "in_crit l (acquired l s)"
proof -
  have c: "cpu_inv s" using assms by (simp add: can_lock_def)
  have "cpu_inv (acquired l s)" using c by (simp add: acquired_def)
  moreover have "\<not> intr (acquired l s)" "1 \<le> ncli (my_cpu (acquired l s))"
    using c me_less [OF c] unfolding me_acquired
    by (simp_all add: acquired_def upd_lock_def pushed_fields my_cpu_pushed cpu_inv_def)
  moreover have "held l (acquired l s)"
    unfolding held_def me_acquired by (simp add: acquired_def upd_lock_def)
  ultimately show ?thesis by (simp add: in_crit_def)
qed

section \<open>Code between \<open>pushcli\<close> and \<open>popcli\<close>\<close>

lemma balanced_upd_cpu:
  assumes "\<And>k. cpu_view (f k) = cpu_view k"
  shows "balanced s (upd_cpu c f s)"
  using assms by (simp add: balanced_def upd_cpu_def map_update_same)

lemma popcli_balanced:
  assumes ci: "cpu_inv s" and body: "balanced (pushed s) t"
  shows "popcli t = Ok () (popped t)" and "balanced s (popped t)"
proof -
  have l: "me s < length (cpus s)" using ci by (rule me_less)
  have m: "me t = me s" using balanced_me [OF body] by simp
  have len: "length (cpus t) = length (cpus s)" using balanced_cpu(1) [OF body] by (simp add: pushed_def)
  have v: "cpu_view (cpus t ! i) = cpu_view (cpus (pushed s) ! i)" if "i < length (cpus s)" for i
    using balanced_cpu(2) [OF body, of i] that by (simp add: cpus_pushed)
  have vm: "cpu_view (cpus t ! me s) = cpu_view ((my_cpu s)
      \<lparr>intena := (if ncli (my_cpu s) = 0 then intr s else intena (my_cpu s)),
       ncli := ncli (my_cpu s) + 1\<rparr>)"
    using v [OF l] l by (simp add: my_cpu_pushed)
  then have n: "ncli (cpus t ! me s) = ncli (my_cpu s) + 1" by (simp add: cpu_view_def)
  have it: "\<not> intr t" using body by (simp add: balanced_def pushed_fields)
  have ct: "cpu_inv t" by (rule cpu_inv_balanced [OF body cpu_inv_pushed [OF ci]])
  show "popcli t = Ok () (popped t)"
    using ci n by (intro popcli_ok [OF ct it]) (simp add: m cpu_inv_def)
  have "cpu_view (cpus (popped t) ! i) = cpu_view (cpus s ! i)" if "i < length (cpus s)" for i
  proof (cases "i = me s")
    case True
    then show ?thesis using vm l len ci by (auto simp: cpus_popped m cpu_view_def cpu_inv_def)
  next
    case False
    then show ?thesis using v [OF that] by (simp add: cpus_popped cpus_pushed m)
  qed
  then have views: "map cpu_view (cpus (popped t)) = map cpu_view (cpus s)"
    by (intro nth_equalityI) (simp_all add: cpus_popped len)
  have "intr (popped t) = (ncli (cpus t ! me s) = 1 \<and> intena (cpus t ! me s))"
    by (simp add: popped_def m)
  then have i: "intr (popped t) = intr s"
    using vm ci by (auto simp: cpu_view_def cpu_inv_def split: if_splits)
  have "lapic_id (popped t) = lapic_id s" "\<forall>l. holder (locks (popped t) l) = holder (locks s l)"
    using body by (simp_all add: popped_def balanced_def pushed_fields)
  then show "balanced s (popped t)" using views i by (simp add: balanced_def)
qed

section \<open>Critical sections\<close>

text \<open>
  The critical section rule: whatever the code does between taking and releasing a free
  lock, if it is balanced itself then the release succeeds and the whole is balanced.
\<close>

lemma release_balanced:
  assumes free: "can_lock l s" and body: "balanced (acquired l s) t"
  shows "release l t = Ok () (released l t)" and "balanced s (released l t)"
proof -
  have ci: "cpu_inv s" using free by (simp add: can_lock_def)
  show "release l t = Ok () (released l t)"
    by (rule release_ok [OF in_crit_balanced [OF body in_crit_acquired [OF free]]])
  have h: "holder (locks t k) = holder (locks (acquired l s) k)" for k
    using body by (simp add: balanced_def)
  have "holder (locks (upd_lock l (\<lambda>k. k\<lparr>locked := 0, lk_cpu := None, pcs := (pcs k)[0 := 0]\<rparr>) t) k) =
      holder (locks (pushed s) k)" for k
    using h [of k] free
    by (cases "k = l") (simp_all add: upd_lock_def acquired_def pushed_fields holder_def can_lock_def)
  then have "balanced (pushed s) (upd_lock l (\<lambda>k. k\<lparr>locked := 0, lk_cpu := None, pcs := (pcs k)[0 := 0]\<rparr>) t)"
    using body by (simp add: balanced_def) (simp add: upd_lock_def acquired_def)
  from popcli_balanced(2) [OF ci this] show "balanced s (released l t)" by (simp add: released_def)
qed

lemma returns_acquire:
  "can_lock l s \<Longrightarrow> returns (f () (acquired l s)) Q \<Longrightarrow> returns (run (acquire l s) f) Q"
  by (simp add: acquire_ok)

lemma myproc_ok:
  assumes "cpu_inv s"
  shows "returns (myproc s) (\<lambda>p t. p = cpu_proc (my_cpu s) \<and> balanced s t \<and> t = popped (pushed s))"
proof -
  have l: "me s < length (cpus s)" using assms by (rule me_less)
  have d: "\<not> intr (pushed s)" "1 \<le> ncli (my_cpu (pushed s))"
    using pushed_depth [OF assms] assms by (simp_all add: cpu_inv_def)
  have "cpus (popped (pushed s)) = (cpus s)[me s := (my_cpu s)
      \<lparr>intena := (if ncli (my_cpu s) = 0 then intr s else intena (my_cpu s))\<rparr>]"
    using l by (simp add: cpus_popped cpus_pushed)
  then have v: "map cpu_view (cpus (popped (pushed s))) = map cpu_view (cpus s)"
    by (simp add: map_update_same cpu_view_def)
  have i: "intr (popped (pushed s)) = intr s"
    using l assms by (simp add: popped_def my_cpu_pushed cpu_inv_def) blast
  have "balanced s (popped (pushed s))"
    using v i by (simp add: balanced_def) (simp add: popped_def pushed_def)
  then show ?thesis
    using assms d l
    by (simp add: myproc_def pushcli_ok mycpu_ok popcli_ok Let_def my_cpu_pushed)
qed

section \<open>Nested locks\<close>

lemma cpus_upd_lock [simp]: "cpus (upd_lock l f s) = cpus s"
  by (simp add: upd_lock_def)

lemma me_released [simp]: "me (released l s) = me s"
  by (simp add: released_def)

lemma acquired_depth: "cpu_inv s \<Longrightarrow> ncli (cpus (acquired l s) ! me s) = ncli (my_cpu s) + 1"
  using me_less [of s] by (simp add: acquired_def upd_lock_def my_cpu_pushed)

lemma released_depth:
  assumes "cpu_inv s"
  shows "ncli (cpus (released l s) ! me s) = ncli (my_cpu s) - 1"
  using me_less [OF assms] by (simp add: released_def cpus_popped)

lemma cpu_proc_locked [simp]:
  "cpu_inv s \<Longrightarrow> cpu_proc (cpus (acquired l s) ! me s) = cpu_proc (my_cpu s)"
  "cpu_inv s \<Longrightarrow> cpu_proc (cpus (released l s) ! me s) = cpu_proc (my_cpu s)"
  using me_less [of s] by (simp_all add: acquired_def released_def cpus_popped my_cpu_pushed)

lemma held_locked_other [simp]:
  "k \<noteq> l \<Longrightarrow> held k (acquired l s) = held k s" "k \<noteq> l \<Longrightarrow> held k (released l s) = held k s"
  unfolding held_def me_acquired me_released
  by (simp_all add: acquired_def released_def popped_def pushed_def upd_lock_def)

lemma locked_locked [simp]:
  "locked (locks (released l s) l) = 0"
  "k \<noteq> l \<Longrightarrow> locked (locks (released l s) k) = locked (locks s k)"
  "k \<noteq> l \<Longrightarrow> locked (locks (acquired l s) k) = locked (locks s k)"
  by (simp_all add: acquired_def released_def popped_def pushed_def upd_lock_def)

lemma cpu_inv_acquired [simp]: "cpu_inv s \<Longrightarrow> cpu_inv (acquired l s)"
  by (simp add: acquired_def)

lemma cpu_inv_popped:
  assumes "cpu_inv s" "1 \<le> ncli (my_cpu s)"
  shows "cpu_inv (popped s)"
  using me_less [OF assms(1)] assms unfolding cpu_inv_def me_popped
  by (simp add: popped_def find_my_cpu_upd)

lemma cpu_inv_released:
  assumes "cpu_inv s" "1 \<le> ncli (my_cpu s)"
  shows "cpu_inv (released l s)"
  unfolding released_def
  using assms by (intro cpu_inv_popped) simp_all

lemma in_crit_acquired_other:
  assumes "in_crit l s" "can_lock k s"
  shows "in_crit l (acquired k s)"
proof -
  have "k \<noteq> l" using assms by (auto simp: in_crit_def can_lock_def held_def)
  moreover have "\<not> intr (acquired k s)" by (simp add: acquired_def upd_lock_def pushed_fields)
  ultimately show ?thesis using assms by (simp add: in_crit_def acquired_depth)
qed

lemma in_crit_released_other:
  assumes "in_crit k s" "k \<noteq> l" "2 \<le> ncli (my_cpu s)"
  shows "in_crit k (released l s)"
proof -
  have i: "\<not> intr (released l s)"
    using assms(3) by (simp add: released_def popped_def)
  show ?thesis
    using assms i by (simp add: in_crit_def released_depth cpu_inv_released)
qed

section \<open>Properties\<close>

text \<open>A machine with one processor, interrupts on and every lock free.\<close>

definition machine0 :: machine where
  "machine0 = \<lparr>cpus = [\<lparr>apicid = 0, cpu_ts = \<lparr>esp0 = 0, ss0 = 0, iomb = 0\<rparr>, gdt = [], started = True,
       ncli = 0, intena = False, cpu_proc = None, cr3 = 0, tr = 0\<rparr>],
     lapic_id = 0, intr = True, locks = (\<lambda>_. \<lparr>locked = 0, lk_name = [], lk_cpu = None, pcs = replicate 10 0\<rparr>),
     mem = (\<lambda>_. 0), lk_argp = 0\<rparr>"

lemma machine0_free: "can_lock l machine0"
  by (simp add: can_lock_def cpu_inv_def me_def machine0_def)

text \<open>
  C5: a critical section.  Taking a free lock, running any code that is itself balanced
  and releasing the lock returns normally, and leaves the interrupt flag, the nesting
  depths and every lock holder as they were before.
\<close>

theorem critical_section:
  assumes "can_lock l s"
    and "returns (body (acquired l s)) (\<lambda>a t. balanced (acquired l s) t \<and> Q a t)"
  shows "returns (run (acquire l s) (\<lambda>_ s. run (body s) (\<lambda>a s. run (release l s) (\<lambda>_ s. Ok a s))))
     (\<lambda>a t. balanced s t \<and> (\<exists>u. Q a u \<and> t = released l u))"
  using assms(2) unfolding returns_iff
  by (auto simp: acquire_ok [OF assms(1)] release_balanced [OF assms(1)])

theorem critical_section_witness:
  "returns (run (acquire KmemLock machine0) (\<lambda>_ s.
       run (Ok (3 :: int) s) (\<lambda>a s. run (release KmemLock s) (\<lambda>_ s. Ok a s))))
     (\<lambda>a t. balanced machine0 t \<and> (\<exists>u. a = 3 \<and> t = released KmemLock u))"
  by (rule critical_section [where body = "Ok 3" and Q = "\<lambda>a u. a = 3", OF machine0_free]) simp

text \<open>
  C8: the outcomes of \<open>acquire\<close>.  On a processor in a consistent state it panics exactly
  when this processor already holds the lock, spins exactly when another one does, and
  otherwise returns holding the lock with interrupts off.
\<close>

theorem acquire_outcomes:
  assumes "cpu_inv s"
  shows "(acquire l s = Panic ''acquire'' \<longleftrightarrow> held l s) \<and>
     (acquire l s = Spin \<longleftrightarrow> locked (locks s l) \<noteq> 0 \<and> \<not> held l s) \<and>
     (locked (locks s l) = 0 \<longrightarrow> returns (acquire l s) (\<lambda>_ t. in_crit l t))"
  using in_crit_acquired [of l s] assms by (auto simp: acquire_cases can_lock_def held_def)

theorem acquire_outcomes_witness:
  "returns (acquire KmemLock machine0) (\<lambda>_ t. in_crit KmemLock t)"
  using acquire_outcomes [of machine0 KmemLock] machine0_free [of KmemLock] by (simp add: can_lock_def)

end
