(* ===== verification/Console.thy ===== *)
theory Console
  imports Machine
begin

text \<open>
  Console output, \<open>lab2/console.c\<close> and \<open>uartputc\<close> of \<open>lab2/uart.c\<close>: characters
  go to the serial port and to the CGA screen, a text memory of 16-bit cells with a
  cursor register.  \<open>printint\<close> and \<open>cprintf\<close> are the kernel's formatted output.
  A format is a string; the panic of \<open>cprintf\<close> on a null format, which no caller passes, is left out.
  The lemmas show that the cursor stays on the screen, so that printing never panics,
  and that the number \<open>printint\<close> prints reads back as its argument.
\<close>

record console = machine +
  crt_pos :: int
  crt :: "nat \<Rightarrow> u16"
  uart_on :: bool
  uart_out :: "u8 list"
  panicked :: bool
  cons_locking :: bool

abbreviation (input) BACKSPACE :: int where
  "BACKSPACE \<equiv> 0x100"

section \<open>The code\<close>

text \<open>The wait for the transmitter is bounded and changes nothing.\<close>

definition uartputc :: "int \<Rightarrow> 'z console_scheme \<Rightarrow> 'z console_scheme" where
  "uartputc c s = (if \<not> uart_on s then s else s\<lparr>uart_out := uart_out s @ [word_of_int c]\<rparr>)"

definition cgaputc :: "int \<Rightarrow> 'z console_scheme \<Rightarrow> ('z console_scheme, unit) res" where
  "cgaputc c s =
     (let pos = crt_pos s;
          (pos, s) =
            (if c = 10 then (pos + (80 - pos smod 80), s)
             else if c = BACKSPACE then (if pos > 0 then pos - 1 else pos, s)
             else (pos + 1, s\<lparr>crt := (crt s)(nat pos := (word_of_int c AND 0xff) OR 0x0700)\<rparr>))
      in if pos < 0 \<or> pos > 25 * 80 then Panic ''pos under/overflow''
      else
        let (pos, s) =
          (if pos sdiv 80 \<ge> 24 then
             (let s = s\<lparr>crt := (\<lambda>i. if i < 23 * 80 then crt s (i + 80) else crt s i)\<rparr>;
                  pos = pos - 80;
                  s = s\<lparr>crt := (\<lambda>i. if nat pos \<le> i \<and> i < 24 * 80 then 0 else crt s i)\<rparr>
              in (pos, s))
           else (pos, s));
          s = s\<lparr>crt_pos := pos\<rparr>
        in Ok () (s\<lparr>crt := (crt s)(nat pos := 0x0720)\<rparr>))"

definition consputc :: "int \<Rightarrow> 'z console_scheme \<Rightarrow> ('z console_scheme, unit) res" where
  "consputc c s =
     (if panicked s then Spin
      else
        let s = (if c = BACKSPACE then uartputc 8 (uartputc 32 (uartputc 8 s)) else uartputc c s)
        in cgaputc c s)"

definition digits :: string where
  "digits = ''0123456789abcdef''"

function digits_loop :: "nat \<Rightarrow> nat \<Rightarrow> string" where
  "digits_loop x base =
     (digits ! (x mod base)) #
     (if 2 \<le> base \<and> x div base \<noteq> 0 then digits_loop (x div base) base else [])"
  by pat_completeness auto
termination
  by (relation "measure fst") (auto simp: div_greater_zero_iff)

declare digits_loop.simps [simp del]

text \<open>The characters \<open>printint\<close> leaves in its buffer, in the order it prints them.\<close>

definition printint_buf :: "int \<Rightarrow> nat \<Rightarrow> bool \<Rightarrow> string" where
  "printint_buf xx base sign =
     (let neg = (sign \<and> xx < 0);
          x = (if neg then unat (word_of_int (- xx) :: u32) else unat (word_of_int xx :: u32));
          buf = digits_loop x base;
          buf = (if neg then buf @ ''-'' else buf)
      in rev buf)"

definition put_string :: "string \<Rightarrow> 'z console_scheme \<Rightarrow> ('z console_scheme, unit) res" where
  "put_string str s = for_each str (\<lambda>c s. consputc (of_char c) s) s"

definition printint :: "int \<Rightarrow> nat \<Rightarrow> bool \<Rightarrow> 'z console_scheme \<Rightarrow> ('z console_scheme, unit) res" where
  "printint xx base sign s = put_string (printint_buf xx base sign) s"

text \<open>
  The variable arguments: words, and pointers to NUL-terminated strings (\<open>None\<close> is the
  null pointer).  A conversion without an argument of its kind reads past what the caller
  passed, which C leaves undefined.
\<close>

datatype carg = Word int | Str "string option"

fun cprintf_loop :: "string \<Rightarrow> carg list \<Rightarrow> 'z console_scheme \<Rightarrow> ('z console_scheme, unit) res" where
  "cprintf_loop [] args s = Ok () s"
| "cprintf_loop [c] args s = (if c \<noteq> CHR ''%'' then consputc (of_char c) s else Ok () s)"
| "cprintf_loop (c # d # fmt) args s =
     (if c \<noteq> CHR ''%'' then run (consputc (of_char c) s) (\<lambda>_ s. cprintf_loop (d # fmt) args s)
      else if d = CHR ''d'' then
        (case args of Word x # args' \<Rightarrow> run (printint x 10 True s) (\<lambda>_ s. cprintf_loop fmt args' s)
         | _ \<Rightarrow> Panic ''undefined behaviour'')
      else if d = CHR ''x'' \<or> d = CHR ''p'' then
        (case args of Word x # args' \<Rightarrow> run (printint x 16 False s) (\<lambda>_ s. cprintf_loop fmt args' s)
         | _ \<Rightarrow> Panic ''undefined behaviour'')
      else if d = CHR ''s'' then
        (case args of
           Str p # args' \<Rightarrow>
             run (put_string (case p of None \<Rightarrow> ''(null)'' | Some str \<Rightarrow> str) s)
               (\<lambda>_ s. cprintf_loop fmt args' s)
         | _ \<Rightarrow> Panic ''undefined behaviour'')
      else if d = CHR ''%'' then run (consputc (of_char CHR ''%'') s) (\<lambda>_ s. cprintf_loop fmt args s)
      else run (consputc (of_char CHR ''%'') s) (\<lambda>_ s.
           run (consputc (of_char d) s) (\<lambda>_ s. cprintf_loop fmt args s)))"

definition cprintf :: "string \<Rightarrow> carg list \<Rightarrow> 'z console_scheme \<Rightarrow> ('z console_scheme, unit) res" where
  "cprintf fmt args s =
     (let locking = cons_locking s in
      run (if locking then acquire ConsLock s else Ok () s) (\<lambda>_ s.
      run (cprintf_loop fmt args s) (\<lambda>_ s.
      if locking then release ConsLock s else Ok () s)))"

section \<open>The cursor stays on the screen\<close>

definition cons_ok :: "'z console_scheme \<Rightarrow> bool" where
  "cons_ok s \<longleftrightarrow> 0 \<le> crt_pos s \<and> crt_pos s < 24 * 80 \<and> \<not> panicked s"

text \<open>What console output leaves alone.\<close>

definition same_but_output :: "'z console_scheme \<Rightarrow> 'z console_scheme \<Rightarrow> bool" where
  "same_but_output s t \<longleftrightarrow> machine.truncate t = machine.truncate s \<and> cons_locking t = cons_locking s \<and>
     panicked t = panicked s \<and> uart_on t = uart_on s \<and> console.more t = console.more s"

lemma same_but_output_refl [simp]: "same_but_output s s"
  by (simp add: same_but_output_def)

lemma same_but_output_trans: "same_but_output s t \<Longrightarrow> same_but_output t u \<Longrightarrow> same_but_output s u"
  by (simp add: same_but_output_def)

lemma sdiv_smod_nonneg: "0 \<le> x \<Longrightarrow> x sdiv 80 = x div 80" "0 \<le> x \<Longrightarrow> x smod 80 = x mod (80::int)"
  by (cases "x = 0"; simp add: signed_divide_int_def signed_modulo_int_def sgn_if)+

lemma scroll_iff: "0 \<le> x \<Longrightarrow> x \<le> 1920 \<Longrightarrow> 24 \<le> x div 80 \<longleftrightarrow> x = (1920 :: int)"
  by presburger

lemma newline_pos:
  fixes x :: int
  assumes "0 \<le> x" "x < 1920"
  shows "x + (80 - x mod 80) \<le> 1920" and "\<not> x + (80 - x mod 80) < 0"
proof -
  have "x div 80 \<le> 1919 div 80" using assms by (intro zdiv_mono1) simp_all
  moreover have "x - x mod 80 = 80 * (x div 80)" by (rule minus_mod_eq_mult_div)
  moreover have "x mod 80 < 80" by simp
  moreover have "1919 div 80 = (23 :: int)" by simp
  ultimately have "x - x mod 80 \<le> 1840" "x mod 80 < 80" by linarith+
  then show "x + (80 - x mod 80) \<le> 1920" and "\<not> x + (80 - x mod 80) < 0"
    using assms(1) by linarith+
qed

lemma cgaputc_ok:
  assumes "cons_ok s"
  shows "returns (cgaputc c s) (\<lambda>_ t. cons_ok t \<and> same_but_output s t \<and> uart_out t = uart_out s)"
proof -
  have p: "0 \<le> crt_pos s" "crt_pos s < 1920" using assms by (simp_all add: cons_ok_def)
  note nl = newline_pos [OF p]
  show ?thesis
    using assms p nl
    by (simp add: cgaputc_def cons_ok_def same_but_output_def machine.truncate_def Let_def
        sdiv_smod_nonneg scroll_iff not_less) (use nl(2) in blast)
qed

text \<open>The bytes that reach the serial line.\<close>

definition serial :: "'z console_scheme \<Rightarrow> string \<Rightarrow> u8 list" where
  "serial s str = (if uart_on s then map (\<lambda>c. word_of_int (of_char c)) str else [])"

lemma serial_append [simp]: "serial s (a @ b) = serial s a @ serial s b"
  by (simp add: serial_def)

lemma serial_cong: "same_but_output s t \<Longrightarrow> serial t = serial s"
  by (simp add: serial_def same_but_output_def fun_eq_iff)

lemma consputc_ok:
  assumes "cons_ok s"
  shows "returns (consputc (of_char c) s)
     (\<lambda>_ t. cons_ok t \<and> same_but_output s t \<and> uart_out t = uart_out s @ serial s [c])"
proof -
  have nb: "of_char c \<noteq> (256 :: int)"
    by (cases c) simp
  let ?s = "uartputc (of_char c) s"
  have u: "cons_ok ?s" "same_but_output s ?s" "uart_out ?s = uart_out s @ serial s [c]"
    using assms
    by (auto simp: uartputc_def cons_ok_def same_but_output_def machine.truncate_def serial_def)
  have "returns (cgaputc (of_char c) ?s) (\<lambda>_ t. cons_ok t \<and> same_but_output ?s t \<and> uart_out t = uart_out ?s)"
    using u(1) by (rule cgaputc_ok)
  then show ?thesis
    using assms nb u by (auto simp: consputc_def cons_ok_def elim!: returns_mono intro: same_but_output_trans)
qed

lemma put_string_ok:
  assumes "cons_ok s"
  shows "returns (put_string str s)
     (\<lambda>_ t. cons_ok t \<and> same_but_output s t \<and> uart_out t = uart_out s @ serial s str)"
  unfolding put_string_def using assms
proof (induction str arbitrary: s)
  case Nil
  then show ?case by (simp add: serial_def)
next
  case (Cons c str)
  show ?case
    unfolding for_each.simps returns_run
  proof (rule returns_mono [OF consputc_ok [OF Cons.prems]])
    fix u t assume t: "cons_ok t \<and> same_but_output s t \<and> uart_out t = uart_out s @ serial s [c]"
    then have "returns (for_each str (\<lambda>c. consputc (of_char c)) t)
        (\<lambda>_ t'. cons_ok t' \<and> same_but_output t t' \<and> uart_out t' = uart_out t @ serial t str)"
      by (intro Cons.IH) simp
    then show "returns (for_each str (\<lambda>c. consputc (of_char c)) t)
        (\<lambda>_ t'. cons_ok t' \<and> same_but_output s t' \<and> uart_out t' = uart_out s @ serial s (c # str))"
      using t serial_cong [of s t] serial_append [of s "[c]" str]
      by (auto elim!: returns_mono intro: same_but_output_trans)
  qed
qed

section \<open>Formatted output\<close>

text \<open>
  \<open>format fmt args\<close> is the text that a format with matching arguments stands for;
  \<open>None\<close> when the arguments do not match.
\<close>

fun format :: "string \<Rightarrow> carg list \<Rightarrow> string option" where
  "format [] args = Some []"
| "format [c] args = Some (if c \<noteq> CHR ''%'' then [c] else [])"
| "format (c # d # fmt) args =
     (if c \<noteq> CHR ''%'' then map_option (Cons c) (format (d # fmt) args)
      else if d = CHR ''d'' then
        (case args of Word x # args' \<Rightarrow> map_option (append (printint_buf x 10 True)) (format fmt args') | _ \<Rightarrow> None)
      else if d = CHR ''x'' \<or> d = CHR ''p'' then
        (case args of Word x # args' \<Rightarrow> map_option (append (printint_buf x 16 False)) (format fmt args') | _ \<Rightarrow> None)
      else if d = CHR ''s'' then
        (case args of Str p # args' \<Rightarrow>
           map_option (append (case p of None \<Rightarrow> ''(null)'' | Some str \<Rightarrow> str)) (format fmt args') | _ \<Rightarrow> None)
      else if d = CHR ''%'' then map_option (Cons CHR ''%'') (format fmt args)
      else map_option (append [CHR ''%'', d]) (format fmt args))"

abbreviation printed :: "'z console_scheme \<Rightarrow> string \<Rightarrow> 'z console_scheme \<Rightarrow> bool" where
  "printed s str t \<equiv> cons_ok t \<and> same_but_output s t \<and> uart_out t = uart_out s @ serial s str"

lemma printed_trans: "printed s a t \<Longrightarrow> printed t b u \<Longrightarrow> printed s (a @ b) u"
  using serial_cong [of s t] by (auto intro: same_but_output_trans)

lemma printed_run:
  fixes m :: "('z console_scheme, unit) res"
  assumes "returns m (\<lambda>_ t. printed s a t)"
    and "\<And>t. m = Ok () t \<Longrightarrow> printed s a t \<Longrightarrow> returns (f t) (\<lambda>_ u. printed t b u)"
  shows "returns (run m (\<lambda>_ t. f t)) (\<lambda>_ u. printed s (a @ b) u)"
proof -
  obtain t where t: "m = Ok () t" "printed s a t" using assms(1) by (auto simp: returns_iff)
  have "returns (f t) (\<lambda>_ u. printed t b u)" using assms(2) t by blast
  then have "returns (f t) (\<lambda>_ u. printed s (a @ b) u)"
    by (rule returns_mono) (rule printed_trans [OF t(2)])
  then show ?thesis using t(1) by simp
qed

lemma cprintf_loop_ok:
  assumes "cons_ok s" "format fmt args = Some str"
  shows "returns (cprintf_loop fmt args s) (\<lambda>_ t. printed s str t)"
  using assms
proof (induction fmt args s arbitrary: str rule: cprintf_loop.induct)
  case (1 args s)
  then show ?case by (simp add: serial_def)
next
  case (2 c args s)
  then show ?case using consputc_ok [of s c] by (auto simp: serial_def split: if_splits)
next
  case (3 c d fmt args s)
  show ?case
  proof (cases "c = CHR ''%''")
    case False
    then obtain r where r: "format (d # fmt) args = Some r" "str = [c] @ r"
      using "3.prems"(2) by auto
    have "returns (run (consputc (of_char c) s) (\<lambda>_ t. cprintf_loop (d # fmt) args t))
        (\<lambda>_ u. printed s ([c] @ r) u)"
      using False r "3.prems"(1) by (intro printed_run consputc_ok "3.IH"(1)) auto
    then show ?thesis using False r by simp
  next
    case True
    note pc = True
    consider (d) "d = CHR ''d''" | (x) "d = CHR ''x'' \<or> d = CHR ''p''" | (s) "d = CHR ''s''" |
      (percent) "d = CHR ''%''" |
      (other) "d \<noteq> CHR ''d'' \<and> d \<noteq> CHR ''x'' \<and> d \<noteq> CHR ''p'' \<and> d \<noteq> CHR ''s'' \<and> d \<noteq> CHR ''%''"
      by blast
    then show ?thesis
    proof cases
      case d
      then obtain n as r where r: "args = Word n # as" "format fmt as = Some r"
          "str = printint_buf n 10 True @ r"
        using "3.prems"(2) pc by (auto split: list.splits carg.splits)
      have "returns (run (put_string (printint_buf n 10 True) s) (\<lambda>_ t. cprintf_loop fmt as t))
          (\<lambda>_ u. printed s (printint_buf n 10 True @ r) u)"
        using pc d r "3.prems"(1) by (intro printed_run put_string_ok "3.IH") (auto simp: printint_def)
      then show ?thesis using pc d r by (simp add: printint_def)
    next
      case x
      then obtain n as r where r: "args = Word n # as" "format fmt as = Some r"
          "str = printint_buf n 16 False @ r"
        using "3.prems"(2) pc by (auto split: list.splits carg.splits)
      have "returns (run (put_string (printint_buf n 16 False) s) (\<lambda>_ t. cprintf_loop fmt as t))
          (\<lambda>_ u. printed s (printint_buf n 16 False @ r) u)"
        using pc x r "3.prems"(1) by (intro printed_run put_string_ok "3.IH") (auto simp: printint_def)
      then show ?thesis using pc x r by (auto simp: printint_def)
    next
      case s
      then obtain p as r where r: "args = Str p # as" "format fmt as = Some r"
          "str = (case p of None \<Rightarrow> ''(null)'' | Some q \<Rightarrow> q) @ r"
        using "3.prems"(2) pc by (auto split: list.splits carg.splits)
      have "returns (run (put_string (case p of None \<Rightarrow> ''(null)'' | Some q \<Rightarrow> q) s)
          (\<lambda>_ t. cprintf_loop fmt as t))
          (\<lambda>_ u. printed s ((case p of None \<Rightarrow> ''(null)'' | Some q \<Rightarrow> q) @ r) u)"
        using pc s r "3.prems"(1) by (intro printed_run put_string_ok "3.IH") auto
      then show ?thesis using pc s r by simp
    next
      case percent
      then obtain r where r: "format fmt args = Some r" "str = ''%'' @ r"
        using "3.prems"(2) pc by auto
      have "returns (run (consputc (of_char CHR ''%'') s) (\<lambda>_ t. cprintf_loop fmt args t))
          (\<lambda>_ u. printed s (''%'' @ r) u)"
        using pc percent r "3.prems"(1) by (intro printed_run consputc_ok "3.IH") auto
      then show ?thesis using pc percent r by simp
    next
      case other
      then obtain r where r: "format fmt args = Some r" "str = ''%'' @ [d] @ r"
        using "3.prems"(2) pc by auto
      have "returns (run (consputc (of_char CHR ''%'') s) (\<lambda>_ t.
          run (consputc (of_char d) t) (\<lambda>_ t. cprintf_loop fmt args t)))
          (\<lambda>_ u. printed s (''%'' @ [d] @ r) u)"
        using pc other r "3.prems"(1) by (intro printed_run consputc_ok "3.IH") auto
      then show ?thesis using pc other r by simp
    qed
  qed
qed

lemma same_balanced: "same_but_output s t \<Longrightarrow> balanced s t"
  by (simp add: same_but_output_def balanced_def machine.truncate_def machine.defs)

lemma console_fields_locked [simp]:
  "cons_ok (acquired l s) = cons_ok s" "cons_ok (released l s) = cons_ok s"
  "uart_out (acquired l s) = uart_out s" "uart_out (released l s) = uart_out s"
  "cons_locking (acquired l s) = cons_locking s" "cons_locking (released l s) = cons_locking s"
  "serial (acquired l s) = serial s" "serial (released l s) = serial s"
  by (simp_all add: cons_ok_def serial_def fun_eq_iff acquired_def released_def pushed_def popped_def upd_lock_def)

lemma machine_fields_locked [simp]:
  "mem (released l m) = mem m" "mem (acquired l m) = mem m"
  "machine.more (released l m) = machine.more m" "machine.more (acquired l m) = machine.more m"
  by (simp_all add: acquired_def released_def pushed_def popped_def upd_lock_def)

lemma same_but_output_mem: "same_but_output s t \<Longrightarrow> mem t = mem s"
  by (simp add: same_but_output_def machine.truncate_def machine.defs)

lemma console_more_locked [simp]:
  "console.more (released l s) = console.more s" "console.more (acquired l s) = console.more s"
  by (simp_all add: acquired_def released_def pushed_def popped_def upd_lock_def)

lemma cprintf_ok:
  assumes "cons_ok s" "cpu_inv s" "cons_locking s \<longrightarrow> locked (locks s ConsLock) = 0"
    and "format fmt args = Some str"
  shows "returns (cprintf fmt args s) (\<lambda>_ t. balanced s t \<and> cons_ok t \<and>
     uart_out t = uart_out s @ serial s str \<and> mem t = mem s \<and> cons_locking t = cons_locking s \<and>
     console.more t = console.more s)"
proof (cases "cons_locking s")
  case True
  then have free: "can_lock ConsLock s" using assms by (simp add: can_lock_def)
  have "returns (cprintf_loop fmt args (acquired ConsLock s)) (\<lambda>_ t. printed (acquired ConsLock s) str t)"
    using assms by (intro cprintf_loop_ok) auto
  then obtain t where t: "cprintf_loop fmt args (acquired ConsLock s) = Ok () t"
      "printed (acquired ConsLock s) str t"
    by (auto simp: returns_iff)
  have b: "balanced (acquired ConsLock s) t" using t(2) same_balanced by blast
  have "console.more t = console.more s" "cons_locking t = cons_locking s"
    using t(2) by (simp_all add: same_but_output_def)
  then show ?thesis
    using True t same_but_output_mem [of "acquired ConsLock s" t] release_balanced [OF free b]
    by (simp add: cprintf_def acquire_ok [OF free])
next
  case False
  have "returns (cprintf_loop fmt args s) (\<lambda>_ t. printed s str t)"
    using assms by (intro cprintf_loop_ok) auto
  then obtain t where t: "cprintf_loop fmt args s = Ok () t" "printed s str t"
    by (auto simp: returns_iff)
  have "balanced s t" "mem t = mem s" "console.more t = console.more s" "cons_locking t = cons_locking s"
    using t(2) same_balanced same_but_output_mem by (auto simp: same_but_output_def)
  then show ?thesis using False t by (simp add: cprintf_def)
qed

section \<open>Numbers read back\<close>

definition digit_val :: "char \<Rightarrow> nat" where
  "digit_val c = (case find_index (\<lambda>d. d = c) digits of Some i \<Rightarrow> i | None \<Rightarrow> 0)"

fun le_val :: "nat \<Rightarrow> string \<Rightarrow> nat" where
  "le_val base [] = 0"
| "le_val base (c # cs) = digit_val c + base * le_val base cs"

text \<open>A decimal numeral with an optional sign, as a reader takes it.\<close>

definition read_dec :: "string \<Rightarrow> int" where
  "read_dec str = (case str of
      [] \<Rightarrow> 0
    | c # ds \<Rightarrow> if c = CHR ''-'' then - int (le_val 10 (rev ds)) else int (le_val 10 (rev str)))"

lemma digit_val_nth: "k < 16 \<Longrightarrow> digit_val (digits ! k) = k"
proof -
  have "\<forall>k \<in> set [0..<16]. digit_val (digits ! k) = k"
    by code_simp
  then show "k < 16 \<Longrightarrow> digit_val (digits ! k) = k" by simp
qed

lemma digits_val: "2 \<le> base \<Longrightarrow> base \<le> 16 \<Longrightarrow> le_val base (digits_loop x base) = x"
proof (induction x base rule: digits_loop.induct)
  case (1 x base)
  have lt: "x mod base < 16" using mod_less_divisor [of base x] "1.prems" by linarith
  show ?case
  proof (cases "x div base = 0")
    case True
    have "x mod base = x" using True mult_div_mod_eq [of base x] by simp
    then show ?thesis using True lt by (subst digits_loop.simps) (simp add: digit_val_nth)
  next
    case False
    then have "le_val base (digits_loop (x div base) base) = x div base"
      using "1" by simp
    then show ?thesis using False lt "1.prems"
      by (subst digits_loop.simps) (simp add: digit_val_nth)
  qed
qed

lemma digits_loop_nonempty: "digits_loop x base \<noteq> []"
  by (subst digits_loop.simps) simp

lemma digits_loop_chars: "2 \<le> base \<Longrightarrow> base \<le> 16 \<Longrightarrow> set (digits_loop x base) \<subseteq> set digits"
proof (induction x base rule: digits_loop.induct)
  case (1 x base)
  have "x mod base < 16" using mod_less_divisor [of base x] "1.prems" by linarith
  then have "x mod base < length digits" by (simp add: digits_def)
  then have d: "digits ! (x mod base) \<in> set digits" by (rule nth_mem)
  show ?case
  proof (cases "x div base = 0")
    case True
    then show ?thesis using d by (subst digits_loop.simps) simp
  next
    case False
    then have "set (digits_loop (x div base) base) \<subseteq> set digits"
      using "1.IH" "1.prems" by (simp only: HOL.simp_thms not_False_eq_True)
    then show ?thesis using d False "1.prems" by (subst digits_loop.simps) simp
  qed
qed

lemma read_printint:
  assumes "int_range xx"
  shows "read_dec (printint_buf xx 10 True) = xx"
proof (cases "xx < 0")
  case True
  have "unat (word_of_int (- xx) :: u32) = nat (- xx)"
    using True assms by (intro unat_word_of_int) (simp_all add: int_range_def)
  then have "printint_buf xx 10 True = CHR ''-'' # rev (digits_loop (nat (- xx)) 10)"
    using True unfolding printint_buf_def Let_def by (simp only: simp_thms if_True) simp
  then show ?thesis using True by (simp add: read_dec_def digits_val)
next
  case False
  have u: "unat (word_of_int xx :: u32) = nat xx"
    using False assms by (intro unat_word_of_int) (simp_all add: int_range_def)
  let ?d = "digits_loop (nat xx) 10"
  obtain c cs where c: "rev ?d = c # cs" using digits_loop_nonempty [of "nat xx" 10] by (cases "rev ?d") auto
  have sub: "set ?d \<subseteq> set digits" by (rule digits_loop_chars) simp_all
  have "c \<in> set (rev ?d)" by (simp only: c list.set_intros)
  then have "c \<in> set digits" using sub by (simp only: set_rev) blast
  then have m: "c \<noteq> CHR ''-''" by (auto simp: digits_def)
  have "rev (c # cs) = ?d" using c by (metis rev_rev_ident)
  then have "le_val 10 (rev (c # cs)) = nat xx" using digits_val [of 10 "nat xx"] by simp
  then have "read_dec (c # cs) = xx" using m False by (simp add: read_dec_def del: rev.simps)
  then show ?thesis using False c u by (simp add: printint_buf_def)
qed

section \<open>Properties\<close>

definition console0 :: console where
  "console0 = machine.extend machine0 (console.fields 0 (\<lambda>_. 0) True [] False True)"

lemma console0_ok: "cons_ok console0" "cpu_inv console0" "locked (locks console0 l) = 0"
  by (simp_all add: cons_ok_def console0_def machine.extend_def console.fields_def machine0_def cpu_inv_def me_def)

text \<open>
  C12: \<open>cprintf\<close> on a working console returns with the locks balanced, the cursor still
  on the screen, and exactly the formatted text sent to the serial port.
\<close>

theorem cprintf_prints:
  assumes "cons_ok s" "cpu_inv s" "cons_locking s \<longrightarrow> locked (locks s ConsLock) = 0"
    and "format fmt args = Some str"
  shows "returns (cprintf fmt args s) (\<lambda>_ t. balanced s t \<and> cons_ok t \<and>
     uart_out t = uart_out s @ serial s str \<and> mem t = mem s)"
  by (rule returns_mono [OF cprintf_ok [OF assms]]) simp

theorem cprintf_prints_witness:
  "returns (cprintf ''ab%%'' [] console0) (\<lambda>_ t. balanced console0 t \<and> cons_ok t \<and>
     uart_out t = uart_out console0 @ serial console0 ''ab%'' \<and> mem t = mem console0)"
  by (rule cprintf_prints [OF console0_ok(1,2)]) (simp_all add: console0_ok)

text \<open>C13: a number printed in decimal by \<open>printint\<close> reads back as the same number.\<close>

theorem printint_roundtrip:
  assumes "int_range xx"
  shows "read_dec (printint_buf xx 10 True) = xx"
  using assms by (rule read_printint)

theorem printint_roundtrip_witness:
  "read_dec (printint_buf (- 2147483648) 10 True) = - 2147483648"
  by (rule printint_roundtrip) (simp add: int_range_def)

end
