(* ===== verification/Kalloc.thy ===== *)
theory Kalloc
  imports Console
begin

text \<open>
  The physical page allocator \<open>lab2/kalloc.c\<close>.  The free pages form a linked list
  threaded through the first word of each page; the model keeps that list in memory as
  the code does.  \<open>free_pages\<close> relates a state to the list of its free pages, and the
  locale \<open>page_allocator\<close> is the contract other components rely on.
\<close>

record kmem = console +
  use_lock :: bool
  freelist :: u32
  kend :: u32

section \<open>The code\<close>

definition kfree :: "u32 \<Rightarrow> 'z kmem_scheme \<Rightarrow> ('z kmem_scheme, unit) res" where
  "kfree v s =
     (if v mod PGSIZE \<noteq> 0 \<or> v < kend s \<or> V2P v \<ge> PHYSTOP then Panic ''kfree''
      else
        let s = s\<lparr>mem := memset v 1 PGSIZE (mem s)\<rparr> in
        run (if use_lock s then acquire KmemLock s else Ok () s) (\<lambda>_ s.
        let r = v;
            s = s\<lparr>mem := store32 r (freelist s) (mem s)\<rparr>;
            s = s\<lparr>freelist := r\<rparr> in
        if use_lock s then release KmemLock s else Ok () s))"

definition kalloc :: "'z kmem_scheme \<Rightarrow> ('z kmem_scheme, u32) res" where
  "kalloc s =
     run (if use_lock s then acquire KmemLock s else Ok () s) (\<lambda>_ s.
     let r = freelist s;
         s = (if r \<noteq> 0 then s\<lparr>freelist := load32 (mem s) r\<rparr> else s) in
     run (if use_lock s then release KmemLock s else Ok () s) (\<lambda>_ s. Ok r s))"

lemma kfree_Ok_page: "kfree v s = Ok u t \<Longrightarrow> v mod PGSIZE = 0 \<and> V2P v < PHYSTOP"
  by (auto simp: kfree_def split: if_splits)

text \<open>The loop ends because \<open>kfree\<close> accepts only page addresses below the top of memory.\<close>

lemma page_below_top:
  assumes "v mod PGSIZE = 0" "V2P v < PHYSTOP"
  shows "unat (0x8E000000 - (v + PGSIZE)) < unat (0x8E000000 - v)"
proof -
  let ?x = "0x8E000000 - v"
  have v: "?x = PHYSTOP - V2P v" by (simp add: V2P_def)
  then have pos: "?x \<noteq> 0" using assms(2) by auto
  have al: "aligned v" using assms(1) by (simp add: aligned_def)
  have "unat v \<le> unat (0x8E000000 :: u32)"
  proof -
    have "v = V2P v + KERNBASE" by (simp add: V2P_def)
    moreover have "V2P v + KERNBASE \<le> PHYSTOP + KERNBASE"
      using assms(2) by unat_arith
    ultimately show ?thesis by (simp add: word_le_nat_alt)
  qed
  then have u: "unat ?x = 2382364672 - unat v"
    by (simp add: unat_sub_if_size word_size)
  obtain k where k: "unat v = 4096 * k" using al by (rule aligned_mult)
  have "4096 \<le> unat ?x"
  proof -
    have "unat ?x \<noteq> 0" using pos by (simp add: unsigned_eq_0_iff)
    then show ?thesis using u k by auto
  qed
  then have "unat (?x - PGSIZE) = unat ?x - 4096"
    by (subst unat_sub) (simp_all add: word_le_nat_alt)
  moreover have "0x8E000000 - (v + PGSIZE) = ?x - PGSIZE" by simp
  ultimately show ?thesis using \<open>4096 \<le> unat ?x\<close> by simp
qed

function freerange_loop :: "u32 \<Rightarrow> u32 \<Rightarrow> 'z kmem_scheme \<Rightarrow> ('z kmem_scheme, unit) res" where
  "freerange_loop p vend s =
     (if p + PGSIZE \<le> vend then run (kfree p s) (\<lambda>_ s. freerange_loop (p + PGSIZE) vend s)
      else Ok () s)"
  by pat_completeness auto
termination
  by (relation "measure (\<lambda>(p, vend, s). unat (0x8E000000 - p))")
    (simp, simp only: in_measure prod.case, blast intro: page_below_top dest: kfree_Ok_page)

declare freerange_loop.simps [simp del]

definition freerange :: "u32 \<Rightarrow> u32 \<Rightarrow> 'z kmem_scheme \<Rightarrow> ('z kmem_scheme, unit) res" where
  "freerange vstart vend s = freerange_loop (PGROUNDUP vstart) vend s"

definition kinit1 :: "u32 \<Rightarrow> u32 \<Rightarrow> 'z kmem_scheme \<Rightarrow> ('z kmem_scheme, unit) res" where
  "kinit1 vstart vend s =
     (let s = initlock KmemLock ''kmem'' s; s = s\<lparr>use_lock := False\<rparr> in freerange vstart vend s)"

definition kinit2 :: "u32 \<Rightarrow> u32 \<Rightarrow> 'z kmem_scheme \<Rightarrow> ('z kmem_scheme, unit) res" where
  "kinit2 vstart vend s = run (freerange vstart vend s) (\<lambda>_ s. Ok () (s\<lparr>use_lock := True\<rparr>))"

section \<open>The list of free pages\<close>

definition page_ok :: "u32 \<Rightarrow> u32 \<Rightarrow> bool" where
  "page_ok e p \<longleftrightarrow> aligned p \<and> e \<le> p \<and> V2P p < PHYSTOP"

fun free_chain :: "memory \<Rightarrow> u32 \<Rightarrow> u32 list \<Rightarrow> bool" where
  "free_chain m p [] = (p = 0)"
| "free_chain m p (x # xs) = (p = x \<and> free_chain m (load32 m x) xs)"

text \<open>\<open>free_pages s ps\<close>: the allocator of state \<open>s\<close> is usable and its free pages are \<open>ps\<close>.\<close>

definition free_pages :: "'z kmem_scheme \<Rightarrow> u32 list \<Rightarrow> bool" where
  "free_pages s ps \<longleftrightarrow> cpu_inv s \<and> (use_lock s \<longrightarrow> locked (locks s KmemLock) = 0) \<and>
     free_chain (mem s) (freelist s) ps \<and> distinct ps \<and> (\<forall>p \<in> set ps. page_ok (kend s) p)"

lemma page_ok_nonzero: "page_ok e p \<Longrightarrow> p \<noteq> 0"
  by (auto simp: page_ok_def V2P_def)

lemma free_chain_unique: "free_chain m p xs \<Longrightarrow> 0 \<notin> set xs \<Longrightarrow> free_chain m p ys \<Longrightarrow> 0 \<notin> set ys \<Longrightarrow> xs = ys"
proof (induction xs arbitrary: p ys)
  case Nil
  then show ?case by (cases ys) auto
next
  case (Cons x xs)
  then show ?case by (cases ys) auto
qed

lemma free_pages_unique: "free_pages s ps \<Longrightarrow> free_pages s qs \<Longrightarrow> ps = qs"
  using free_chain_unique [of "mem s" "freelist s" ps qs]
  by (auto simp: free_pages_def dest: page_ok_nonzero)

lemma free_chain_frame:
  assumes "free_chain m p xs" "\<forall>x \<in> set xs. aligned x"
    and "\<And>x a. x \<in> set xs \<Longrightarrow> unat a div 4096 = unat x div 4096 \<Longrightarrow> m' a = m a"
  shows "free_chain m' p xs"
  using assms
proof (induction xs arbitrary: p)
  case Nil
  then show ?case by simp
next
  case (Cons x xs)
  have "load32 m' (x + of_nat 0) = load32 m (x + of_nat 0)"
    using Cons.prems by (intro load32_other_page) auto
  moreover have "free_chain m' (load32 m x) xs"
    using Cons.prems by (intro Cons.IH) auto
  ultimately show ?case using Cons.prems(1) by simp
qed

text \<open>Memory written by \<open>kfree\<close> lies in the freed page.\<close>

lemma freed_page_frame:
  assumes "aligned v" "unat a div 4096 \<noteq> unat v div 4096"
  shows "store32 v w (memset v 1 PGSIZE m) a = m a"
proof -
  have "\<not> in_range a v 4096" using assms by (simp add: in_page_iff)
  then have "4 \<le> a - v" and "memset v 1 PGSIZE m a = m a"
    by (auto simp: in_range_def memset_eq word_le_nat_alt)
  then show ?thesis by (simp add: store32_other)
qed

section \<open>What the operations do\<close>

lemma balanced_kmem_upd [simp]:
  "balanced s (t\<lparr>freelist := x\<rparr>) = balanced s t" "balanced s (t\<lparr>mem := y\<rparr>) = balanced s t"
  "balanced s (t\<lparr>use_lock := b\<rparr>) = balanced s t"
  "balanced (t\<lparr>mem := y\<rparr>) s = balanced t s"
  by (simp_all add: balanced_def)

lemma released_fields [simp]:
  "mem (released l s) = mem s"
  "freelist (released l t) = freelist t" "use_lock (released l t) = use_lock t" "kend (released l t) = kend t"
  by (simp_all add: released_def popped_def upd_lock_def)

lemma acquired_fields [simp]:
  "mem (acquired l s) = mem s"
  "freelist (acquired l t) = freelist t" "use_lock (acquired l t) = use_lock t" "kend (acquired l t) = kend t"
  by (simp_all add: acquired_def pushed_def upd_lock_def)

lemma can_lock_mem [simp]: "can_lock l (s\<lparr>mem := x\<rparr>) = can_lock l s"
  by (simp add: can_lock_def cpu_inv_def me_def)

lemma kalloc_returns:
  assumes "cpu_inv s" "use_lock s \<longrightarrow> locked (locks s KmemLock) = 0"
  shows "returns (kalloc s) (\<lambda>r t. r = freelist s \<and> balanced s t \<and> mem t = mem s \<and>
     freelist t = (if r = 0 then 0 else load32 (mem s) r) \<and> use_lock t = use_lock s \<and> kend t = kend s \<and>
     kmem.more t = kmem.more s)"
proof (cases "use_lock s")
  case True
  then have free: "can_lock KmemLock s" using assms by (simp add: can_lock_def)
  have b: "balanced (acquired KmemLock s) (acquired KmemLock s)" by simp
  have b': "balanced (acquired KmemLock s) ((acquired KmemLock s)\<lparr>freelist := x\<rparr>)" for x by simp
  show ?thesis
    using True release_balanced [OF free b] release_balanced [OF free b']
    by (auto simp: kalloc_def acquire_ok [OF free] Let_def released_def acquired_def popped_def
        pushed_def upd_lock_def)
next
  case False
  then show ?thesis by (simp add: kalloc_def Let_def)
qed

lemma kfree_returns:
  assumes "cpu_inv s" "use_lock s \<longrightarrow> locked (locks s KmemLock) = 0" "page_ok (kend s) v"
  shows "returns (kfree v s) (\<lambda>_ t. balanced s t \<and>
     mem t = store32 v (freelist s) (memset v 1 PGSIZE (mem s)) \<and>
     freelist t = v \<and> use_lock t = use_lock s \<and> kend t = kend s \<and> kmem.more t = kmem.more s)"
proof -
  have g: "\<not> (v mod PGSIZE \<noteq> 0 \<or> v < kend s \<or> V2P v \<ge> PHYSTOP)"
    using assms(3) by (auto simp: page_ok_def aligned_def)
  let ?s = "s\<lparr>mem := memset v 1 PGSIZE (mem s)\<rparr>"
  show ?thesis
  proof (cases "use_lock s")
    case True
    then have free: "can_lock KmemLock ?s" using assms by (simp add: can_lock_def cpu_inv_def me_def)
    have b: "balanced (acquired KmemLock ?s)
        ((acquired KmemLock ?s)\<lparr>mem := x, freelist := y\<rparr>)" for x y by simp
    show ?thesis
      using True g release_balanced [OF free b]
      by (auto simp: kfree_def acquire_ok [OF free] Let_def)
        (auto simp: released_def acquired_def popped_def pushed_def upd_lock_def)
  next
    case False
    then show ?thesis using g by (auto simp: kfree_def Let_def)
  qed
qed

lemma free_pages_usable: "free_pages s ps \<Longrightarrow> cpu_inv s \<and> (use_lock s \<longrightarrow> locked (locks s KmemLock) = 0)"
  by (simp add: free_pages_def)

lemma usable_balanced:
  assumes "cpu_inv s" "use_lock s \<longrightarrow> locked (locks s KmemLock) = 0" "balanced s t" "use_lock t = use_lock s"
  shows "cpu_inv t" and "use_lock t \<longrightarrow> locked (locks t KmemLock) = 0"
  using assms cpu_inv_balanced [OF assms(3)] by (simp_all add: locked_holder balanced_def)

lemma kalloc_pages:
  assumes "free_pages s ps"
  shows "returns (kalloc s) (\<lambda>r t. balanced s t \<and> mem t = mem s \<and> kmem.more t = kmem.more s \<and>
     (case ps of [] \<Rightarrow> r = 0 \<and> free_pages t []
        | p # qs \<Rightarrow> r = p \<and> p \<noteq> 0 \<and> free_pages t qs))"
proof (rule returns_mono [OF kalloc_returns])
  show u: "cpu_inv s" "use_lock s \<longrightarrow> locked (locks s KmemLock) = 0"
    using assms by (simp_all add: free_pages_def)
  fix r t
  assume t: "r = freelist s \<and> balanced s t \<and> mem t = mem s \<and>
     freelist t = (if r = 0 then 0 else load32 (mem s) r) \<and> use_lock t = use_lock s \<and> kend t = kend s \<and>
     kmem.more t = kmem.more s"
  have ut: "cpu_inv t" "use_lock t \<longrightarrow> locked (locks t KmemLock) = 0"
    using usable_balanced [of s t] u t by auto
  show "balanced s t \<and> mem t = mem s \<and> kmem.more t = kmem.more s \<and>
     (case ps of [] \<Rightarrow> r = 0 \<and> free_pages t []
        | p # qs \<Rightarrow> r = p \<and> p \<noteq> 0 \<and> free_pages t qs)"
    using t ut assms by (cases ps) (auto simp: free_pages_def dest: page_ok_nonzero)
qed

lemma kfree_pages:
  assumes "free_pages s ps" "page_ok (kend s) v" "v \<notin> set ps"
  shows "returns (kfree v s) (\<lambda>_ t. balanced s t \<and> free_pages t (v # ps) \<and> kend t = kend s \<and>
     kmem.more t = kmem.more s \<and> (\<forall>a :: u32. unat a div 4096 \<noteq> unat v div 4096 \<longrightarrow> mem t a = mem s a))"
proof (rule returns_mono [OF kfree_returns])
  show u: "cpu_inv s" "use_lock s \<longrightarrow> locked (locks s KmemLock) = 0"
    using assms by (simp_all add: free_pages_def)
  show "page_ok (kend s) v" by (rule assms(2))
  fix r t
  assume t: "balanced s t \<and> mem t = store32 v (freelist s) (memset v 1 PGSIZE (mem s)) \<and>
     freelist t = v \<and> use_lock t = use_lock s \<and> kend t = kend s \<and> kmem.more t = kmem.more s"
  have ut: "cpu_inv t" "use_lock t \<longrightarrow> locked (locks t KmemLock) = 0"
    using usable_balanced [of s t] u t by auto
  have al: "aligned v" using assms(2) by (simp add: page_ok_def)
  have frame: "mem t a = mem s a" if "unat a div 4096 \<noteq> unat v div 4096" for a :: u32
    using t freed_page_frame [OF al that] by simp
  have als: "\<forall>p \<in> set ps. aligned p" using assms(1) by (auto simp: free_pages_def page_ok_def)
  have "free_chain (mem t) (freelist s) ps"
  proof (rule free_chain_frame [OF _ als])
    show "free_chain (mem s) (freelist s) ps" using assms(1) by (simp add: free_pages_def)
    fix x a :: u32 assume x: "x \<in> set ps" "unat a div 4096 = unat x div 4096"
    have "x \<noteq> v" using x assms(3) by auto
    then have "unat x div 4096 \<noteq> unat v div 4096" using aligned_div_inj [of x v] als al x by auto
    then show "mem t a = mem s a" using frame x by simp
  qed
  then have "free_pages t (v # ps)"
    using t ut assms by (auto simp: free_pages_def)
  then show "balanced s t \<and> free_pages t (v # ps) \<and> kend t = kend s \<and> kmem.more t = kmem.more s \<and>
     (\<forall>a :: u32. unat a div 4096 \<noteq> unat v div 4096 \<longrightarrow> mem t a = mem s a)"
    using t frame by simp
qed

text \<open>A page in use may be written without disturbing the free list.\<close>

lemma free_pages_frame:
  assumes "free_pages s ps" "aligned k" "k \<notin> set ps" "only_page k (mem s) (mem t)"
    and "balanced s t" "use_lock t = use_lock s" "freelist t = freelist s" "kend t = kend s"
  shows "free_pages t ps"
proof -
  have u: "cpu_inv t" "use_lock t \<longrightarrow> locked (locks t KmemLock) = 0"
    using usable_balanced [of s t] assms(1,5,6) by (auto simp: free_pages_def)
  have als: "\<forall>p \<in> set ps. aligned p" using assms(1) by (auto simp: free_pages_def page_ok_def)
  have "free_chain (mem t) (freelist s) ps"
  proof (rule free_chain_frame [OF _ als])
    show "free_chain (mem s) (freelist s) ps" using assms(1) by (simp add: free_pages_def)
    fix x a :: u32 assume x: "x \<in> set ps" "unat a div 4096 = unat x div 4096"
    have "x \<noteq> k" using x assms(3) by auto
    then have "unat x div 4096 \<noteq> unat k div 4096" using aligned_div_inj [of x k] als assms(2) x by auto
    then show "mem t a = mem s a" using assms(4) x by (simp add: only_page_def)
  qed
  then show ?thesis using assms u by (simp add: free_pages_def)
qed

section \<open>The interface to the rest of the kernel\<close>

text \<open>Repeated allocation, stopping at the first failure.\<close>

fun alloc_many :: "('s \<Rightarrow> ('s, u32) res) \<Rightarrow> nat \<Rightarrow> 's \<Rightarrow> ('s, u32 list) res" where
  "alloc_many al 0 s = Ok [] s"
| "alloc_many al (Suc n) s =
     run (al s) (\<lambda>p s. if p = 0 then Ok [] s else run (alloc_many al n s) (\<lambda>ps s. Ok (p # ps) s))"

locale page_allocator =
  fixes alloc :: "'s \<Rightarrow> ('s, u32) res"
    and free :: "u32 \<Rightarrow> 's \<Rightarrow> ('s, unit) res"
    and avail :: "'s \<Rightarrow> u32 list \<Rightarrow> bool"
    and valid :: "'s \<Rightarrow> u32 \<Rightarrow> bool"
  assumes alloc_page: "avail s (p # ps) \<Longrightarrow>
      returns (alloc s) (\<lambda>r t. r = p \<and> avail t ps \<and> valid t = valid s)"
    and alloc_empty: "avail s [] \<Longrightarrow> returns (alloc s) (\<lambda>r t. r = 0 \<and> avail t [])"
    and free_page: "avail s ps \<Longrightarrow> valid s p \<Longrightarrow> p \<notin> set ps \<Longrightarrow>
      returns (free p s) (\<lambda>_ t. avail t (p # ps) \<and> valid t = valid s)"
    and avail_distinct: "avail s ps \<Longrightarrow> distinct ps"
    and avail_valid: "avail s ps \<Longrightarrow> p \<in> set ps \<Longrightarrow> valid s p"
    and valid_nonzero: "valid s p \<Longrightarrow> p \<noteq> 0"
begin

lemma alloc_then_free:
  assumes "avail s (p # ps)"
  shows "returns (run (alloc s) (\<lambda>r t. free r t)) (\<lambda>_ t. avail t (p # ps))"
  unfolding returns_run
proof (rule returns_mono [OF alloc_page [OF assms]])
  fix r t assume t: "r = p \<and> avail t ps \<and> valid t = valid s"
  have "valid s p" using avail_valid [OF assms] by simp
  moreover have "p \<notin> set ps" using avail_distinct [OF assms] by simp
  ultimately have "returns (free p t) (\<lambda>_ t'. avail t' (p # ps) \<and> valid t' = valid t)"
    using t by (intro free_page) auto
  then show "returns (free r t) (\<lambda>_ t. avail t (p # ps))"
    using t by (auto elim: returns_mono)
qed

lemma alloc_many_pages:
  assumes "avail s ps"
  shows "returns (alloc_many alloc n s) (\<lambda>rs t. rs = take n ps \<and> avail t (drop n ps))"
  using assms
proof (induction n arbitrary: s ps)
  case 0
  then show ?case by simp
next
  case (Suc n)
  show ?case
  proof (cases ps)
    case Nil
    then show ?thesis
      using Suc.prems alloc_empty [of s] by (auto simp: returns_run elim!: returns_mono)
  next
    case (Cons p qs)
    have nz: "p \<noteq> 0" using valid_nonzero [OF avail_valid [OF Suc.prems, of p]] Cons by simp
    have av: "avail s (p # qs)" using Suc.prems Cons by simp
    show ?thesis
      unfolding alloc_many.simps returns_run
    proof (rule returns_mono [OF alloc_page [OF av]])
      fix r t assume t: "r = p \<and> avail t qs \<and> valid t = valid s"
      then have "returns (alloc_many alloc n t) (\<lambda>rs t. rs = take n qs \<and> avail t (drop n qs))"
        by (intro Suc.IH) simp
      then show "returns (if r = 0 then Ok [] t
            else run (alloc_many alloc n t) (\<lambda>ps s. Ok (r # ps) s))
          (\<lambda>rs t. rs = take (Suc n) ps \<and> avail t (drop (Suc n) ps))"
        using t nz Cons by (auto simp: returns_run elim!: returns_mono)
    qed
  qed
qed

end

lemma kalloc_valid:
  assumes "free_pages s (p # ps)"
  shows "returns (kalloc s) (\<lambda>r t. r = p \<and> free_pages t ps \<and> page_ok (kend t) = page_ok (kend s))"
proof -
  have k: "returns (kalloc s) (\<lambda>r t. kend t = kend s)"
    using kalloc_returns [of s] assms by (auto simp: free_pages_def elim!: returns_mono)
  show ?thesis
    using k kalloc_pages [OF assms] by (cases "kalloc s") auto
qed

interpretation ka: page_allocator kalloc kfree free_pages "\<lambda>s. page_ok (kend s)"
proof unfold_locales
  fix s :: "'z kmem_scheme" and p ps
  show "free_pages s (p # ps) \<Longrightarrow>
      returns (kalloc s) (\<lambda>r t. r = p \<and> free_pages t ps \<and> page_ok (kend t) = page_ok (kend s))"
    by (rule kalloc_valid)
  show "free_pages s [] \<Longrightarrow> returns (kalloc s) (\<lambda>r t. r = 0 \<and> free_pages t [])"
    using kalloc_pages [of s "[]"] by (auto elim: returns_mono)
  show "free_pages s ps \<Longrightarrow> page_ok (kend s) p \<Longrightarrow> p \<notin> set ps \<Longrightarrow>
      returns (kfree p s) (\<lambda>_ t. free_pages t (p # ps) \<and> page_ok (kend t) = page_ok (kend s))"
    using kfree_pages [of s ps p] by (auto elim!: returns_mono)
  show "free_pages s ps \<Longrightarrow> distinct ps" by (simp add: free_pages_def)
  show "free_pages s ps \<Longrightarrow> p \<in> set ps \<Longrightarrow> page_ok (kend s) p" by (simp add: free_pages_def)
  show "page_ok (kend s) p \<Longrightarrow> p \<noteq> 0" by (rule page_ok_nonzero)
qed

section \<open>Initialisation\<close>

definition page_seq :: "u32 \<Rightarrow> nat \<Rightarrow> u32 list" where
  "page_seq p n = map (\<lambda>i. p + of_nat (4096 * i)) [0..<n]"

lemma page_seq_Suc: "page_seq p (Suc n) = p # page_seq (p + PGSIZE) n"
  by (simp add: page_seq_def upt_conv_Cons map_Suc_upt [symmetric] algebra_simps del: upt_Suc)

lemma freerange_loop_pages:
  assumes "free_pages s ps" "unat p + 4096 * n \<le> unat vend" "unat vend < unat p + 4096 * n + 4096"
    and "unat vend + 4096 < 2 ^ 32"
    and "\<forall>q \<in> set (page_seq p n). page_ok (kend s) q" "distinct (page_seq p n @ ps)"
  shows "returns (freerange_loop p vend s)
     (\<lambda>_ t. balanced s t \<and> free_pages t (rev (page_seq p n) @ ps) \<and> kend t = kend s)"
  using assms
proof (induction n arbitrary: p s ps)
  case 0
  have "unat (p + of_nat 4096) = unat p + 4096" using "0.prems" by (intro unat_plus_small) simp
  then have "\<not> p + PGSIZE \<le> vend" using "0.prems"(3) by (simp add: word_le_nat_alt)
  then show ?case using "0.prems" by (subst freerange_loop.simps) (simp add: page_seq_def)
next
  case (Suc n)
  have up: "unat (p + PGSIZE) = unat p + 4096"
    using unat_plus_small [of p 4096] Suc.prems(2,4) by simp
  have le: "p + PGSIZE \<le> vend" using up Suc.prems(2) by (simp add: word_le_nat_alt)
  have ok: "page_ok (kend s) p" "p \<notin> set ps"
    using Suc.prems(5,6) by (simp_all add: page_seq_Suc)
  show ?case
    unfolding freerange_loop.simps [of p] if_P [OF le] returns_run
  proof (rule returns_mono [OF kfree_pages [OF Suc.prems(1) ok]])
    fix u t
    assume t: "balanced s t \<and> free_pages t (p # ps) \<and> kend t = kend s \<and> kmem.more t = kmem.more s \<and>
      (\<forall>a :: u32. unat a div 4096 \<noteq> unat p div 4096 \<longrightarrow> mem t a = mem s a)"
    have "returns (freerange_loop (p + PGSIZE) vend t) (\<lambda>_ t'. balanced t t' \<and>
        free_pages t' (rev (page_seq (p + PGSIZE) n) @ p # ps) \<and> kend t' = kend t)"
      using Suc.prems t up by (intro Suc.IH) (auto simp: page_seq_Suc)
    then show "returns (freerange_loop (p + PGSIZE) vend t) (\<lambda>_ t'. balanced s t' \<and>
        free_pages t' (rev (page_seq p (Suc n)) @ ps) \<and> kend t' = kend s)"
      using t by (auto simp: page_seq_Suc elim!: returns_mono intro: balanced_trans)
  qed
qed

section \<open>Properties\<close>

text \<open>A machine whose allocator has two free pages.\<close>

definition kmem0 :: kmem where
  "kmem0 = (console.extend console0 (kmem.fields True 0x80400000 0x80200000))
     \<lparr>mem := store32 0x80400000 0x80401000 (\<lambda>_. 0)\<rparr>"

lemma kmem0_fields:
  "mem kmem0 = store32 0x80400000 0x80401000 (\<lambda>_. 0)" "freelist kmem0 = 0x80400000"
  "use_lock kmem0" "kend kmem0 = 0x80200000" "locked (locks kmem0 l) = 0" "cpu_inv kmem0"
  by (simp_all add: kmem0_def console0_def machine0_def machine.extend_def console.extend_def
      console.fields_def kmem.fields_def cpu_inv_def me_def)

lemma kmem0_pages: "free_pages kmem0 [0x80400000, 0x80401000]"
proof -
  have a: "load32 (store32 0x80400000 0x80401000 (\<lambda>_. 0)) 0x80401000 = 0"
    by (simp add: load32_def store32_def)
  show ?thesis
    by (simp add: free_pages_def kmem0_fields a page_ok_def aligned_def V2P_def)
qed

text \<open>
  C6: the allocator never hands out a page twice.  Any number of allocations returns
  the first pages of the free list in order, all different and all valid page addresses,
  stopping only when the list is exhausted; the rest stays free.
\<close>

theorem kalloc_distinct:
  assumes "free_pages s ps"
  shows "returns (alloc_many kalloc n s) (\<lambda>rs t. rs = take n ps \<and> distinct rs \<and>
     (\<forall>r \<in> set rs. page_ok (kend s) r) \<and> free_pages t (drop n ps))"
proof (rule returns_mono [OF ka.alloc_many_pages [OF assms]])
  fix rs t assume r: "rs = take n ps \<and> free_pages t (drop n ps)"
  have "distinct (take n ps)" using ka.avail_distinct [OF assms] by (rule distinct_take)
  moreover have "\<forall>r \<in> set (take n ps). page_ok (kend s) r"
    using ka.avail_valid [OF assms] in_set_takeD by fast
  ultimately show "rs = take n ps \<and> distinct rs \<and> (\<forall>r \<in> set rs. page_ok (kend s) r) \<and>
      free_pages t (drop n ps)"
    using r by simp
qed

theorem kalloc_distinct_witness:
  "returns (alloc_many kalloc 3 kmem0) (\<lambda>rs t. rs = [0x80400000, 0x80401000] \<and> free_pages t [])"
  by (rule returns_mono [OF kalloc_distinct [OF kmem0_pages]]) simp

text \<open>
  C7: freeing a page that is not free puts it at the head of the free list, fills it, and
  changes no byte of any other page; an address that is not a page of the managed range
  makes \<open>kfree\<close> panic.
\<close>

theorem kfree_correct:
  assumes "free_pages s ps" "v \<notin> set ps"
  shows "(page_ok (kend s) v \<longrightarrow> returns (kfree v s) (\<lambda>_ t. balanced s t \<and> free_pages t (v # ps) \<and>
        (\<forall>a :: u32. unat a div 4096 \<noteq> unat v div 4096 \<longrightarrow> mem t a = mem s a))) \<and>
     (\<not> page_ok (kend s) v \<longrightarrow> kfree v s = Panic ''kfree'')"
proof (intro conjI impI)
  assume "page_ok (kend s) v"
  from kfree_pages [OF assms(1) this assms(2)]
  show "returns (kfree v s) (\<lambda>_ t. balanced s t \<and> free_pages t (v # ps) \<and>
      (\<forall>a :: u32. unat a div 4096 \<noteq> unat v div 4096 \<longrightarrow> mem t a = mem s a))"
    by (auto elim!: returns_mono)
next
  assume "\<not> page_ok (kend s) v"
  then show "kfree v s = Panic ''kfree''"
    by (auto simp: kfree_def page_ok_def aligned_def not_le not_less)
qed

theorem kfree_correct_witness:
  "returns (kfree 0x80402000 kmem0) (\<lambda>_ t. balanced kmem0 t \<and>
      free_pages t [0x80402000, 0x80400000, 0x80401000]) \<and>
   kfree 0x80402004 kmem0 = Panic ''kfree''"
  using kfree_correct [where v = "0x80402000", OF kmem0_pages] kfree_correct [where v = "0x80402004", OF kmem0_pages]
  by (auto simp: kmem0_fields page_ok_def aligned_def V2P_def elim!: returns_mono)

end
