(* ===== verification/Proc.thy ===== *)
theory Proc
  imports Kalloc
begin

text \<open>
  The process table, \<open>lab2/proc.c\<close> and \<open>lab2/proc.h\<close>: allocation of a slot,
  priorities and tickets, sleep and wakeup, kill, yield and the entry into the scheduler.
  Processes are named by their slot.  \<open>swtch\<close> is the outcome \<open>Switch\<close>, and what a
  routine does when it is scheduled again is a definition of its own; \<open>ctx_esp\<close> is the
  address of the register frame that \<open>swtch\<close> pushes on the current kernel stack and
  stores as the context of the process that leaves.
\<close>

section \<open>Data\<close>

datatype procstate = UNUSED | EMBRYO | SLEEPING | RUNNABLE | RUNNING | ZOMBIE

record proc =
  sz :: u32
  pgdir :: u32
  kstack :: u32
  pstate :: procstate
  pid :: int
  parent :: "nat option"
  tf :: u32
  pcontext :: u32
  chan :: "chan option"
  killed :: bool
  ofile :: "nat option list"
  cwd :: "nat option"
  pname :: string
  priority :: int
  budget :: int
  num_tickets :: int
  num_scheduled :: int
  pticks :: int

record ptable = kmem +
  procs :: "proc list"
  PromoteAtTime :: u32
  initproc :: "nat option"
  nextpid :: int
  ticks :: u32
  forkret_addr :: u32
  trapret_addr :: u32
  ctx_esp :: u32

record pstat =
  ps_inuse :: "int list"
  ps_tickets :: "int list"
  ps_pid :: "int list"
  ps_ticks :: "int list"

abbreviation (input) NPROC :: nat where
  "NPROC \<equiv> 64"

abbreviation (input) KSTACKSIZE :: u32 where
  "KSTACKSIZE \<equiv> 4096"

abbreviation (input) DEFAULT_BUDGET :: int where
  "DEFAULT_BUDGET \<equiv> 5"

abbreviation (input) MAXPRIORITY :: int where
  "MAXPRIORITY \<equiv> 2"

definition TICKS_TO_PROMOTE :: u32 where
  "TICKS_TO_PROMOTE = 50"

definition upd_proc :: "nat \<Rightarrow> (proc \<Rightarrow> proc) \<Rightarrow> 'z ptable_scheme \<Rightarrow> 'z ptable_scheme" where
  "upd_proc i f s = s\<lparr>procs := (procs s)[i := f (procs s ! i)]\<rparr>"

text \<open>
  A null process pointer is only ever read while no process runs on the processor; the
  kernel page table then maps nothing at address zero, and the fault ends in \<open>trap\<close>.
\<close>

definition nonnull :: "nat option \<Rightarrow> 's \<Rightarrow> ('s, nat) res" where
  "nonnull p s = (case p of None \<Rightarrow> Panic ''trap'' | Some i \<Rightarrow> Ok i s)"

section \<open>Priorities and tickets\<close>

definition setpriority :: "int \<Rightarrow> int \<Rightarrow> 'z ptable_scheme \<Rightarrow> ('z ptable_scheme, int) res" where
  "setpriority p prio s =
     run (acquire PtableLock s) (\<lambda>_ s.
     if prio < 0 \<or> prio > MAXPRIORITY then Ok (-1) s
     else case find_index (\<lambda>q. pid q = p) (procs s) of
         Some i \<Rightarrow>
           let s = upd_proc i (\<lambda>q. q\<lparr>priority := prio, budget := DEFAULT_BUDGET\<rparr>) s in
           run (release PtableLock s) (\<lambda>_ s. Ok 0 s)
       | None \<Rightarrow> run (release PtableLock s) (\<lambda>_ s. Ok (-1) s))"

definition getpriority :: "int \<Rightarrow> 'z ptable_scheme \<Rightarrow> ('z ptable_scheme, int) res" where
  "getpriority p s =
     run (acquire PtableLock s) (\<lambda>_ s.
     case find_index (\<lambda>q. pid q = p \<and> pstate q \<noteq> UNUSED) (procs s) of
       Some i \<Rightarrow> run (release PtableLock s) (\<lambda>_ s. Ok (priority (procs s ! i)) s)
     | None \<Rightarrow> run (release PtableLock s) (\<lambda>_ s. Ok (-1) s))"

definition pinit :: "'z ptable_scheme \<Rightarrow> 'z ptable_scheme" where
  "pinit s = initlock PtableLock ''ptable'' s"

definition settickets :: "int \<Rightarrow> 'z ptable_scheme \<Rightarrow> ('z ptable_scheme, int) res" where
  "settickets number s =
     (if number < 1 then Ok (-1) s
      else run (myproc s) (\<lambda>p s.
           run (nonnull p s) (\<lambda>i s.
           Ok 0 (upd_proc i (\<lambda>q. q\<lparr>num_tickets := number\<rparr>) s))))"

section \<open>Allocation of a slot\<close>

text \<open>
  A trap frame takes 76 bytes and a context 20, with \<open>eip\<close> as the last word of the
  context.
\<close>

definition allocproc :: "'z ptable_scheme \<Rightarrow> ('z ptable_scheme, nat option) res" where
  "allocproc s =
     run (acquire PtableLock s) (\<lambda>_ s.
     case find_index (\<lambda>p. pstate p = UNUSED) (procs s) of
       None \<Rightarrow> run (release PtableLock s) (\<lambda>_ s. Ok None s)
     | Some i \<Rightarrow>
         let s = upd_proc i (\<lambda>p. p\<lparr>pstate := EMBRYO, budget := DEFAULT_BUDGET, priority := MAXPRIORITY,
                   num_tickets := 1, num_scheduled := 0, pid := nextpid s\<rparr>) s;
             s = s\<lparr>nextpid := c_int (nextpid s + 1)\<rparr> in
         run (release PtableLock s) (\<lambda>_ s.
         run (kalloc s) (\<lambda>k s.
         let s = upd_proc i (\<lambda>p. p\<lparr>kstack := k\<rparr>) s in
         if k = 0 then Ok None (upd_proc i (\<lambda>p. p\<lparr>pstate := UNUSED\<rparr>) s)
         else
           let sp = k + KSTACKSIZE;
               sp = sp - 76;
               s = upd_proc i (\<lambda>p. p\<lparr>tf := sp\<rparr>) s;
               sp = sp - 4;
               s = s\<lparr>mem := store32 sp (trapret_addr s) (mem s)\<rparr>;
               sp = sp - 20;
               s = upd_proc i (\<lambda>p. p\<lparr>pcontext := sp\<rparr>) s;
               s = s\<lparr>mem := memset sp 0 20 (mem s)\<rparr>;
               s = s\<lparr>mem := store32 (sp + 16) (forkret_addr s) (mem s)\<rparr>
           in Ok (Some i) s)))"

section \<open>Sleeping and waking\<close>

definition wakeup1 :: "chan option \<Rightarrow> 'z ptable_scheme \<Rightarrow> 'z ptable_scheme" where
  "wakeup1 ch s = s\<lparr>procs := map (\<lambda>p. if pstate p = SLEEPING \<and> chan p = ch
       then p\<lparr>pstate := RUNNABLE\<rparr> else p) (procs s)\<rparr>"

definition wakeup_code :: "chan option \<Rightarrow> 'z ptable_scheme sections" where
  "wakeup_code ch = [acquire PtableLock, \<lambda>s. Ok () (wakeup1 ch s), release PtableLock]"

definition wakeup :: "chan option \<Rightarrow> 'z ptable_scheme \<Rightarrow> ('z ptable_scheme, unit) res" where
  "wakeup ch s = seq (wakeup_code ch) s"

definition sched :: "'z ptable_scheme \<Rightarrow> ('z ptable_scheme, unit) res" where
  "sched s =
     run (myproc s) (\<lambda>p s.
     run (holding PtableLock s) (\<lambda>h s.
     if \<not> h then Panic ''sched ptable.lock''
     else run (mycpu s) (\<lambda>c s.
       if ncli (cpus s ! c) \<noteq> 1 then Panic ''sched locks''
       else run (nonnull p s) (\<lambda>i s.
         if pstate (procs s ! i) = RUNNING then Panic ''sched running''
         else if intr s then Panic ''sched interruptible''
         else Switch (upd_proc i (\<lambda>q. q\<lparr>pcontext := ctx_esp s\<rparr>) s)))))"

text \<open>
  When the scheduler switches back, \<open>sched\<close> restores the interrupt state that it saved
  in a local variable before the switch.
\<close>

definition sched_resume :: "bool \<Rightarrow> 'z ptable_scheme \<Rightarrow> ('z ptable_scheme, unit) res" where
  "sched_resume saved s = run (mycpu s) (\<lambda>c s. Ok () (upd_cpu c (\<lambda>k. k\<lparr>intena := saved\<rparr>) s))"

definition yield :: "'z ptable_scheme \<Rightarrow> ('z ptable_scheme, unit) res" where
  "yield s =
     run (acquire PtableLock s) (\<lambda>_ s.
     run (myproc s) (\<lambda>p s.
     run (nonnull p s) (\<lambda>i s.
     let s = upd_proc i (\<lambda>q. q\<lparr>pstate := RUNNABLE\<rparr>) s in
     run (sched s) (\<lambda>_ s.
     release PtableLock s))))"

definition yield_resume :: "bool \<Rightarrow> 'z ptable_scheme \<Rightarrow> ('z ptable_scheme, unit) res" where
  "yield_resume saved s = run (sched_resume saved s) (\<lambda>_ s. release PtableLock s)"

text \<open>
  The sections of \<open>sleep\<close> up to the switch: between any two of them another processor may take
  a step.
\<close>

definition sleep_code :: "chan option \<Rightarrow> lockid \<Rightarrow> nat \<Rightarrow> 'z ptable_scheme sections" where
  "sleep_code ch l i =
     (if l \<noteq> PtableLock then [acquire PtableLock, release l] else []) @
     [\<lambda>s. Ok () (upd_proc i (\<lambda>q. q\<lparr>chan := ch\<rparr>) s),
      \<lambda>s. Ok () (upd_proc i (\<lambda>q. q\<lparr>pstate := SLEEPING\<rparr>) s),
      sched]"

definition sleep :: "chan option \<Rightarrow> lockid option \<Rightarrow> 'z ptable_scheme \<Rightarrow> ('z ptable_scheme, unit) res" where
  "sleep ch lk s =
     run (myproc s) (\<lambda>p s.
     case p of None \<Rightarrow> Panic ''sleep''
     | Some i \<Rightarrow>
       (case lk of None \<Rightarrow> Panic ''sleep without lk''
        | Some l \<Rightarrow>
          run (seq (sleep_code ch l i) s) (\<lambda>_ s.
          let s = upd_proc i (\<lambda>q. q\<lparr>chan := None\<rparr>) s in
          if l \<noteq> PtableLock then run (release PtableLock s) (\<lambda>_ s. acquire l s) else Ok () s)))"

definition sleep_resume :: "nat \<Rightarrow> lockid \<Rightarrow> bool \<Rightarrow> 'z ptable_scheme \<Rightarrow> ('z ptable_scheme, unit) res" where
  "sleep_resume i l saved s =
     run (sched_resume saved s) (\<lambda>_ s.
     let s = upd_proc i (\<lambda>q. q\<lparr>chan := None\<rparr>) s in
     if l \<noteq> PtableLock then run (release PtableLock s) (\<lambda>_ s. acquire l s) else Ok () s)"

definition kill :: "int \<Rightarrow> 'z ptable_scheme \<Rightarrow> ('z ptable_scheme, int) res" where
  "kill p s =
     run (acquire PtableLock s) (\<lambda>_ s.
     case find_index (\<lambda>q. pid q = p) (procs s) of
       Some i \<Rightarrow>
         let s = upd_proc i (\<lambda>q. q\<lparr>killed := True\<rparr>) s;
             s = (if pstate (procs s ! i) = SLEEPING
                  then upd_proc i (\<lambda>q. q\<lparr>pstate := RUNNABLE\<rparr>) s else s) in
         run (release PtableLock s) (\<lambda>_ s. Ok 0 s)
     | None \<Rightarrow> run (release PtableLock s) (\<lambda>_ s. Ok (-1) s))"

section \<open>Reports\<close>

definition getpinfo_fill :: "proc list \<Rightarrow> pstat" where
  "getpinfo_fill ps = \<lparr>ps_inuse = map (\<lambda>p. if pstate p \<noteq> UNUSED then 1 else 0) ps,
     ps_tickets = map num_tickets ps, ps_pid = map pid ps, ps_ticks = map pticks ps\<rparr>"

definition getpinfo_line :: "pstat \<Rightarrow> nat \<Rightarrow> 'z ptable_scheme \<Rightarrow> ('z ptable_scheme, unit) res" where
  "getpinfo_line info i s =
     (if ps_inuse info ! i \<noteq> 0 \<or> ps_ticks info ! i \<noteq> 0 \<or> ps_tickets info ! i \<noteq> 0 \<or> ps_pid info ! i \<noteq> 0
      then cprintf ([CHR 0x0A] @ '' %d) Name: %s, PID: %d, Tickets: %d, Ticks: %d, Inuse: %d'' @ [CHR 0x0A])
        [Word (int i), Str (Some (pname (procs s ! i))), Word (ps_pid info ! i), Word (ps_tickets info ! i),
         Word (ps_ticks info ! i), Word (ps_inuse info ! i)] s
      else Ok () s)"

definition getpinfo :: "'z ptable_scheme \<Rightarrow> ('z ptable_scheme, pstat \<times> int) res" where
  "getpinfo s =
     run (acquire PtableLock s) (\<lambda>_ s.
     let info = getpinfo_fill (procs s) in
     run (release PtableLock s) (\<lambda>_ s.
     run (acquire PtableLock s) (\<lambda>_ s.
     run (for_each [0..<NPROC] (getpinfo_line info) s) (\<lambda>_ s.
     run (release PtableLock s) (\<lambda>_ s. Ok (info, 0) s)))))"

definition state_name :: "procstate \<Rightarrow> string" where
  "state_name st = (case st of UNUSED \<Rightarrow> ''unused'' | EMBRYO \<Rightarrow> ''embryo'' | SLEEPING \<Rightarrow> ''sleep ''
     | RUNNABLE \<Rightarrow> ''runble'' | RUNNING \<Rightarrow> ''run   '' | ZOMBIE \<Rightarrow> ''zombie'')"

text \<open>A context keeps \<open>ebp\<close> at offset 12.\<close>

definition procdump_line :: "nat \<Rightarrow> 'z ptable_scheme \<Rightarrow> ('z ptable_scheme, unit) res" where
  "procdump_line i s =
     (let p = procs s ! i in
      if pstate p = UNUSED then Ok () s
      else
        run (cprintf ''PID: %d,  State: %s,  Name: %s,         Tickets: %d, NumScheduled: %d, Ticks: %d, Priority: %d, Budget: %d''
          [Word (pid p), Str (Some (state_name (pstate p))), Str (Some (pname p)), Word (num_tickets p),
           Word (num_scheduled p), Word (pticks p), Word (priority p), Word (budget p)] s) (\<lambda>_ s.
        run (if pstate p = SLEEPING
             then for_each (takeWhile (\<lambda>pc. pc \<noteq> 0)
                    (getcallerpcs (load32 (mem s) (pcontext p + 12) + 8) (mem s)))
                    (\<lambda>pc. cprintf '' %p'' [Word (sint pc)]) s
             else Ok () s) (\<lambda>_ s.
        cprintf [CHR 0x0A] [] s)))"

definition procdump :: "'z ptable_scheme \<Rightarrow> ('z ptable_scheme, unit) res" where
  "procdump s =
     run (for_each [0..<NPROC] procdump_line s) (\<lambda>_ s.
     cprintf (''----------------------------'' @ [CHR 0x0A]) [] s)"

section \<open>Locks and the table\<close>

lemma ptable_fields_locked [simp]:
  "procs (acquired l s) = procs s" "procs (released l s) = procs s"
  "PromoteAtTime (acquired l s) = PromoteAtTime s" "PromoteAtTime (released l s) = PromoteAtTime s"
  "initproc (acquired l s) = initproc s" "initproc (released l s) = initproc s"
  "nextpid (acquired l s) = nextpid s" "nextpid (released l s) = nextpid s"
  "ticks (acquired l s) = ticks s" "ticks (released l s) = ticks s"
  "forkret_addr (acquired l s) = forkret_addr s" "forkret_addr (released l s) = forkret_addr s"
  "trapret_addr (acquired l s) = trapret_addr s" "trapret_addr (released l s) = trapret_addr s"
  "ctx_esp (acquired l s) = ctx_esp s" "ctx_esp (released l s) = ctx_esp s"
  "ptable.more (acquired l s) = ptable.more s" "ptable.more (released l s) = ptable.more s"
  by (simp_all add: acquired_def released_def pushed_def popped_def upd_lock_def)

lemma procs_upd_proc [simp]: "procs (upd_proc i f s) = (procs s)[i := f (procs s ! i)]"
  by (simp add: upd_proc_def)

lemma upd_proc_fields [simp]:
  "mem (upd_proc i f s) = mem s" "nextpid (upd_proc i f s) = nextpid s"
  "ptable.more (upd_proc i f s) = ptable.more s" "ctx_esp (upd_proc i f s) = ctx_esp s"
  "forkret_addr (upd_proc i f s) = forkret_addr s" "trapret_addr (upd_proc i f s) = trapret_addr s"
  "ticks (upd_proc i f s) = ticks s" "use_lock (upd_proc i f s) = use_lock s"
  "freelist (upd_proc i f s) = freelist s" "kend (upd_proc i f s) = kend s"
  "locks (upd_proc i f s) = locks s" "cpus (upd_proc i f s) = cpus s" "intr (upd_proc i f s) = intr s"
  "lapic_id (upd_proc i f s) = lapic_id s"
  by (simp_all add: upd_proc_def)

lemma balanced_ptable_upd [simp]:
  "balanced s (upd_proc i f t) = balanced s t" "balanced s (t\<lparr>procs := ps\<rparr>) = balanced s t"
  "balanced s (t\<lparr>nextpid := n\<rparr>) = balanced s t" "balanced (upd_proc i f t) s = balanced t s"
  by (simp_all add: balanced_def)

lemma free_pages_ptable_upd [simp]:
  "free_pages (upd_proc i f t) ps = free_pages t ps" "free_pages (t\<lparr>nextpid := n\<rparr>) ps = free_pages t ps"
  by (simp_all add: free_pages_def cpu_inv_def me_def)

text \<open>The running process of the executing processor.\<close>

definition cur :: "'z machine_scheme \<Rightarrow> nat option" where
  "cur s = cpu_proc (my_cpu s)"

lemma myproc_eq:
  assumes "cpu_inv s"
  shows "myproc s = Ok (cur s) (popped (pushed s))" "balanced s (popped (pushed s))"
  using myproc_ok [OF assms] by (auto simp: returns_iff cur_def)

lemma table_locked:
  assumes "can_lock PtableLock s" "balanced (acquired PtableLock s) t"
  shows "release PtableLock t = Ok () (released PtableLock t)" "balanced s (released PtableLock t)"
  using release_balanced [OF assms] by simp_all

section \<open>What the operations do\<close>

lemma setpriority_ok:
  assumes "can_lock PtableLock s" "0 \<le> prio" "prio \<le> MAXPRIORITY"
  shows "returns (setpriority p prio s) (\<lambda>r t. balanced s t \<and>
     (case find_index (\<lambda>q. pid q = p) (procs s) of
        None \<Rightarrow> r = -1 \<and> procs t = procs s
      | Some i \<Rightarrow> r = 0 \<and> procs t = (procs s)[i := (procs s ! i)\<lparr>priority := prio, budget := DEFAULT_BUDGET\<rparr>]))"
  using assms(2,3)
  by (auto simp: setpriority_def table_locked [OF assms(1)] acquire_ok [OF assms(1)] Let_def split: option.splits)

lemma setpriority_leak:
  assumes "can_lock PtableLock s" "prio < 0 \<or> MAXPRIORITY < prio"
  shows "setpriority p prio s = Ok (-1) (acquired PtableLock s)"
  using assms(2) by (simp add: setpriority_def acquire_ok [OF assms(1)])

lemma getpriority_ok:
  assumes "can_lock PtableLock s"
  shows "returns (getpriority p s) (\<lambda>r t. balanced s t \<and> procs t = procs s \<and>
     r = (case find_index (\<lambda>q. pid q = p \<and> pstate q \<noteq> UNUSED) (procs s) of
        None \<Rightarrow> -1 | Some i \<Rightarrow> priority (procs s ! i)))"
  by (auto simp: getpriority_def table_locked [OF assms] acquire_ok [OF assms] split: option.splits)

lemma wakeup_ok:
  assumes "can_lock PtableLock s"
  shows "returns (wakeup ch s) (\<lambda>_ t. balanced s t \<and> procs t = procs (wakeup1 ch s) \<and> mem t = mem s)"
  by (simp add: wakeup_def wakeup_code_def table_locked [OF assms] acquire_ok [OF assms] Let_def wakeup1_def)

text \<open>The state that \<open>wakeup\<close> leads to.\<close>

definition woken :: "chan option \<Rightarrow> 'z ptable_scheme \<Rightarrow> 'z ptable_scheme" where
  "woken ch s = released PtableLock (wakeup1 ch (acquired PtableLock s))"

lemma wakeup_eq:
  assumes "can_lock PtableLock s"
  shows "wakeup ch s = Ok () (woken ch s)" "balanced s (woken ch s)"
  by (simp_all add: wakeup_def wakeup_code_def woken_def table_locked [OF assms] acquire_ok [OF assms] Let_def wakeup1_def)

lemma woken_fields [simp]:
  "procs (woken ch s) = procs (wakeup1 ch s)" "ptable.more (woken ch s) = ptable.more s"
  "ticks (woken ch s) = ticks s"
  by (simp_all add: woken_def wakeup1_def)

lemma kill_ok:
  assumes "can_lock PtableLock s"
  shows "returns (kill p s) (\<lambda>r t. balanced s t \<and>
     (case find_index (\<lambda>q. pid q = p) (procs s) of
        None \<Rightarrow> r = -1 \<and> procs t = procs s
      | Some i \<Rightarrow> r = 0 \<and> procs t = (procs s)[i := (procs s ! i)\<lparr>killed := True,
          pstate := (if pstate (procs s ! i) = SLEEPING then RUNNABLE else pstate (procs s ! i))\<rparr>]))"
  by (auto simp: kill_def table_locked [OF assms] acquire_ok [OF assms] Let_def split: option.splits dest: find_index_SomeD)

section \<open>Giving up the processor\<close>

lemma myproc_crit:
  assumes "in_crit l s"
  shows "myproc s = Ok (cur s) s"
  using assms by (simp add: in_crit_def myproc_eq popped_pushed)

lemma in_crit_upd_proc [simp]: "in_crit l (upd_proc i f s) = in_crit l s"
  by (simp add: in_crit_def cpu_inv_def me_def held_def)

lemma cur_upd_proc [simp]: "cur (upd_proc i f s) = cur s"
  by (simp add: cur_def me_def)

lemma me_upd_proc [simp]: "me (upd_proc i f s) = me s"
  by (simp add: me_def)

lemma cur_locked [simp]:
  "cpu_inv s \<Longrightarrow> cur (acquired l s) = cur s" "cpu_inv s \<Longrightarrow> cur (released l s) = cur s"
  by (simp_all add: cur_def)

text \<open>
  \<open>sched_ready i s\<close>: what \<open>sched\<close> demands of its caller, process \<open>i\<close>: it holds the
  table lock and no other lock, and it has left the running state.
\<close>

definition sched_ready :: "nat \<Rightarrow> 'z ptable_scheme \<Rightarrow> bool" where
  "sched_ready i s \<longleftrightarrow> in_crit PtableLock s \<and> ncli (my_cpu s) = 1 \<and> cur s = Some i \<and>
     pstate (procs s ! i) \<noteq> RUNNING"

lemma sched_switches:
  assumes "sched_ready i s"
  shows "sched s = Switch (upd_proc i (\<lambda>q. q\<lparr>pcontext := ctx_esp s\<rparr>) s)"
proof -
  have c: "in_crit PtableLock s" using assms by (simp add: sched_ready_def)
  then have "holding PtableLock s = Ok True s" "mycpu s = Ok (me s) s" "\<not> intr s"
    by (simp_all add: in_crit_def holding_ok mycpu_ok)
  then show ?thesis
    using assms by (simp add: sched_def myproc_crit [OF c] nonnull_def sched_ready_def)
qed

lemma crit_depth_pos: "in_crit l s \<Longrightarrow> cpu_inv s"
  by (simp add: in_crit_def)

lemma can_lock_not_held: "in_crit l s \<Longrightarrow> can_lock k s \<Longrightarrow> k \<noteq> l"
  by (auto simp: in_crit_def can_lock_def held_def)

text \<open>The states in which \<open>sleep\<close> and \<open>yield\<close> leave the processor.\<close>

definition asleep :: "chan option \<Rightarrow> lockid \<Rightarrow> nat \<Rightarrow> 'z ptable_scheme \<Rightarrow> 'z ptable_scheme" where
  "asleep ch l i s = upd_proc i (\<lambda>q. q\<lparr>pcontext := ctx_esp s\<rparr>)
     (upd_proc i (\<lambda>q. q\<lparr>chan := ch, pstate := SLEEPING\<rparr>) (released l (acquired PtableLock s)))"

definition yielded :: "nat \<Rightarrow> 'z ptable_scheme \<Rightarrow> 'z ptable_scheme" where
  "yielded i s = upd_proc i (\<lambda>q. q\<lparr>pcontext := ctx_esp s\<rparr>)
     (upd_proc i (\<lambda>q. q\<lparr>pstate := RUNNABLE\<rparr>) (acquired PtableLock s))"

lemma sleep_switches:
  assumes "in_crit l s" "can_lock PtableLock s" "ncli (my_cpu s) = 1" "cur s = Some i" "i < length (procs s)"
  shows "\<exists>t. t = asleep ch l i s \<and> sleep ch (Some l) s = Switch t \<and> in_crit PtableLock t \<and> ncli (my_cpu t) = 1 \<and>
     locked (locks t l) = 0 \<and> cur t = Some i \<and>
     procs t = (procs s)[i := (procs s ! i)\<lparr>chan := ch, pstate := SLEEPING, pcontext := ctx_esp s\<rparr>]"
proof -
  have ci: "cpu_inv s" using assms(1) by (rule crit_depth_pos)
  have ne: "PtableLock \<noteq> l" using can_lock_not_held [OF assms(1,2)] .
  let ?a = "acquired PtableLock s"
  have crit: "in_crit l ?a" by (rule in_crit_acquired_other [OF assms(1,2)])
  have two: "ncli (my_cpu ?a) = 2" using assms(3) ci by (simp add: acquired_depth)
  have pt: "in_crit PtableLock (released l ?a)"
    using in_crit_acquired [OF assms(2)] ne two by (intro in_crit_released_other) simp_all
  have one: "ncli (my_cpu (released l ?a)) = 1"
    using released_depth [of ?a l] ci two by simp
  have cu: "cur (released l ?a) = Some i" using ci assms(4) by simp
  let ?t = "upd_proc i (\<lambda>q. q\<lparr>chan := ch, pstate := SLEEPING\<rparr>) (released l ?a)"
  have two_upd: "upd_proc i (\<lambda>q. q\<lparr>pstate := SLEEPING\<rparr>) (upd_proc i (\<lambda>q. q\<lparr>chan := ch\<rparr>) (released l ?a)) = ?t"
    using assms(5) by (simp add: upd_proc_def)
  have "sched_ready i ?t" using pt one cu assms(5) by (simp add: sched_ready_def)
  from sched_switches [OF this]
  have "sleep ch (Some l) s = Switch (upd_proc i (\<lambda>q. q\<lparr>pcontext := ctx_esp ?t\<rparr>) ?t)"
    using ne assms(5) by (auto simp: sleep_def sleep_code_def two_upd myproc_crit [OF assms(1)] assms(4) acquire_ok [OF assms(2)]
        release_ok [OF crit])
  then show ?thesis using pt one cu assms(5) by (simp add: asleep_def)
qed

lemma yield_switches:
  assumes "can_lock PtableLock s" "ncli (my_cpu s) = 0" "cur s = Some i" "i < length (procs s)"
  shows "\<exists>t. t = yielded i s \<and> yield s = Switch t \<and> in_crit PtableLock t \<and> ncli (my_cpu t) = 1 \<and> cur t = Some i \<and>
     procs t = (procs s)[i := (procs s ! i)\<lparr>pstate := RUNNABLE, pcontext := ctx_esp s\<rparr>]"
proof -
  have ci: "cpu_inv s" using assms(1) by (simp add: can_lock_def)
  let ?a = "acquired PtableLock s"
  have crit: "in_crit PtableLock ?a" by (rule in_crit_acquired [OF assms(1)])
  have one: "ncli (my_cpu ?a) = 1" using assms(2) ci by (simp add: acquired_depth)
  have cu: "cur ?a = Some i" using ci assms(3) by simp
  let ?t = "upd_proc i (\<lambda>q. q\<lparr>pstate := RUNNABLE\<rparr>) ?a"
  have "sched_ready i ?t" using crit one cu assms(4) by (simp add: sched_ready_def)
  from sched_switches [OF this]
  have "yield s = Switch (upd_proc i (\<lambda>q. q\<lparr>pcontext := ctx_esp ?t\<rparr>) ?t)"
    using cu by (simp add: yield_def acquire_ok [OF assms(1)] myproc_crit [OF crit] nonnull_def)
  then show ?thesis using crit one cu assms(4) by (simp add: yielded_def)
qed

section \<open>Allocation of a process\<close>

text \<open>
  \<open>ptable_inv\<close>: there are \<open>NPROC\<close> slots; process identifiers lie between zero and the
  next one to be given out, and no two slots share an identifier other than zero; every
  slot has a legal priority, and every slot in use a positive identifier, a positive
  budget and at least one ticket.
\<close>

definition proc_inv :: "proc \<Rightarrow> bool" where
  "proc_inv p \<longleftrightarrow> 0 \<le> priority p \<and> priority p \<le> MAXPRIORITY \<and>
     (pstate p \<noteq> UNUSED \<longrightarrow> 1 \<le> pid p \<and> 1 \<le> budget p \<and> budget p \<le> DEFAULT_BUDGET \<and> 1 \<le> num_tickets p)"

definition pids_inv :: "proc list \<Rightarrow> int \<Rightarrow> bool" where
  "pids_inv ps n \<longleftrightarrow> 1 \<le> n \<and> (\<forall>p \<in> set ps. 0 \<le> pid p \<and> pid p < n) \<and>
     (\<forall>i < length ps. \<forall>j < length ps. pid (ps ! i) = pid (ps ! j) \<longrightarrow> pid (ps ! i) \<noteq> 0 \<longrightarrow> i = j)"

definition ptable_inv :: "'z ptable_scheme \<Rightarrow> bool" where
  "ptable_inv s \<longleftrightarrow> length (procs s) = NPROC \<and> (\<forall>p \<in> set (procs s). proc_inv p) \<and>
     pids_inv (procs s) (nextpid s)"

lemma set_update_ball: "(\<forall>p \<in> set ps. P p) \<Longrightarrow> P q \<Longrightarrow> (\<forall>p \<in> set (ps[i := q]). P p)"
  using set_update_subset_insert [of ps i q] by blast

lemma pids_inv_same: "pids_inv ps n \<Longrightarrow> map pid qs = map pid ps \<Longrightarrow> pids_inv qs n"
proof -
  assume a: "pids_inv ps n" and m: "map pid qs = map pid ps"
  have l: "length qs = length ps" using m by (metis length_map)
  have e: "pid (qs ! i) = pid (ps ! i)" if "i < length ps" for i using m l that by (metis nth_map)
  show ?thesis
    using a e l unfolding pids_inv_def all_set_conv_all_nth by simp
qed

lemma pids_inv_new:
  assumes "pids_inv ps n" "pid q = n"
  shows "pids_inv (ps[i := q]) (n + 1)"
  unfolding pids_inv_def
proof (intro conjI)
  have old: "0 \<le> pid p" "pid p < n" if "p \<in> set ps" for p using assms(1) that by (auto simp: pids_inv_def)
  show "1 \<le> n + 1" using assms(1) by (simp add: pids_inv_def)
  have "1 \<le> n" using assms(1) by (simp add: pids_inv_def)
  then show "\<forall>p \<in> set (ps[i := q]). 0 \<le> pid p \<and> pid p < n + 1"
    using old assms(2) by (intro set_update_ball) (auto intro: less_imp_le)
  show "\<forall>ia < length (ps[i := q]). \<forall>j < length (ps[i := q]).
      pid (ps[i := q] ! ia) = pid (ps[i := q] ! j) \<longrightarrow> pid (ps[i := q] ! ia) \<noteq> 0 \<longrightarrow> ia = j"
  proof (intro allI impI)
    fix a b
    assume a: "a < length (ps[i := q])" "b < length (ps[i := q])"
      and e: "pid (ps[i := q] ! a) = pid (ps[i := q] ! b)" "pid (ps[i := q] ! a) \<noteq> 0"
    have lt: "pid (ps ! a) < n" "pid (ps ! b) < n" using a old(2) by simp_all
    show "a = b"
      using assms a e lt by (cases "a = i"; cases "b = i") (auto simp: pids_inv_def)
  qed
qed

text \<open>The slot that \<open>allocproc\<close> hands out, and the stack frame it builds in the new kernel stack.\<close>

definition fresh_proc :: "u32 \<Rightarrow> int \<Rightarrow> proc \<Rightarrow> proc" where
  "fresh_proc k n p = p\<lparr>pstate := EMBRYO, budget := DEFAULT_BUDGET, priority := MAXPRIORITY,
     num_tickets := 1, num_scheduled := 0, pid := n, kstack := k, tf := k + 4020, pcontext := k + 3996\<rparr>"

definition new_frame :: "u32 \<Rightarrow> u32 \<Rightarrow> u32 \<Rightarrow> memory \<Rightarrow> memory" where
  "new_frame k ra fr m = store32 (k + 4012) fr (memset (k + 3996) 0 20 (store32 (k + 4016) ra m))"

lemma new_frame_only_page:
  assumes "aligned k"
  shows "only_page k m (new_frame k ra fr m)"
proof -
  have "only_page k m (store32 (k + of_nat 4016) ra m)" by (rule only_page_store32 [OF assms]) simp
  moreover have "only_page k x (memset (k + of_nat 3996) 0 20 x)" for x
    by (rule only_page_memset [OF assms]) simp
  moreover have "only_page k x (store32 (k + of_nat 4012) fr x)" for x
    by (rule only_page_store32 [OF assms]) simp
  ultimately show ?thesis unfolding new_frame_def by (simp) (blast intro: only_page_trans)
qed

lemma new_frame_entries:
  "load32 (new_frame k ra fr m) (k + 4012) = fr" "load32 (new_frame k ra fr m) (k + 4016) = ra"
proof -
  show "load32 (new_frame k ra fr m) (k + 4012) = fr" by (simp add: new_frame_def)
  have far: "\<not> in_range (k + 4016 + of_nat j) (k + 3996) 20" if "j < 4" for j
  proof -
    have e: "k + 4016 + of_nat j - (k + 3996) = of_nat (20 + j)" by simp
    have "unat (of_nat (20 + j) :: u32) = 20 + j" using unat_plus_small [of 0 "20 + j"] that by simp
    then show ?thesis unfolding in_range_def e by simp
  qed
  have "load32 (memset (k + 3996) 0 20 x) (k + 4016) = load32 x (k + 4016)" for x
    using far [of 0] far [of 1] far [of 2] far [of 3]
    by (intro load32_cong) (simp_all add: memset_eq)
  moreover have "load32 (store32 (k + 4012) fr x) (k + 4016) = load32 x (k + 4016)" for x
    by (rule load32_store32_other) (simp_all add: word_le_nat_alt)
  ultimately show "load32 (new_frame k ra fr m) (k + 4016) = ra" by (simp add: new_frame_def)
qed

lemma frame_addresses:
  "(k :: u32) + 4096 - 76 = k + 4020" "k + 4020 - 4 = k + 4016" "k + 4016 - 20 = k + 3996"
  "k + 3996 + 16 = k + 4012"
  by simp_all

lemma allocproc_full:
  assumes "can_lock PtableLock s" "find_index (\<lambda>p. pstate p = UNUSED) (procs s) = None"
  shows "returns (allocproc s) (\<lambda>r t. r = None \<and> balanced s t \<and> procs t = procs s \<and> nextpid t = nextpid s)"
  using assms(2) by (simp add: allocproc_def acquire_ok [OF assms(1)] table_locked [OF assms(1)])

text \<open>The state in which \<open>allocproc\<close> calls \<open>kalloc\<close>.\<close>

definition claimed :: "nat \<Rightarrow> 'z ptable_scheme \<Rightarrow> 'z ptable_scheme" where
  "claimed i s = released PtableLock ((upd_proc i (\<lambda>p. p\<lparr>pstate := EMBRYO, budget := DEFAULT_BUDGET,
     priority := MAXPRIORITY, num_tickets := 1, num_scheduled := 0, pid := nextpid s\<rparr>)
       (acquired PtableLock s))\<lparr>nextpid := c_int (nextpid s + 1)\<rparr>)"

lemma claimed_fields:
  assumes "can_lock PtableLock s" "free_pages s ps"
  shows "balanced s (claimed i s)" "free_pages (claimed i s) ps" "mem (claimed i s) = mem s"
proof -
  show b: "balanced s (claimed i s)" unfolding claimed_def by (rule table_locked(2) [OF assms(1)]) simp
  show m: "mem (claimed i s) = mem s" by (simp add: claimed_def)
  have "use_lock (claimed i s) = use_lock s" "freelist (claimed i s) = freelist s" "kend (claimed i s) = kend s"
    by (simp_all add: claimed_def)
  then show "free_pages (claimed i s) ps"
    using assms(2) b m usable_balanced [of s "claimed i s"] by (auto simp: free_pages_def)
qed

lemma kmem_more_procs:
  "kmem.more t = kmem.more s \<Longrightarrow> procs t = procs s \<and> nextpid t = nextpid s \<and> forkret_addr t = forkret_addr s
     \<and> trapret_addr t = trapret_addr s \<and> ctx_esp t = ctx_esp s \<and> initproc t = initproc s \<and> ticks t = ticks s
     \<and> PromoteAtTime t = PromoteAtTime s \<and> ptable.more t = ptable.more s"
  for s t :: "'z ptable_scheme"
  by (cases s, cases t) simp

lemma allocproc_claim:
  assumes "can_lock PtableLock s" "find_index (\<lambda>p. pstate p = UNUSED) (procs s) = Some i"
    and "kalloc (claimed i s) = Ok k t"
  shows "allocproc s = (let u = upd_proc i (\<lambda>p. p\<lparr>kstack := k\<rparr>) t in
     if k = 0 then Ok None (upd_proc i (\<lambda>p. p\<lparr>pstate := UNUSED\<rparr>) u)
     else Ok (Some i) ((upd_proc i (\<lambda>p. p\<lparr>pcontext := k + 3996\<rparr>)
       (upd_proc i (\<lambda>p. p\<lparr>tf := k + 4020\<rparr>) u))
         \<lparr>mem := new_frame k (trapret_addr t) (forkret_addr t) (mem t)\<rparr>))"
  using assms(2,3)
  by (simp add: allocproc_def acquire_ok [OF assms(1)] table_locked [OF assms(1)] claimed_def
      Let_def frame_addresses new_frame_def upd_proc_def add.commute)

lemma allocproc_new:
  assumes "can_lock PtableLock s" "free_pages s (k # ks)"
    and "find_index (\<lambda>p. pstate p = UNUSED) (procs s) = Some i"
  shows "returns (allocproc s) (\<lambda>r t. r = Some i \<and> balanced s t \<and> free_pages t ks \<and>
     procs t = (procs s)[i := fresh_proc k (nextpid s) (procs s ! i)] \<and>
     nextpid t = c_int (nextpid s + 1) \<and>
     mem t = new_frame k (trapret_addr s) (forkret_addr s) (mem s))"
proof -
  have i: "i < length (procs s)" using find_index_SomeD(1) [OF assms(3)] .
  note c = claimed_fields [OF assms(1,2), of i]
  obtain t where t: "kalloc (claimed i s) = Ok k t" "k \<noteq> 0" "balanced (claimed i s) t" "mem t = mem s"
      "kmem.more t = kmem.more (claimed i s)" "free_pages t ks"
    using kalloc_pages [OF c(2)] c(3) by (auto simp: returns_iff)
  note f = kmem_more_procs [OF t(5)]
  have bt: "balanced s t" using balanced_trans [OF c(1) t(3)] .
  have al: "aligned k" "k \<notin> set ks" using assms(2) by (auto simp: free_pages_def page_ok_def)
  let ?u = "(upd_proc i (\<lambda>p. p\<lparr>pcontext := k + 3996\<rparr>) (upd_proc i (\<lambda>p. p\<lparr>tf := k + 4020\<rparr>)
      (upd_proc i (\<lambda>p. p\<lparr>kstack := k\<rparr>) t)))\<lparr>mem := new_frame k (trapret_addr t) (forkret_addr t) (mem t)\<rparr>"
  have e: "allocproc s = Ok (Some i) ?u"
    using allocproc_claim [OF assms(1,3) t(1)] t(2) by simp
  have "free_pages ?u ks"
    using new_frame_only_page [OF al(1)] by (intro free_pages_frame [OF t(6) al]) simp_all
  moreover have "procs ?u = (procs s)[i := fresh_proc k (nextpid s) (procs s ! i)]"
    using i f by (simp add: claimed_def fresh_proc_def)
  moreover have "mem ?u = new_frame k (trapret_addr s) (forkret_addr s) (mem s)" "nextpid ?u = c_int (nextpid s + 1)"
    using f t(4) by (simp_all add: claimed_def)
  moreover have "balanced s ?u" using bt by simp
  ultimately show ?thesis by (simp add: e)
qed

lemma allocproc_no_memory:
  assumes "can_lock PtableLock s" "free_pages s []"
    and "find_index (\<lambda>p. pstate p = UNUSED) (procs s) = Some i"
  shows "returns (allocproc s) (\<lambda>r t. r = None \<and> balanced s t \<and> free_pages t [] \<and>
     (\<exists>q. pstate q = UNUSED \<and> pid q = nextpid s \<and> priority q = MAXPRIORITY \<and> procs t = (procs s)[i := q]))"
proof -
  have i: "i < length (procs s)" using find_index_SomeD(1) [OF assms(3)] .
  note c = claimed_fields [OF assms(1,2), of i]
  obtain t where t: "kalloc (claimed i s) = Ok 0 t" "balanced (claimed i s) t"
      "kmem.more t = kmem.more (claimed i s)" "free_pages t []"
    using kalloc_pages [OF c(2)] by (auto simp: returns_iff)
  note f = kmem_more_procs [OF t(3)]
  have bt: "balanced s t" using balanced_trans [OF c(1) t(2)] .
  show ?thesis
    using f i t(4) bt allocproc_claim [OF assms(1,3) t(1)]
    by (auto simp: Let_def claimed_def intro!: exI)
qed

lemma pids_inv_first:
  assumes "pids_inv ps n" "pid q \<noteq> 0" "find_index (\<lambda>p. pid p = pid q) ps = Some i"
    and "j < length ps" "pid (ps ! j) = pid q"
  shows "j = i"
  using assms find_index_SomeD [OF assms(3)] by (auto simp: pids_inv_def)

lemma ptable_inv_update:
  assumes "ptable_inv s" "procs t = (procs s)[i := q]" "nextpid t = nextpid s"
    and "proc_inv q" "pid q = pid (procs s ! i)"
  shows "ptable_inv t"
proof -
  have "map pid (procs t) = map pid (procs s)" using assms(2,5) by (simp add: map_update_same)
  then show ?thesis
    using assms pids_inv_same [of "procs s" "nextpid s" "procs t"] set_update_ball [of "procs s" proc_inv q i]
    by (simp add: ptable_inv_def)
qed

lemma ptable_inv_fresh:
  assumes "ptable_inv s" "procs t = (procs s)[i := q]" "nextpid t = nextpid s + 1"
    and "proc_inv q" "pid q = nextpid s"
  shows "ptable_inv t"
  using assms pids_inv_new [of "procs s" "nextpid s" q i] set_update_ball [of "procs s" proc_inv q i]
  by (simp add: ptable_inv_def)

section \<open>Coming back from the scheduler\<close>

lemma sched_resume_ok:
  assumes "in_crit l s"
  shows "\<exists>t. sched_resume saved s = Ok () t \<and> machine.more t = machine.more s \<and> in_crit l t \<and> ncli (my_cpu t) = ncli (my_cpu s) \<and>
     locks t = locks s \<and> procs t = procs s \<and> cur t = cur s \<and> me t = me s"
proof -
  have ci: "cpu_inv s" and i: "\<not> intr s" using assms by (simp_all add: in_crit_def)
  have l: "me s < length (cpus s)" using ci by (rule me_less)
  let ?t = "upd_cpu (me s) (\<lambda>k. k\<lparr>intena := saved\<rparr>) s"
  have m: "me ?t = me s" by (rule me_cong) (simp_all add: upd_cpu_def map_update_same)
  have c: "cpus ?t ! me s = (my_cpu s)\<lparr>intena := saved\<rparr>" using l by (simp add: upd_cpu_def)
  have k: "locks ?t = locks s" "intr ?t = intr s" "lapic_id ?t = lapic_id s"
    "length (cpus ?t) = length (cpus s)" "procs ?t = procs s"
    "machine.more ?t = machine.more s" by (simp_all add: upd_cpu_def)
  have "in_crit l ?t" using assms l by (simp add: in_crit_def cpu_inv_iff held_def m c k)
  then show ?thesis by (simp add: sched_resume_def mycpu_ok [OF ci i] m c k cur_def)
qed

lemma sleep_resume_ok:
  assumes "in_crit PtableLock s" "ncli (my_cpu s) = 1" "l \<noteq> PtableLock" "locked (locks s l) = 0"
  shows "returns (sleep_resume i l saved s) (\<lambda>_ t. in_crit l t \<and> locked (locks t PtableLock) = 0 \<and>
     procs t = (procs s)[i := (procs s ! i)\<lparr>chan := None\<rparr>])"
proof -
  obtain u where u: "sched_resume saved s = Ok () u" "in_crit PtableLock u" "ncli (my_cpu u) = 1"
      "locks u = locks s" "procs u = procs s"
    using sched_resume_ok [OF assms(1), of saved] assms(2) by auto
  let ?v = "upd_proc i (\<lambda>q. q\<lparr>chan := None\<rparr>) u"
  have v: "in_crit PtableLock ?v" using u by simp
  have "cpu_inv (released PtableLock ?v)"
    using v u(3) by (intro cpu_inv_released) (simp_all add: in_crit_def)
  then have free: "can_lock l (released PtableLock ?v)"
    using assms(3,4) u(4) by (simp add: can_lock_def)
  show ?thesis
    using in_crit_acquired [OF free] assms(3) u(5)
    by (simp add: sleep_resume_def u(1) release_ok [OF v] acquire_ok [OF free])
qed

text \<open>Locking looks only at the machine part of a state.\<close>

lemma machine_view:
  assumes "machine.truncate t = machine.truncate s"
  shows "can_lock l t = can_lock l s" "cpu_inv t = cpu_inv s" "me t = me s" "cur t = cur s"
    "my_cpu t = my_cpu s" "in_crit l t = in_crit l s" "balanced u t = balanced u s" "mem t = mem s"
  using assms
  by (simp_all add: machine.truncate_def can_lock_def cpu_inv_def me_def cur_def in_crit_def held_def balanced_def)

section \<open>Properties\<close>

text \<open>A table with a running process and a process that sleeps on the clock.\<close>

definition slot0 :: proc where
  "slot0 = \<lparr>sz = 0, pgdir = 0, kstack = 0, pstate = UNUSED, pid = 0, parent = None, tf = 0, pcontext = 0,
     chan = None, killed = False, ofile = replicate 16 None, cwd = None, pname = [], priority = 0, budget = 0,
     num_tickets = 0, num_scheduled = 0, pticks = 0\<rparr>"

definition proc1 :: proc where
  "proc1 = slot0\<lparr>pstate := RUNNING, pid := 1, priority := 2, budget := 5, num_tickets := 1\<rparr>"

definition proc2 :: proc where
  "proc2 = slot0\<lparr>pstate := SLEEPING, chan := Some ChanTicks, pid := 2, priority := 1, budget := 3,
     num_tickets := 4\<rparr>"

definition ptable0 :: ptable where
  "ptable0 = (kmem.extend kmem0 (ptable.fields (proc1 # proc2 # replicate 62 slot0) 50 (Some 0) 3 10
      0x80103000 0x80105000 0x80800F00))
     \<lparr>cpus := [(cpus kmem0 ! 0)\<lparr>cpu_proc := Some 0\<rparr>]\<rparr>"

lemma ptable0_fields:
  "procs ptable0 = proc1 # proc2 # replicate 62 slot0" "nextpid ptable0 = 3"
  "cpus ptable0 = [(cpus kmem0 ! 0)\<lparr>cpu_proc := Some 0\<rparr>]" "mem ptable0 = mem kmem0"
  "locks ptable0 = locks kmem0" "intr ptable0 = intr kmem0" "lapic_id ptable0 = lapic_id kmem0"
  "freelist ptable0 = freelist kmem0" "use_lock ptable0 = use_lock kmem0" "kend ptable0 = kend kmem0"
  by (simp_all add: ptable0_def kmem0_def console0_def machine0_def machine.extend_def console.extend_def
      kmem.extend_def console.fields_def kmem.fields_def ptable.fields_def)

lemma machine_of_kmem0:
  "cpus kmem0 = cpus machine0" "intr kmem0" "lapic_id kmem0 = 0"
  by (simp_all add: kmem0_def console0_def machine0_def machine.extend_def console.extend_def
      console.fields_def kmem.fields_def)

lemma ptable0_cpu: "cpu_inv ptable0" "me ptable0 = 0" "cur ptable0 = Some 0" "ncli (my_cpu ptable0) = 0"
  by (simp_all add: cpu_inv_def me_def cur_def ptable0_fields machine_of_kmem0 machine0_def)

lemma ptable0_free: "can_lock l ptable0"
  by (simp add: can_lock_def ptable0_cpu ptable0_fields kmem0_fields)

lemma ptable0_pages: "free_pages ptable0 [0x80400000, 0x80401000]"
  using kmem0_pages ptable0_cpu(1) by (simp add: free_pages_def ptable0_fields)

lemma ptable0_inv: "ptable_inv ptable0"
proof -
  have a: "proc_inv slot0" "proc_inv proc1" "proc_inv proc2"
    by (simp_all add: proc_inv_def slot0_def proc1_def proc2_def)
  have "pid ((proc1 # proc2 # replicate 62 slot0) ! i) = (if i = 0 then 1 else if i = 1 then 2 else 0)"
    if "i < 64" for i
    using that by (auto simp: nth_Cons slot0_def proc1_def proc2_def split: nat.splits)
  then have "pids_inv (procs ptable0) 3"
    unfolding pids_inv_def all_set_conv_all_nth by (simp add: ptable0_fields)
  then show ?thesis using a by (simp add: ptable_inv_def ptable0_fields)
qed

text \<open>
  C16: with a legal priority, \<open>setpriority\<close> on the identifier of a live process succeeds,
  changes that process only, keeps the table invariant and the locks, and \<open>getpriority\<close>
  then reports the new priority.
\<close>

theorem setpriority_getpriority:
  assumes "ptable_inv s" "can_lock PtableLock s" "0 \<le> prio" "prio \<le> MAXPRIORITY"
    and "i < length (procs s)" "pid (procs s ! i) = p" "pstate (procs s ! i) \<noteq> UNUSED"
  shows "returns (setpriority p prio s) (\<lambda>r t. r = 0 \<and> balanced s t \<and>
     procs t = (procs s)[i := (procs s ! i)\<lparr>priority := prio, budget := DEFAULT_BUDGET\<rparr>] \<and>
     returns (getpriority p t) (\<lambda>q _. q = prio))"
proof -
  have p: "p \<noteq> 0" "pids_inv (procs s) (nextpid s)"
    using assms(1,5,6,7) by (auto simp: ptable_inv_def proc_inv_def dest!: bspec [OF _ nth_mem])
  have uniq: "j = i" if "j < length (procs s)" "pid (procs s ! j) = p" for j
    using p that assms(5,6) by (auto simp: pids_inv_def)
  have f: "find_index (\<lambda>q. pid q = p) (procs s) = Some i"
    by (rule find_index_unique, fact assms(5), fact assms(6), rule uniq)
  let ?ps = "(procs s)[i := (procs s ! i)\<lparr>priority := prio, budget := DEFAULT_BUDGET\<rparr>]"
  have g: "find_index (\<lambda>q. pid q = p \<and> pstate q \<noteq> UNUSED) ?ps = Some i"
  proof (rule find_index_unique)
    show "i < length ?ps" "pid (?ps ! i) = p \<and> pstate (?ps ! i) \<noteq> UNUSED" using assms(5,6,7) by simp_all
    fix j assume j: "j < length ?ps" "pid (?ps ! j) = p \<and> pstate (?ps ! j) \<noteq> UNUSED"
    then show "j = i" by (cases "j = i") (simp_all add: uniq)
  qed
  show ?thesis
  proof (rule returns_mono [OF setpriority_ok [OF assms(2,3,4)]])
    fix r t
    assume "balanced s t \<and> (case find_index (\<lambda>q. pid q = p) (procs s) of
        None \<Rightarrow> r = -1 \<and> procs t = procs s | Some i \<Rightarrow> r = 0 \<and> procs t = (procs s)
          [i := (procs s ! i)\<lparr>priority := prio, budget := DEFAULT_BUDGET\<rparr>])"
    then have t: "balanced s t" "r = 0" "procs t = ?ps" by (simp_all add: f)
    have "returns (getpriority p t) (\<lambda>q _. q = prio)"
      using getpriority_ok [OF can_lock_balanced [OF t(1) assms(2)], of p] g assms(5)
      by (auto simp: t(3) elim!: returns_mono)
    then show "r = 0 \<and> balanced s t \<and> procs t = ?ps \<and> returns (getpriority p t) (\<lambda>q _. q = prio)"
      using t by simp
  qed
qed

theorem setpriority_getpriority_witness:
  "returns (setpriority 2 0 ptable0) (\<lambda>r t. r = 0 \<and> balanced ptable0 t \<and>
     procs t = (procs ptable0)[1 := (procs ptable0 ! 1)\<lparr>priority := 0, budget := DEFAULT_BUDGET\<rparr>] \<and>
     returns (getpriority 2 t) (\<lambda>q _. q = 0))"
  by (rule setpriority_getpriority [OF ptable0_inv ptable0_free])
    (simp_all add: ptable0_fields proc2_def slot0_def)

text \<open>
  C17: \<open>setpriority\<close> with a priority out of range returns -1 while it still holds the
  table lock, so the next operation of this processor that takes the lock panics.
\<close>

theorem setpriority_leaks_lock:
  assumes "can_lock PtableLock s" "prio < 0 \<or> MAXPRIORITY < prio"
  shows "returns (setpriority p prio s) (\<lambda>r t. r = -1 \<and> in_crit PtableLock t \<and>
     (\<forall>q prio'. setpriority q prio' t = Panic ''acquire'') \<and> getpriority p t = Panic ''acquire'' \<and>
     kill p t = Panic ''acquire'' \<and> yield t = Panic ''acquire'')"
proof -
  let ?t = "acquired PtableLock s"
  have c: "in_crit PtableLock ?t" by (rule in_crit_acquired [OF assms(1)])
  then have "acquire PtableLock ?t = Panic ''acquire''" by (simp add: in_crit_def acquire_cases)
  then show ?thesis
    using c by (simp add: setpriority_leak [OF assms])
      (simp add: setpriority_def getpriority_def kill_def yield_def)
qed

theorem setpriority_leaks_lock_witness:
  "returns (setpriority 2 3 ptable0) (\<lambda>r t. r = -1 \<and> yield t = Panic ''acquire'')"
  by (rule returns_mono [OF setpriority_leaks_lock [OF ptable0_free]]) simp_all

text \<open>
  C15: \<open>allocproc\<close> hands out the first unused slot with an identifier that no other
  slot has, a kernel stack taken from the free pages, and a stack frame that starts the
  process in \<open>forkret\<close> and returns from there to \<open>trapret\<close>; the table invariant, the
  locks, and every page but the new stack are kept.
\<close>

theorem allocproc_correct:
  assumes "ptable_inv s" "can_lock PtableLock s" "free_pages s (k # ks)" "nextpid s < 2147483647"
    and "find_index (\<lambda>p. pstate p = UNUSED) (procs s) = Some i"
  shows "returns (allocproc s) (\<lambda>r t. r = Some i \<and> balanced s t \<and> ptable_inv t \<and> free_pages t ks \<and>
     pstate (procs t ! i) = EMBRYO \<and> kstack (procs t ! i) = k \<and>
     (\<forall>j < NPROC. j \<noteq> i \<longrightarrow> procs t ! j = procs s ! j \<and> pid (procs t ! j) \<noteq> pid (procs t ! i)) \<and>
     load32 (mem t) (pcontext (procs t ! i) + 16) = forkret_addr s \<and>
     load32 (mem t) (pcontext (procs t ! i) + 20) = trapret_addr s \<and>
     only_page k (mem s) (mem t))"
proof (rule returns_mono [OF allocproc_new [OF assms(2,3,5)]])
  have len: "length (procs s) = NPROC" and pids: "pids_inv (procs s) (nextpid s)"
    using assms(1) by (simp_all add: ptable_inv_def)
  have i: "i < length (procs s)" using find_index_SomeD(1) [OF assms(5)] .
  have n: "c_int (nextpid s + 1) = nextpid s + 1" "1 \<le> nextpid s"
    using assms(4) pids by (simp_all add: pids_inv_def int_range_def)
  have al: "aligned k" using assms(3) by (simp add: free_pages_def page_ok_def)
  fix r t
  assume t: "r = Some i \<and> balanced s t \<and> free_pages t ks \<and>
     procs t = (procs s)[i := fresh_proc k (nextpid s) (procs s ! i)] \<and> nextpid t = c_int (nextpid s + 1) \<and>
     mem t = new_frame k (trapret_addr s) (forkret_addr s) (mem s)"
  let ?q = "fresh_proc k (nextpid s) (procs s ! i)"
  have q: "proc_inv ?q" "pid ?q = nextpid s" using n by (simp_all add: proc_inv_def fresh_proc_def)
  have inv: "ptable_inv t" using t n by (intro ptable_inv_fresh [OF assms(1) _ _ q]) simp_all
  have old: "pid (procs s ! j) < nextpid s" if "j < length (procs s)" for j
    using pids that by (simp add: pids_inv_def)
  have "pcontext ?q = k + 3996" by (simp add: fresh_proc_def)
  then have fr: "load32 (mem t) (pcontext ?q + 16) = forkret_addr s" "load32 (mem t) (pcontext ?q + 20) = trapret_addr s"
    using t new_frame_entries [of k "trapret_addr s" "forkret_addr s" "mem s"] by (simp_all add: add.commute)
  show "r = Some i \<and> balanced s t \<and> ptable_inv t \<and> free_pages t ks \<and>
     pstate (procs t ! i) = EMBRYO \<and> kstack (procs t ! i) = k \<and>
     (\<forall>j < NPROC. j \<noteq> i \<longrightarrow> procs t ! j = procs s ! j \<and> pid (procs t ! j) \<noteq> pid (procs t ! i)) \<and>
     load32 (mem t) (pcontext (procs t ! i) + 16) = forkret_addr s \<and>
     load32 (mem t) (pcontext (procs t ! i) + 20) = trapret_addr s \<and> only_page k (mem s) (mem t)"
    using t inv fr q(2) i len old new_frame_only_page [OF al] by (fastforce simp: fresh_proc_def)
qed

theorem allocproc_correct_witness:
  "returns (allocproc ptable0) (\<lambda>r t. r = Some 2 \<and> ptable_inv t \<and> kstack (procs t ! 2) = 0x80400000 \<and>
     load32 (mem t) (pcontext (procs t ! 2) + 16) = forkret_addr ptable0)"
proof -
  have "find_index (\<lambda>p. pstate p = UNUSED) (procs ptable0) = Some 2"
    by (simp add: ptable0_fields proc1_def proc2_def slot0_def numeral_eq_Suc)
  from allocproc_correct [OF ptable0_inv ptable0_free ptable0_pages _ this]
  show ?thesis by (auto simp: ptable0_fields(2) elim!: returns_mono)
qed

end
