(* ===== verification/Vm.thy ===== *)
theory Vm
  imports Proc
begin

text \<open>
  Page tables, \<open>lab2/vm.c\<close>.  A page directory and its page tables are pages of physical
  memory, written and read as 32-bit words at their kernel addresses.  Pointers into page
  tables are addresses, with zero for the null pointer.  The descriptor tables and the
  registers \<open>cr3\<close> and \<open>tr\<close> are fields of the processor; \<open>ts_addr\<close> gives the address of
  the task state of each processor, \<open>data_addr\<close> the linker symbol \<open>data\<close>.
\<close>

record vm = ptable +
  kpgdir :: u32
  data_addr :: u32
  ts_addr :: "nat \<Rightarrow> u32"

record kmap =
  virt :: u32
  phys_start :: u32
  phys_end :: u32
  kperm :: u32

abbreviation (input) SEG_KCODE :: nat where "SEG_KCODE \<equiv> 1"
abbreviation (input) SEG_KDATA :: nat where "SEG_KDATA \<equiv> 2"
abbreviation (input) SEG_UCODE :: nat where "SEG_UCODE \<equiv> 3"
abbreviation (input) SEG_UDATA :: nat where "SEG_UDATA \<equiv> 4"
abbreviation (input) SEG_TSS :: nat where "SEG_TSS \<equiv> 5"
abbreviation (input) NPDENTRIES :: nat where "NPDENTRIES \<equiv> 1024"

definition KERNLINK :: u32 where
  "KERNLINK = KERNBASE + EXTMEM"

section \<open>Segments\<close>

definition SEG :: "4 word \<Rightarrow> u32 \<Rightarrow> u32 \<Rightarrow> 2 word \<Rightarrow> segdesc" where
  "SEG type base lim dpl = \<lparr>lim_15_0 = ucast (drop_bit 12 lim), base_15_0 = ucast base,
     base_23_16 = ucast (drop_bit 16 base), sd_type = type, sd_s = 1, sd_dpl = dpl, sd_p = 1,
     lim_19_16 = ucast (drop_bit 28 lim), sd_avl = 0, sd_rsv1 = 0, sd_db = 1, sd_g = 1,
     base_31_24 = ucast (drop_bit 24 base)\<rparr>"

definition SEG16 :: "4 word \<Rightarrow> u32 \<Rightarrow> u32 \<Rightarrow> 2 word \<Rightarrow> segdesc" where
  "SEG16 type base lim dpl = \<lparr>lim_15_0 = ucast lim, base_15_0 = ucast base,
     base_23_16 = ucast (drop_bit 16 base), sd_type = type, sd_s = 1, sd_dpl = dpl, sd_p = 1,
     lim_19_16 = ucast (drop_bit 16 lim), sd_avl = 0, sd_rsv1 = 0, sd_db = 1, sd_g = 0,
     base_31_24 = ucast (drop_bit 24 base)\<rparr>"

text \<open>\<open>STA_X|STA_R\<close> is 10, \<open>STA_W\<close> is 2 and \<open>DPL_USER\<close> is 3.\<close>

definition seginit :: "'z vm_scheme \<Rightarrow> ('z vm_scheme, unit) res" where
  "seginit s =
     run (cpuid s) (\<lambda>c s.
     Ok () (upd_cpu c (\<lambda>k. k\<lparr>gdt := (gdt k)
       [SEG_KCODE := SEG 10 0 0xffffffff 0,
        SEG_KDATA := SEG 2 0 0xffffffff 0,
        SEG_UCODE := SEG 10 0 0xffffffff 3,
        SEG_UDATA := SEG 2 0 0xffffffff 3]\<rparr>) s))"

section \<open>Page tables\<close>

definition walkpgdir :: "u32 \<Rightarrow> u32 \<Rightarrow> bool \<Rightarrow> 'z vm_scheme \<Rightarrow> ('z vm_scheme, u32) res" where
  "walkpgdir pd va alloc s =
     (let pde = pd + 4 * PDX va in
      if load32 (mem s) pde AND PTE_P \<noteq> 0
      then let pgtab = P2V (PTE_ADDR (load32 (mem s) pde)) in Ok (pgtab + 4 * PTX va) s
      else if \<not> alloc then Ok 0 s
      else run (kalloc s) (\<lambda>pgtab s.
        if pgtab = 0 then Ok 0 s
        else
          let s = s\<lparr>mem := memset pgtab 0 PGSIZE (mem s)\<rparr>;
              s = s\<lparr>mem := store32 pde (V2P pgtab OR PTE_P OR PTE_W OR PTE_U) (mem s)\<rparr> in
          Ok (pgtab + 4 * PTX va) s))"

text \<open>
  The loop of \<open>mappages\<close> runs until it meets the last page.  Both ends are page aligned;
  from an address that is not a whole number of pages below the last one it never would.
\<close>

function mappages_loop :: "u32 \<Rightarrow> u32 \<Rightarrow> u32 \<Rightarrow> u32 \<Rightarrow> u32 \<Rightarrow> 'z vm_scheme \<Rightarrow> ('z vm_scheme, int) res" where
  "mappages_loop pd a lst pa perm s =
     run (walkpgdir pd a True s) (\<lambda>pte s.
     if pte = 0 then Ok (-1) s
     else if load32 (mem s) pte AND PTE_P \<noteq> 0 then Panic ''remap''
     else
       let s = s\<lparr>mem := store32 pte (pa OR perm OR PTE_P) (mem s)\<rparr> in
       if a = lst then Ok 0 s
       else if lst - a < PGSIZE then Spin
       else mappages_loop pd (a + PGSIZE) lst (pa + PGSIZE) perm s)"
  by pat_completeness auto

lemma page_step_less:
  assumes "PGSIZE \<le> lst - a"
  shows "unat (lst - (a + PGSIZE)) < unat (lst - a)"
proof -
  have "lst - (a + PGSIZE) = lst - a - PGSIZE" by simp
  moreover have "unat (lst - a - PGSIZE) = unat (lst - a) - 4096"
    using unat_sub [OF assms] by simp
  ultimately have "unat (lst - (a + PGSIZE)) = unat (lst - a) - 4096" by (simp only:)
  moreover have "4096 \<le> unat (lst - a)" using assms by (simp add: word_le_nat_alt)
  ultimately show ?thesis by linarith
qed

termination mappages_loop
  by (relation "measure (\<lambda>(pd, a, lst, pa, perm, s). unat (lst - a))")
    (simp, simp only: in_measure prod.case, rule page_step_less, simp add: not_less)

declare mappages_loop.simps [simp del]

definition mappages :: "u32 \<Rightarrow> u32 \<Rightarrow> u32 \<Rightarrow> u32 \<Rightarrow> u32 \<Rightarrow> 'z vm_scheme \<Rightarrow> ('z vm_scheme, int) res" where
  "mappages pd va sz0 pa perm s =
     mappages_loop pd (PGROUNDDOWN va) (PGROUNDDOWN (va + sz0 - 1)) pa perm s"

text \<open>
  The loops over a range of user pages step by a page; a step that does not increase the
  address has wrapped around the address space and the loop would start over.
\<close>

function deallocuvm_loop :: "u32 \<Rightarrow> u32 \<Rightarrow> u32 \<Rightarrow> 'z vm_scheme \<Rightarrow> ('z vm_scheme, unit) res" where
  "deallocuvm_loop pd a oldsz s =
     (if a < oldsz then
        run (walkpgdir pd a False s) (\<lambda>pte s.
        run (if pte = 0 then Ok (PGADDR (PDX a + 1) 0 0 - PGSIZE) s
             else if load32 (mem s) pte AND PTE_P \<noteq> 0 then
               let pa = PTE_ADDR (load32 (mem s) pte) in
               if pa = 0 then Panic ''kfree''
               else let v = P2V pa in
                 run (kfree v s) (\<lambda>_ s. Ok a (s\<lparr>mem := store32 pte 0 (mem s)\<rparr>))
             else Ok a s) (\<lambda>b s.
        let b = b + PGSIZE in
        if b \<le> a then Spin else deallocuvm_loop pd b oldsz s))
      else Ok () s)"
  by pat_completeness auto

lemma word_up_less:
  fixes a b n :: u32
  assumes "a < n" "\<not> b \<le> a"
  shows "unat n - unat b < unat n - unat a"
  using assms by (simp add: word_less_nat_alt word_le_nat_alt)

termination deallocuvm_loop
  by (relation "measure (\<lambda>(pd, a, oldsz, s). unat oldsz - unat a)")
    (simp, simp only: in_measure prod.case, rule word_up_less)

declare deallocuvm_loop.simps [simp del]

definition deallocuvm :: "u32 \<Rightarrow> u32 \<Rightarrow> u32 \<Rightarrow> 'z vm_scheme \<Rightarrow> ('z vm_scheme, u32) res" where
  "deallocuvm pd oldsz newsz s =
     (if newsz \<ge> oldsz then Ok oldsz s
      else run (deallocuvm_loop pd (PGROUNDUP newsz) oldsz s) (\<lambda>_ s. Ok newsz s))"

definition freevm :: "u32 \<Rightarrow> 'z vm_scheme \<Rightarrow> ('z vm_scheme, unit) res" where
  "freevm pd s =
     (if pd = 0 then Panic ''freevm: no pgdir''
      else run (deallocuvm pd KERNBASE 0 s) (\<lambda>_ s.
        run (for_each [0..<NPDENTRIES] (\<lambda>i s.
          let pde = load32 (mem s) (pd + 4 * of_nat i) in
          if pde AND PTE_P \<noteq> 0 then kfree (P2V (PTE_ADDR pde)) s else Ok () s) s) (\<lambda>_ s.
        kfree pd s)))"

section \<open>The kernel part of an address space\<close>

definition kmap_table :: "u32 \<Rightarrow> kmap list" where
  "kmap_table dat =
     [\<lparr>virt = KERNBASE, phys_start = 0, phys_end = EXTMEM, kperm = PTE_W\<rparr>,
      \<lparr>virt = KERNLINK, phys_start = V2P KERNLINK, phys_end = V2P dat, kperm = 0\<rparr>,
      \<lparr>virt = dat, phys_start = V2P dat, phys_end = PHYSTOP, kperm = PTE_W\<rparr>,
      \<lparr>virt = DEVSPACE, phys_start = DEVSPACE, phys_end = 0, kperm = PTE_W\<rparr>]"

fun setupkvm_loop :: "u32 \<Rightarrow> kmap list \<Rightarrow> 'z vm_scheme \<Rightarrow> ('z vm_scheme, u32) res" where
  "setupkvm_loop pd [] s = Ok pd s"
| "setupkvm_loop pd (k # ks) s =
     run (mappages pd (virt k) (phys_end k - phys_start k) (phys_start k) (kperm k) s) (\<lambda>r s.
     if r < 0 then run (freevm pd s) (\<lambda>_ s. Ok 0 s)
     else setupkvm_loop pd ks s)"

definition setupkvm :: "'z vm_scheme \<Rightarrow> ('z vm_scheme, u32) res" where
  "setupkvm s =
     run (kalloc s) (\<lambda>pd s.
     if pd = 0 then Ok 0 s
     else
       let s = s\<lparr>mem := memset pd 0 PGSIZE (mem s)\<rparr> in
       if P2V PHYSTOP > DEVSPACE then Panic ''PHYSTOP too high''
       else setupkvm_loop pd (kmap_table (data_addr s)) s)"

text \<open>
  \<open>lcr3\<close> loads the register of the executing processor, whether or not its interrupts
  are on.
\<close>

definition lcr3 :: "u32 \<Rightarrow> 'z vm_scheme \<Rightarrow> 'z vm_scheme" where
  "lcr3 v s = upd_cpu (me s) (\<lambda>k. k\<lparr>cr3 := v\<rparr>) s"

definition ltr :: "u16 \<Rightarrow> 'z vm_scheme \<Rightarrow> 'z vm_scheme" where
  "ltr v s = upd_cpu (me s) (\<lambda>k. k\<lparr>tr := v\<rparr>) s"

definition switchkvm :: "'z vm_scheme \<Rightarrow> 'z vm_scheme" where
  "switchkvm s = lcr3 (V2P (kpgdir s)) s"

definition kvmalloc :: "'z vm_scheme \<Rightarrow> ('z vm_scheme, unit) res" where
  "kvmalloc s = run (setupkvm s) (\<lambda>pd s. Ok () (switchkvm (s\<lparr>kpgdir := pd\<rparr>)))"

text \<open>\<open>STS_T32A\<close> is 9; the task state takes 104 bytes.\<close>

definition switchuvm :: "nat option \<Rightarrow> 'z vm_scheme \<Rightarrow> ('z vm_scheme, unit) res" where
  "switchuvm p s =
     (case p of None \<Rightarrow> Panic ''switchuvm: no process''
      | Some i \<Rightarrow>
        if kstack (procs s ! i) = 0 then Panic ''switchuvm: no kstack''
        else if pgdir (procs s ! i) = 0 then Panic ''switchuvm: no pgdir''
        else
          run (pushcli s) (\<lambda>_ s.
          run (mycpu s) (\<lambda>c s.
          let s = upd_cpu c (\<lambda>k. k\<lparr>gdt := (gdt k)[SEG_TSS := SEG16 9 (ts_addr s c) 103 0]\<rparr>) s;
              s = upd_cpu c (\<lambda>k. k\<lparr>gdt := (gdt k)[SEG_TSS := (gdt k ! SEG_TSS)\<lparr>sd_s := 0\<rparr>]\<rparr>) s;
              s = upd_cpu c (\<lambda>k. k\<lparr>cpu_ts := (cpu_ts k)\<lparr>ss0 := of_nat (8 * SEG_KDATA)\<rparr>\<rparr>) s;
              s = upd_cpu c (\<lambda>k. k\<lparr>cpu_ts := (cpu_ts k)\<lparr>esp0 := kstack (procs s ! i) + KSTACKSIZE\<rparr>\<rparr>) s;
              s = upd_cpu c (\<lambda>k. k\<lparr>cpu_ts := (cpu_ts k)\<lparr>iomb := 0xFFFF\<rparr>\<rparr>) s;
              s = ltr (of_nat (8 * SEG_TSS)) s;
              s = lcr3 (V2P (pgdir (procs s ! i))) s in
          popcli s)))"

section \<open>User memory\<close>

definition inituvm :: "u32 \<Rightarrow> u32 \<Rightarrow> u32 \<Rightarrow> 'z vm_scheme \<Rightarrow> ('z vm_scheme, unit) res" where
  "inituvm pd init sz0 s =
     (if sz0 \<ge> PGSIZE then Panic ''inituvm: more than a page''
      else run (kalloc s) (\<lambda>m s.
        let s = s\<lparr>mem := memset m 0 PGSIZE (mem s)\<rparr> in
        run (mappages pd 0 PGSIZE (V2P m) (PTE_W OR PTE_U) s) (\<lambda>_ s.
        Ok () (s\<lparr>mem := memmove m init sz0 (mem s)\<rparr>))))"

function allocuvm_loop :: "u32 \<Rightarrow> u32 \<Rightarrow> u32 \<Rightarrow> u32 \<Rightarrow> 'z vm_scheme \<Rightarrow> ('z vm_scheme, u32) res" where
  "allocuvm_loop pd a oldsz newsz s =
     (if a < newsz then
        run (kalloc s) (\<lambda>m s.
        if m = 0 then
          run (cprintf (''allocuvm out of memory'' @ [CHR 0x0A]) [] s) (\<lambda>_ s.
          run (deallocuvm pd newsz oldsz s) (\<lambda>_ s. Ok 0 s))
        else
          let s = s\<lparr>mem := memset m 0 PGSIZE (mem s)\<rparr> in
          run (mappages pd a PGSIZE (V2P m) (PTE_W OR PTE_U) s) (\<lambda>r s.
          if r < 0 then
            run (cprintf (''allocuvm out of memory (2)'' @ [CHR 0x0A]) [] s) (\<lambda>_ s.
            run (deallocuvm pd newsz oldsz s) (\<lambda>_ s.
            run (kfree m s) (\<lambda>_ s. Ok 0 s)))
          else if a + PGSIZE \<le> a then Spin
          else allocuvm_loop pd (a + PGSIZE) oldsz newsz s))
      else Ok newsz s)"
  by pat_completeness auto
termination
  by (relation "measure (\<lambda>(pd, a, oldsz, newsz, s). unat newsz - unat a)")
    (simp, simp only: in_measure prod.case, rule word_up_less)

declare allocuvm_loop.simps [simp del]

definition allocuvm :: "u32 \<Rightarrow> u32 \<Rightarrow> u32 \<Rightarrow> 'z vm_scheme \<Rightarrow> ('z vm_scheme, u32) res" where
  "allocuvm pd oldsz newsz s =
     (if newsz \<ge> KERNBASE then Ok 0 s
      else if newsz < oldsz then Ok oldsz s
      else allocuvm_loop pd (PGROUNDUP oldsz) oldsz newsz s)"

definition clearpteu :: "u32 \<Rightarrow> u32 \<Rightarrow> 'z vm_scheme \<Rightarrow> ('z vm_scheme, unit) res" where
  "clearpteu pd uva s =
     run (walkpgdir pd uva False s) (\<lambda>pte s.
     if pte = 0 then Panic ''clearpteu''
     else Ok () (s\<lparr>mem := store32 pte (load32 (mem s) pte AND NOT PTE_U) (mem s)\<rparr>))"

function copyuvm_loop :: "u32 \<Rightarrow> u32 \<Rightarrow> u32 \<Rightarrow> u32 \<Rightarrow> 'z vm_scheme \<Rightarrow> ('z vm_scheme, u32) res" where
  "copyuvm_loop pd d i sz0 s =
     (if i < sz0 then
        run (walkpgdir pd i False s) (\<lambda>pte s.
        if pte = 0 then Panic ''copyuvm: pte should exist''
        else if load32 (mem s) pte AND PTE_P = 0 then Panic ''copyuvm: page not present''
        else
          let pa = PTE_ADDR (load32 (mem s) pte);
              flags = PTE_FLAGS (load32 (mem s) pte) in
          run (kalloc s) (\<lambda>m s.
          if m = 0 then run (freevm d s) (\<lambda>_ s. Ok 0 s)
          else
            let s = s\<lparr>mem := memmove m (P2V pa) PGSIZE (mem s)\<rparr> in
            run (mappages d i PGSIZE (V2P m) flags s) (\<lambda>r s.
            if r < 0 then run (kfree m s) (\<lambda>_ s. run (freevm d s) (\<lambda>_ s. Ok 0 s))
            else if i + PGSIZE \<le> i then Spin
            else copyuvm_loop pd d (i + PGSIZE) sz0 s)))
      else Ok d s)"
  by pat_completeness auto
termination
  by (relation "measure (\<lambda>(pd, d, i, sz0, s). unat sz0 - unat i)")
    (simp, simp only: in_measure prod.case, rule word_up_less)

declare copyuvm_loop.simps [simp del]

definition copyuvm :: "u32 \<Rightarrow> u32 \<Rightarrow> 'z vm_scheme \<Rightarrow> ('z vm_scheme, u32) res" where
  "copyuvm pd sz0 s =
     run (setupkvm s) (\<lambda>d s. if d = 0 then Ok 0 s else copyuvm_loop pd d 0 sz0 s)"

text \<open>
  \<open>uva2ka\<close> reads the entry without looking whether \<open>walkpgdir\<close> found a page table: for
  an address that has none it reads the word at address zero of the current address space.
\<close>

definition uva2ka :: "u32 \<Rightarrow> u32 \<Rightarrow> 'z vm_scheme \<Rightarrow> ('z vm_scheme, u32) res" where
  "uva2ka pd uva s =
     run (walkpgdir pd uva False s) (\<lambda>pte s.
     let e = load32 (mem s) pte in
     if e AND PTE_P = 0 then Ok 0 s
     else if e AND PTE_U = 0 then Ok 0 s
     else Ok (P2V (PTE_ADDR e)) s)"

lemma page_remainder:
  "unat (va - PGROUNDDOWN va) = unat va mod 4096"
proof -
  have le: "PGROUNDDOWN va \<le> va"
    by (simp add: word_le_nat_alt PGROUNDDOWN_nat)
  have "unat (va - PGROUNDDOWN va) = unat va - 4096 * (unat va div 4096)"
    using unat_sub [OF le] by (simp add: PGROUNDDOWN_nat)
  then show ?thesis by (simp add: minus_mult_div_eq_mod)
qed

lemma copy_chunk_pos: "0 < PGSIZE - (va - PGROUNDDOWN va)"
proof -
  have lt: "unat va mod 4096 < 4096" by simp
  then have "va - PGROUNDDOWN va < PGSIZE" by (simp add: word_less_nat_alt page_remainder)
  then have "PGSIZE - (va - PGROUNDDOWN va) \<noteq> 0" by auto
  then show ?thesis by (simp add: word_gt_0)
qed

lemma copy_chunk_less:
  assumes "0 < len" "(n :: u32) = (if c > len then len else c)" "0 < c"
  shows "unat (len - n) < unat len"
proof -
  have "n \<le> len" "n \<noteq> 0" using assms by auto
  then have "unat (len - n) = unat len - unat n" "unat n \<le> unat len" "unat n \<noteq> 0"
    by (simp_all add: unat_sub word_le_nat_alt unsigned_eq_0_iff)
  then show ?thesis by linarith
qed

text \<open>The buffer to be copied is given by the bytes \<open>buf\<close> it holds.\<close>

function copyout :: "u32 \<Rightarrow> u32 \<Rightarrow> u8 list \<Rightarrow> u32 \<Rightarrow> 'z vm_scheme \<Rightarrow> ('z vm_scheme, int) res" where
  "copyout pd va buf len s =
     (if len > 0 then
        let va0 = PGROUNDDOWN va in
        run (uva2ka pd va0 s) (\<lambda>pa0 s.
        if pa0 = 0 then Ok (-1) s
        else
          let n = PGSIZE - (va - va0);
              n = (if n > len then len else n);
              s = s\<lparr>mem := store_bytes (pa0 + (va - va0)) (take (unat n) buf) (mem s)\<rparr> in
          copyout pd (va0 + PGSIZE) (drop (unat n) buf) (len - n) s)
      else Ok 0 s)"
  by pat_completeness auto
termination
  by (relation "measure (\<lambda>(pd, va, buf, len, s). unat len)")
    (simp, simp only: in_measure prod.case, rule copy_chunk_less, assumption, rule refl, rule copy_chunk_pos)

declare copyout.simps [simp del]

section \<open>The page walk of the processor\<close>

text \<open>
  What the kernel reads and writes through a user pointer: the byte that the page table in
  \<open>cr3\<close> gives for the address, as a kernel address.  Without a present entry, or for a write
  without \<open>PTE_W\<close>, the access faults.
\<close>

definition mmu_walk :: "u32 \<Rightarrow> u32 \<Rightarrow> 'z vm_scheme \<Rightarrow> u32 option" where
  "mmu_walk need va s =
     (let pde = load32 (mem s) (P2V (cr3 (my_cpu s)) + 4 * PDX va) in
      if pde AND need \<noteq> need then None
      else
        let pte = load32 (mem s) (P2V (PTE_ADDR pde) + 4 * PTX va) in
        if pte AND need \<noteq> need then None else Some (P2V (PTE_ADDR pte) + (va AND 0xFFF)))"

definition user_load :: "u32 \<Rightarrow> nat \<Rightarrow> 'z vm_scheme \<Rightarrow> ('z vm_scheme, u8 list) res" where
  "user_load va n s =
     (case those (map (\<lambda>i. map_option (mem s) (mmu_walk PTE_P (va + of_nat i) s)) [0..<n]) of
        None \<Rightarrow> Panic ''trap'' | Some bs \<Rightarrow> Ok bs s)"

definition user_store :: "u32 \<Rightarrow> u8 list \<Rightarrow> 'z vm_scheme \<Rightarrow> ('z vm_scheme, unit) res" where
  "user_store va bs s =
     for_each [0..<length bs] (\<lambda>i s.
       case mmu_walk (PTE_P OR PTE_W) (va + of_nat i) s of
         None \<Rightarrow> Panic ''trap'' | Some a \<Rightarrow> Ok () (s\<lparr>mem := (mem s)(a := bs ! i)\<rparr>)) s"

section \<open>Switching address spaces\<close>

lemma cpu_view_fields [simp]:
  "cpu_view (k\<lparr>gdt := g\<rparr>) = cpu_view k" "cpu_view (k\<lparr>cpu_ts := x\<rparr>) = cpu_view k"
  "cpu_view (k\<lparr>cr3 := v\<rparr>) = cpu_view k" "cpu_view (k\<lparr>tr := w\<rparr>) = cpu_view k"
  by (simp_all add: cpu_view_def)

lemma lcr3_frame: "balanced s (lcr3 v s)" "mem (lcr3 v s) = mem s" "machine.more (lcr3 v s) = machine.more s"
  using balanced_upd_cpu [of "\<lambda>k. k\<lparr>cr3 := v\<rparr>" s "me s"] by (simp_all add: lcr3_def) (simp_all add: upd_cpu_def)

lemma ltr_frame: "balanced s (ltr v s)" "mem (ltr v s) = mem s" "machine.more (ltr v s) = machine.more s"
  using balanced_upd_cpu [of "\<lambda>k. k\<lparr>tr := v\<rparr>" s "me s"] by (simp_all add: ltr_def) (simp_all add: upd_cpu_def)

lemma machine_more_vm:
  "machine.more t = machine.more s \<Longrightarrow> procs t = procs s \<and> nextpid t = nextpid s \<and> ticks t = ticks s
     \<and> PromoteAtTime t = PromoteAtTime s \<and> kpgdir t = kpgdir s \<and> freelist t = freelist s \<and> use_lock t = use_lock s
     \<and> kend t = kend s \<and> ctx_esp t = ctx_esp s \<and> initproc t = initproc s"
  for s t :: "'z vm_scheme"
  by (cases s, cases t) simp

lemma switchkvm_frame:
  "balanced s (switchkvm s)" "mem (switchkvm s) = mem s" "machine.more (switchkvm s) = machine.more s"
  by (simp_all add: switchkvm_def lcr3_frame)

lemma switchuvm_ok:
  assumes "cpu_inv s" "kstack (procs s ! i) \<noteq> 0" "pgdir (procs s ! i) \<noteq> 0"
  shows "returns (switchuvm (Some i) s) (\<lambda>_ t. balanced s t \<and> mem t = mem s \<and>
     machine.more t = machine.more s \<and> cr3 (my_cpu t) = V2P (pgdir (procs s ! i)) \<and>
     esp0 (cpu_ts (my_cpu t)) = kstack (procs s ! i) + KSTACKSIZE)"
proof -
  let ?p = "pushed s"
  have l: "me s < length (cpus s)" using assms(1) by (rule me_less)
  have c: "mycpu ?p = Ok (me s) ?p"
    using mycpu_ok [OF cpu_inv_pushed [OF assms(1)]] by (simp add: pushed_fields)
  have mp: "procs ?p = procs s" "mem ?p = mem s" "machine.more ?p = machine.more s" "ts_addr ?p = ts_addr s"
    by (simp_all add: pushed_def)
  let ?f = "\<lambda>k. (k\<lparr>gdt := ((gdt k)[SEG_TSS := SEG16 9 (ts_addr s (me s)) 103 0])
      [SEG_TSS := ((gdt k)[SEG_TSS := SEG16 9 (ts_addr s (me s)) 103 0] ! SEG_TSS)\<lparr>sd_s := 0\<rparr>],
      cpu_ts := (cpu_ts k)\<lparr>ss0 := of_nat (8 * SEG_KDATA), esp0 := kstack (procs s ! i) + KSTACKSIZE, iomb := 0xFFFF\<rparr>,
      tr := of_nat (8 * SEG_TSS), cr3 := V2P (pgdir (procs s ! i))\<rparr>)"
  let ?q = "upd_cpu (me s) ?f ?p"
  have bq: "balanced ?p ?q" by (rule balanced_upd_cpu) (simp add: cpu_view_def)
  have mq: "me (upd_cpu (me s) g ?p) = me s" if "\<And>k. apicid (g k) = apicid k" for g
    using me_cong [of "upd_cpu (me s) g ?p" ?p] that by (simp add: upd_cpu_def map_update_same)
  have lp: "me s < length (cpus ?p)" using l by (simp add: cpus_pushed)
  have two: "upd_cpu (me s) g (upd_cpu (me s) f t) = upd_cpu (me s) (\<lambda>k. g (f k)) t"
    if "me s < length (cpus t)" for f g and t :: "'a vm_scheme"
    using that by (simp add: upd_cpu_def)
  have lu: "length (cpus (upd_cpu (me s) f t)) = length (cpus t)" for f and t :: "'a vm_scheme"
    by (simp add: upd_cpu_def)
  have pu: "procs (upd_cpu (me s) f t) = procs t" for f and t :: "'a vm_scheme" by (simp add: upd_cpu_def)
  have e: "switchuvm (Some i) s = popcli ?q"
    using assms lp
    by (simp add: switchuvm_def pushcli_ok c Let_def two lu pu mp ltr_def lcr3_def mq)
  have r: "switchuvm (Some i) s = Ok () (popped ?q)" "balanced s (popped ?q)"
    using popcli_balanced [OF assms(1) bq] by (simp_all add: e)
  have f: "mem (popped ?q) = mem s" "machine.more (popped ?q) = machine.more s"
    by (simp_all add: popped_def upd_cpu_def mp)
  have "cpus (popped ?q) ! me s = (?f (cpus ?p ! me s))\<lparr>ncli := ncli (cpus ?p ! me s) - 1\<rparr>"
    using lp mq [of ?f] by (simp add: cpus_popped) (simp add: upd_cpu_def)
  moreover have "me (popped ?q) = me s" using mq [of ?f] by simp
  ultimately show ?thesis using r f by simp
qed

text \<open>A sample state: the running process 1 and a sleeper.\<close>

definition vmstate0 :: vm where
  "vmstate0 = ptable.extend ptable0 (vm.fields 0x80500000 0x80108000 (\<lambda>_. 0x80112000))"

lemma vmstate0_view: "ptable.truncate vmstate0 = ptable0" "machine.truncate vmstate0 = machine.truncate ptable0"
  by (simp_all add: vmstate0_def ptable.extend_def vm.fields_def ptable.truncate_def machine.truncate_def)

end
