(* ===== verification/Clock.thy ===== *)
theory Clock
  imports Prelude
begin

text \<open>
  The real-time clock, \<open>cmostime\<close> of \<open>lab2/lapic.c\<close>, and the pseudo random numbers that
  the lottery scheduler draws from it, \<open>rand\<close> of \<open>lab2/proc.c\<close>.  The clock chip is a
  parameter: \<open>clk n r\<close> is the byte that the \<open>n\<close>-th read of the chip finds in register
  \<open>r\<close>.
\<close>

record rtcdate =
  second :: u32
  minute :: u32
  hour :: u32
  day :: u32
  month :: u32
  year :: u32

type_synonym rtc = "nat \<Rightarrow> u32 \<Rightarrow> u8"

section \<open>Reading the clock\<close>

definition cmos_read :: "rtc \<Rightarrow> u32 \<Rightarrow> nat \<Rightarrow> u32 \<times> nat" where
  "cmos_read clk reg n = (ucast (clk n reg), n + 1)"

definition fill_rtcdate :: "rtc \<Rightarrow> nat \<Rightarrow> rtcdate \<times> nat" where
  "fill_rtcdate clk n =
     (let (sec, n) = cmos_read clk 0x00 n;
          (mi, n) = cmos_read clk 0x02 n;
          (ho, n) = cmos_read clk 0x04 n;
          (da, n) = cmos_read clk 0x07 n;
          (mo, n) = cmos_read clk 0x08 n;
          (ye, n) = cmos_read clk 0x09 n in
      (\<lparr>second = sec, minute = mi, hour = ho, day = da, month = mo, year = ye\<rparr>, n))"

text \<open>
  The clock is read until it gives the same date twice with no update in progress; with
  a clock that never settles the loop has no end, which is the value \<open>None\<close>.
\<close>

partial_function (option) cmos_stable :: "rtc \<Rightarrow> nat \<Rightarrow> (rtcdate \<times> nat) option" where
  "cmos_stable clk n =
     (let (t1, n) = fill_rtcdate clk n;
          (st, n) = cmos_read clk 0x0a n in
      if st AND 0x80 \<noteq> 0 then cmos_stable clk n
      else let (t2, n) = fill_rtcdate clk n in
        if t1 = t2 then Some (t1, n) else cmos_stable clk n)"

definition CONV :: "u32 \<Rightarrow> u32" where
  "CONV x = drop_bit 4 x * 10 + (x AND 0xf)"

definition cmostime :: "rtc \<Rightarrow> nat \<Rightarrow> (rtcdate \<times> nat) option" where
  "cmostime clk n =
     (let (sb, n) = cmos_read clk 0x0b n;
          bcd = (sb AND 4 = 0) in
      case cmos_stable clk n of None \<Rightarrow> None
      | Some (t1, n) \<Rightarrow>
        let t1 = (if bcd then \<lparr>second = CONV (second t1), minute = CONV (minute t1), hour = CONV (hour t1),
                    day = CONV (day t1), month = CONV (month t1), year = CONV (year t1)\<rparr> else t1) in
        Some (t1\<lparr>year := year t1 + 2000\<rparr>, n))"

section \<open>Random numbers\<close>

definition timestamp :: "rtcdate \<Rightarrow> int" where
  "timestamp r = sint (second r + 60 * minute r + 3600 * hour r + 86400 * (day r - 1)
     + 2592000 * (month r - 1) + 31536000 * (year r - 1970))"

definition rand_of :: "rtcdate \<Rightarrow> int" where
  "rand_of r =
     (let seed = timestamp r smod 100;
          seed = 1593 * seed + 1042 in
      seed smod 4930)"

definition rand :: "rtc \<Rightarrow> nat \<Rightarrow> (int \<times> nat) option" where
  "rand clk n = (case cmostime clk n of None \<Rightarrow> None | Some (r, n) \<Rightarrow> Some (rand_of r, n))"

section \<open>Behaviour\<close>

text \<open>A chip that shows one date and no update in progress is read in two rounds.\<close>

definition shown :: "(u32 \<Rightarrow> u8) \<Rightarrow> rtcdate" where
  "shown regs = \<lparr>second = ucast (regs 0x00), minute = ucast (regs 0x02), hour = ucast (regs 0x04),
     day = ucast (regs 0x07), month = ucast (regs 0x08), year = ucast (regs 0x09)\<rparr>"

lemma fill_steady: "fill_rtcdate (\<lambda>_. regs) n = (shown regs, n + 6)"
  by (simp add: fill_rtcdate_def cmos_read_def shown_def)

lemma cmos_stable_steady:
  assumes "(ucast (regs 0x0a) :: u32) AND 0x80 = 0"
  shows "cmos_stable (\<lambda>_. regs) n = Some (shown regs, n + 13)"
  using assms by (subst cmos_stable.simps) (simp add: fill_steady cmos_read_def)

lemma smod_bounds:
  fixes a b :: int
  assumes "0 < b"
  shows "- b < a smod b" "a smod b < b" "0 \<le> a \<Longrightarrow> 0 \<le> a smod b"
proof -
  define m where "m = \<bar>a\<bar> mod b"
  have m: "0 \<le> m" "m < b" using assms by (simp_all add: m_def)
  have e: "a smod b = sgn a * m" using assms by (simp add: smod_int_alt_def m_def)
  consider "a = 0" | "0 < a" | "a < 0" by linarith
  then have "- b < a smod b \<and> a smod b < b \<and> (0 \<le> a \<longrightarrow> 0 \<le> a smod b)"
    by cases (use m assms e in \<open>simp_all add: sgn_if\<close>)
  then show "- b < a smod b" "a smod b < b" "0 \<le> a \<Longrightarrow> 0 \<le> a smod b" by simp_all
qed

lemma rand_of_bounds: "- 4930 < rand_of r" "rand_of r < 4930" "0 \<le> timestamp r \<Longrightarrow> 0 \<le> rand_of r"
proof -
  show "- 4930 < rand_of r" "rand_of r < 4930"
    by (simp_all add: rand_of_def Let_def smod_bounds)
  assume "0 \<le> timestamp r"
  then have "0 \<le> timestamp r smod 100" by (simp add: smod_bounds)
  then show "0 \<le> rand_of r" by (simp add: rand_of_def Let_def smod_bounds)
qed

text \<open>There are at most 199 different draws, one for each seed.\<close>

lemma rand_of_values: "rand_of r \<in> (\<lambda>k. (1593 * k + 1042) smod 4930) ` {-99..99}"
proof -
  have "timestamp r smod 100 \<in> {-99..99}"
    using smod_bounds(1,2) [of 100 "timestamp r"] by simp
  then show ?thesis by (auto simp: rand_of_def Let_def)
qed

end
