(* ===== verification/Sched.thy ===== *)
theory Sched
  imports Vm Clock
begin

text \<open>
  The three schedulers of \<open>lab2/proc.c\<close>: round robin (\<open>scheduler\<close>), the multi-level
  feedback queue (\<open>mlfqsched\<close>) and the lottery (\<open>lotterysched\<close>).

  What a process does between the switch to it and its switch back is a parameter
  \<open>ex\<close>: \<open>ex i\<close> is the run of process \<open>i\<close> from the point where \<open>swtch\<close> enters its context
  to the point where it switches to the scheduler.  The locale \<open>process_exec\<close> states what
  the schedulers rely on, and is interpreted on a process that resumes from \<open>yield\<close> and
  yields again.  Each \<open>for(;;)\<close> of a scheduler is one definition for its body.
\<close>

type_synonym 's exec = "nat \<Rightarrow> 's \<Rightarrow> ('s, unit) res"

definition set_proc :: "nat \<Rightarrow> nat option \<Rightarrow> 'z vm_scheme \<Rightarrow> 'z vm_scheme" where
  "set_proc c p s = upd_cpu c (\<lambda>k. k\<lparr>cpu_proc := p\<rparr>) s"

section \<open>Round robin\<close>

definition scheduler_slot :: "'z vm_scheme exec \<Rightarrow> nat \<Rightarrow> nat \<Rightarrow> 'z vm_scheme \<Rightarrow> ('z vm_scheme, unit) res" where
  "scheduler_slot ex c i s =
     (if pstate (procs s ! i) \<noteq> RUNNABLE then Ok () s
      else
        let s = set_proc c (Some i) s in
        run (switchuvm (Some i) s) (\<lambda>_ s.
        let s = upd_proc i (\<lambda>q. q\<lparr>pstate := RUNNING\<rparr>) s in
        run (ex i s) (\<lambda>_ s.
        let s = switchkvm s in
        Ok () (set_proc c None s))))"

definition scheduler_iter :: "'z vm_scheme exec \<Rightarrow> nat \<Rightarrow> 'z vm_scheme \<Rightarrow> ('z vm_scheme, unit) res" where
  "scheduler_iter ex c s =
     (let s = s\<lparr>intr := True\<rparr> in
      run (acquire PtableLock s) (\<lambda>_ s.
      run (for_each [0..<NPROC] (scheduler_slot ex c) s) (\<lambda>_ s.
      release PtableLock s)))"

section \<open>Multi-level feedback queue\<close>

definition boost :: "proc \<Rightarrow> proc" where
  "boost p =
     (if pstate p \<noteq> ZOMBIE then
        if priority p < MAXPRIORITY then p\<lparr>priority := priority p + 1, budget := DEFAULT_BUDGET\<rparr> else p
      else p)"

definition adjustPriority :: "'z ptable_scheme \<Rightarrow> 'z ptable_scheme" where
  "adjustPriority s = s\<lparr>procs := map boost (procs s)\<rparr>"

text \<open>Lines 520-542: what the scheduler charges to a process that ran for \<open>dt\<close> ticks.\<close>

definition charge :: "int \<Rightarrow> proc \<Rightarrow> proc" where
  "charge dt p =
     (let p = p\<lparr>budget := c_int (budget p - dt)\<rparr> in
      if budget p \<le> 0 then
        if priority p > 0 then p\<lparr>priority := priority p - 1, budget := DEFAULT_BUDGET\<rparr>
        else p\<lparr>budget := DEFAULT_BUDGET\<rparr>
      else p)"

definition promote :: "'z ptable_scheme \<Rightarrow> 'z ptable_scheme" where
  "promote s =
     (if PromoteAtTime s \<le> ticks s
      then let s = adjustPriority s in s\<lparr>PromoteAtTime := ticks s + TICKS_TO_PROMOTE\<rparr>
      else s)"

definition mlfq_slot :: "'z vm_scheme exec \<Rightarrow> nat \<Rightarrow> int \<Rightarrow> int \<Rightarrow> nat \<Rightarrow> 'z vm_scheme \<Rightarrow> ('z vm_scheme, int) res" where
  "mlfq_slot ex c cp count i s =
     (if pstate (procs s ! i) \<noteq> RUNNABLE then Ok count s
      else if priority (procs s ! i) = cp then
        let count = count + 1;
            s = set_proc c (Some i) s in
        run (switchuvm (Some i) s) (\<lambda>_ s.
        let s = upd_proc i (\<lambda>q. q\<lparr>num_scheduled := c_int (num_scheduled q + 1)\<rparr>) s;
            s = upd_proc i (\<lambda>q. q\<lparr>pstate := RUNNING\<rparr>) s;
            time_in = sint (ticks s) in
        run (ex i s) (\<lambda>_ s.
        let time_out = sint (ticks s);
            s = switchkvm s;
            dt = c_int (time_out - time_in);
            s = upd_proc i (\<lambda>q. q\<lparr>pticks := c_int (pticks q + dt)\<rparr>) s;
            s = set_proc c None s;
            s = upd_proc i (charge dt) s in
        Ok count (promote s)))
      else Ok count s)"

fun mlfq_table :: "'z vm_scheme exec \<Rightarrow> nat \<Rightarrow> int \<Rightarrow> int \<Rightarrow> nat list \<Rightarrow> 'z vm_scheme \<Rightarrow> ('z vm_scheme, int) res" where
  "mlfq_table ex c cp count [] s = Ok count s"
| "mlfq_table ex c cp count (i # is) s =
     run (mlfq_slot ex c cp count i s) (\<lambda>count s. mlfq_table ex c cp count is s)"

text \<open>
  The loop over the priority levels stays at a level as long as a pass over the table
  ran something, so it need not end: \<open>None\<close>.
\<close>

partial_function (option) mlfq_levels ::
    "'z vm_scheme exec \<Rightarrow> nat \<Rightarrow> int \<Rightarrow> 'z vm_scheme \<Rightarrow> ('z vm_scheme, unit) res option" where
  "mlfq_levels ex c cp s =
     (if cp \<ge> 0 then
        (case mlfq_table ex c cp 0 [0..<NPROC] s of
           Ok count s \<Rightarrow> mlfq_levels ex c (if count = 0 then cp - 1 else cp) s
         | Panic e \<Rightarrow> Some (Panic e) | Spin \<Rightarrow> Some Spin | Switch s \<Rightarrow> Some (Switch s))
      else Some (Ok () s))"

definition mlfq_iter :: "'z vm_scheme exec \<Rightarrow> nat \<Rightarrow> 'z vm_scheme \<Rightarrow> ('z vm_scheme, unit) res option" where
  "mlfq_iter ex c s =
     (let s = s\<lparr>intr := True\<rparr> in
      case acquire PtableLock s of
        Ok _ s \<Rightarrow> (case mlfq_levels ex c MAXPRIORITY s of
           None \<Rightarrow> None | Some r \<Rightarrow> Some (run r (\<lambda>_ s. release PtableLock s)))
      | Panic e \<Rightarrow> Some (Panic e) | Spin \<Rightarrow> Some Spin | Switch s \<Rightarrow> Some (Switch s))"

section \<open>Lottery\<close>

fun sum_runnable :: "int \<Rightarrow> proc list \<Rightarrow> int" where
  "sum_runnable n [] = n"
| "sum_runnable n (p # ps) =
     (if pstate p = RUNNABLE then sum_runnable (c_int (n + num_tickets p)) ps else sum_runnable n ps)"

definition total_runnable_tickets :: "'z ptable_scheme \<Rightarrow> ('z ptable_scheme, int) res" where
  "total_runnable_tickets s =
     run (acquire PtableLock s) (\<lambda>_ s.
     let n = sum_runnable 0 (procs s) in
     run (release PtableLock s) (\<lambda>_ s. Ok n s))"

text \<open>Lines 698-711: the slot that the chosen ticket falls on.\<close>

fun lottery_pick :: "int \<Rightarrow> int \<Rightarrow> nat \<Rightarrow> proc list \<Rightarrow> nat option" where
  "lottery_pick ticket counter i [] = None"
| "lottery_pick ticket counter i (p # ps) =
     (if pstate p \<noteq> RUNNABLE then lottery_pick ticket counter (i + 1) ps
      else
        let counter = c_int (counter + num_tickets p) in
        if counter < ticket then lottery_pick ticket counter (i + 1) ps else Some i)"

definition lottery_run :: "'z vm_scheme exec \<Rightarrow> nat \<Rightarrow> nat \<Rightarrow> 'z vm_scheme \<Rightarrow> ('z vm_scheme, unit) res" where
  "lottery_run ex c i s =
     (let s = set_proc c (Some i) s;
          startticks = sint (ticks s) in
      run (switchuvm (Some i) s) (\<lambda>_ s.
      let s = upd_proc i (\<lambda>q. q\<lparr>num_scheduled := c_int (num_scheduled q + 1)\<rparr>) s;
          s = upd_proc i (\<lambda>q. q\<lparr>pstate := RUNNING\<rparr>) s in
      run (ex i s) (\<lambda>_ s.
      let s = switchkvm s;
          endticks = sint (ticks s);
          s = upd_proc i (\<lambda>q. q\<lparr>pticks := c_int (pticks q + c_int (endticks - startticks))\<rparr>) s in
      Ok () (set_proc c None s))))"

text \<open>Lines 663-683, the count of the tickets of the runnable processes.\<close>

definition lottery_count :: "'z vm_scheme \<Rightarrow> ('z vm_scheme, int) res" where
  "lottery_count s =
     (let s = s\<lparr>intr := True\<rparr> in
      run (acquire PtableLock s) (\<lambda>_ s.
      let runnable_tickets = sum_runnable 0 (procs s) in
      run (release PtableLock s) (\<lambda>_ s. Ok runnable_tickets s)))"

text \<open>Lines 692-742; \<open>rnd\<close> is the number that \<open>rand\<close> has drawn.\<close>

definition lottery_draw :: "'z vm_scheme exec \<Rightarrow> nat \<Rightarrow> int \<Rightarrow> int \<Rightarrow> 'z vm_scheme \<Rightarrow> ('z vm_scheme, unit) res" where
  "lottery_draw ex c rnd runnable_tickets s =
     (let chosen_ticket = rnd smod runnable_tickets + 1 in
      run (acquire PtableLock s) (\<lambda>_ s.
      run (case lottery_pick chosen_ticket 0 0 (procs s) of
             None \<Rightarrow> Ok () s | Some i \<Rightarrow> lottery_run ex c i s) (\<lambda>_ s.
      release PtableLock s)))"

section \<open>The loops\<close>

text \<open>A scheduler starts with no process on its processor and never returns: \<open>n\<close> iterations.\<close>

fun iterate :: "nat \<Rightarrow> ('s \<Rightarrow> ('s, unit) res) \<Rightarrow> 's \<Rightarrow> ('s, unit) res" where
  "iterate 0 f s = Ok () s"
| "iterate (Suc n) f s = run (f s) (\<lambda>_ s. iterate n f s)"

fun iterate_option :: "nat \<Rightarrow> ('s \<Rightarrow> ('s, unit) res option) \<Rightarrow> 's \<Rightarrow> ('s, unit) res option" where
  "iterate_option 0 f s = Some (Ok () s)"
| "iterate_option (Suc n) f s = (case f s of
     None \<Rightarrow> None | Some (Ok _ s) \<Rightarrow> iterate_option n f s | Some r \<Rightarrow> Some r)"

text \<open>The clock is read, from its \<open>k\<close>-th read on, only when there is a ticket to draw.\<close>

fun lottery_loop :: "nat \<Rightarrow> rtc \<Rightarrow> nat \<Rightarrow> 'z vm_scheme exec \<Rightarrow> nat \<Rightarrow> 'z vm_scheme \<Rightarrow> ('z vm_scheme, unit) res option" where
  "lottery_loop 0 clk k ex c s = Some (Ok () s)"
| "lottery_loop (Suc n) clk k ex c s =
     (case lottery_count s of
        Ok runnable_tickets s \<Rightarrow>
          if runnable_tickets > 0 then
            (case rand clk k of None \<Rightarrow> None
             | Some (rnd, k) \<Rightarrow> (case lottery_draw ex c rnd runnable_tickets s of
                 Ok _ s \<Rightarrow> lottery_loop n clk k ex c s | r \<Rightarrow> Some r))
          else lottery_loop n clk k ex c s
      | Panic e \<Rightarrow> Some (Panic e) | Spin \<Rightarrow> Some Spin | Switch s \<Rightarrow> Some (Switch s))"

definition scheduler :: "nat \<Rightarrow> 'z vm_scheme exec \<Rightarrow> 'z vm_scheme \<Rightarrow> ('z vm_scheme, unit) res" where
  "scheduler n ex s = run (mycpu s) (\<lambda>c s. iterate n (scheduler_iter ex c) (set_proc c None s))"

definition mlfqsched :: "nat \<Rightarrow> 'z vm_scheme exec \<Rightarrow> 'z vm_scheme \<Rightarrow> ('z vm_scheme, unit) res option" where
  "mlfqsched n ex s = (case mycpu s of
       Ok c s \<Rightarrow> iterate_option n (mlfq_iter ex c) (set_proc c None s)
     | Panic e \<Rightarrow> Some (Panic e) | Spin \<Rightarrow> Some Spin | Switch s \<Rightarrow> Some (Switch s))"

definition lotterysched :: "nat \<Rightarrow> rtc \<Rightarrow> 'z vm_scheme exec \<Rightarrow> 'z vm_scheme \<Rightarrow> ('z vm_scheme, unit) res option" where
  "lotterysched n clk ex s = (case mycpu s of
       Ok c s \<Rightarrow> lottery_loop n clk 0 ex c (set_proc c None s)
     | Panic e \<Rightarrow> Some (Panic e) | Spin \<Rightarrow> Some Spin | Switch s \<Rightarrow> Some (Switch s))"

section \<open>The draw\<close>

definition tickets :: "proc list \<Rightarrow> int" where
  "tickets ps = sum_list (map num_tickets (filter (\<lambda>p. pstate p = RUNNABLE) ps))"

text \<open>Every runnable process has a ticket and the sum of all tickets fits an \<open>int\<close>.\<close>

definition tickets_ok :: "int \<Rightarrow> proc list \<Rightarrow> bool" where
  "tickets_ok n ps \<longleftrightarrow> 0 \<le> n \<and> (\<forall>p \<in> set ps. pstate p = RUNNABLE \<longrightarrow> 1 \<le> num_tickets p) \<and>
     n + tickets ps \<le> 2147483647"

lemma tickets_simps [simp]:
  "tickets [] = 0" "tickets (p # ps) = (if pstate p = RUNNABLE then num_tickets p else 0) + tickets ps"
  by (simp_all add: tickets_def)

lemma tickets_nonneg: "\<forall>p \<in> set ps. pstate p = RUNNABLE \<longrightarrow> 1 \<le> num_tickets p \<Longrightarrow> 0 \<le> tickets ps"
  by (induction ps) auto

lemma tickets_ok_Cons:
  assumes "tickets_ok n (p # ps)"
  shows "pstate p = RUNNABLE \<Longrightarrow> 1 \<le> num_tickets p" "pstate p = RUNNABLE \<Longrightarrow> int_range (n + num_tickets p)"
    "pstate p = RUNNABLE \<Longrightarrow> tickets_ok (n + num_tickets p) ps" "pstate p \<noteq> RUNNABLE \<Longrightarrow> tickets_ok n ps"
  using assms tickets_nonneg [of ps] by (auto simp: tickets_ok_def int_range_def)

lemma sum_runnable_eq: "tickets_ok n ps \<Longrightarrow> sum_runnable n ps = n + tickets ps"
  by (induction n ps rule: sum_runnable.induct) (auto simp: tickets_ok_Cons)

lemma tickets_take_Suc:
  "i < length ps \<Longrightarrow> tickets (take (Suc i) ps) = tickets (take i ps) + (if pstate (ps ! i) = RUNNABLE then num_tickets (ps ! i) else 0)"
  by (simp add: take_Suc_conv_app_nth tickets_def)

text \<open>The slot with index \<open>j\<close> is picked by exactly the tickets of its own interval.\<close>

lemma lottery_pick_iff:
  assumes "tickets_ok n ps" "n < t"
  shows "lottery_pick t n i ps = Some j \<longleftrightarrow> (\<exists>d. j = i + d \<and> d < length ps \<and> pstate (ps ! d) = RUNNABLE \<and>
     n + tickets (take d ps) < t \<and> t \<le> n + tickets (take (Suc d) ps))"
  using assms
proof (induction t n i ps arbitrary: j rule: lottery_pick.induct)
  case (1 t n i)
  then show ?case by simp
next
  case (2 t n i p ps)
  note ok = tickets_ok_Cons [OF "2.prems"(1)]
  have shift: "(\<exists>d. Q d) \<longleftrightarrow> Q 0 \<or> (\<exists>d. Q (Suc d))" for Q :: "nat \<Rightarrow> bool"
    by (metis not0_implies_Suc)
  show ?case
  proof (cases "pstate p = RUNNABLE")
    case False
    then show ?thesis using "2.IH"(1) [of j] ok "2.prems"(2) by (subst shift) auto
  next
    case True
    have ci: "c_int (n + num_tickets p) = n + num_tickets p" using ok(2) [OF True] by simp
    show ?thesis
    proof (cases "n + num_tickets p < t")
      case less: True
      have "lottery_pick t n i (p # ps) = lottery_pick t (n + num_tickets p) (i + 1) ps"
        using True less ci by (simp add: Let_def)
      moreover have "lottery_pick t (n + num_tickets p) (i + 1) ps = Some j \<longleftrightarrow>
          (\<exists>d. j = i + 1 + d \<and> d < length ps \<and> pstate (ps ! d) = RUNNABLE \<and>
            n + num_tickets p + tickets (take d ps) < t \<and> t \<le> n + num_tickets p + tickets (take (Suc d) ps))"
        using "2.IH"(2) [of "n + num_tickets p" j] True less ci ok(3) [OF True] by auto
      ultimately show ?thesis using True less by (subst shift) (auto simp: add.assoc)
    next
      case False
      have "0 \<le> tickets (take d ps)" for d
        using ok(3) [OF True] by (intro tickets_nonneg) (auto simp: tickets_ok_def dest: in_set_takeD)
      then have far: "\<not> n + num_tickets p + tickets (take d ps) < t" for d
        using False add_increasing2 by (metis le_less_trans not_less)
      have "lottery_pick t n i (p # ps) = Some i" using True False ci by (simp add: Let_def)
      then show ?thesis using True False "2.prems"(2) far by (subst shift) (auto simp: add.assoc)
    qed
  qed
qed

lemma lottery_pick_some:
  assumes "tickets_ok n ps" "n < t" "t \<le> n + tickets ps"
  shows "\<exists>j. lottery_pick t n i ps = Some j"
  using assms
proof (induction t n i ps rule: lottery_pick.induct)
  case (1 t n i)
  then show ?case by simp
next
  case (2 t n i p ps)
  note ok = tickets_ok_Cons [OF "2.prems"(1)]
  show ?case
    using "2.IH" "2.prems" ok by (cases "pstate p = RUNNABLE") (auto simp: Let_def)
qed

lemma take_tickets_le: "\<forall>p \<in> set ps. pstate p = RUNNABLE \<longrightarrow> 1 \<le> num_tickets p \<Longrightarrow> tickets (take d ps) \<le> tickets ps"
proof (induction ps arbitrary: d)
  case (Cons p ps)
  then show ?case using tickets_nonneg [of "p # ps"] by (cases d) auto
qed simp

section \<open>Charging and promoting\<close>

lemma charge_inv:
  assumes "proc_inv p" "pstate p \<noteq> UNUSED" "0 \<le> dt" "int_range dt"
  shows "proc_inv (charge dt p)" "pstate (charge dt p) = pstate p" "pid (charge dt p) = pid p"
    "kstack (charge dt p) = kstack p" "pgdir (charge dt p) = pgdir p"
proof -
  have "int_range (budget p - dt)" using assms by (simp add: proc_inv_def int_range_def)
  then have "c_int (budget p - dt) = budget p - dt" by simp
  then show "proc_inv (charge dt p)" using assms by (simp add: proc_inv_def charge_def Let_def)
  show "pstate (charge dt p) = pstate p" "pid (charge dt p) = pid p"
    "kstack (charge dt p) = kstack p" "pgdir (charge dt p) = pgdir p"
    by (simp_all add: charge_def Let_def)
qed


text \<open>The state of the scheduler between two switches: it holds the table lock and nothing else.\<close>

definition runnable_ok :: "proc \<Rightarrow> bool" where
  "runnable_ok p \<longleftrightarrow> (pstate p \<in> {RUNNABLE, RUNNING, SLEEPING} \<longrightarrow> kstack p \<noteq> 0 \<and> pgdir p \<noteq> 0)"

definition sched_inv :: "nat \<Rightarrow> 'z vm_scheme \<Rightarrow> bool" where
  "sched_inv c s \<longleftrightarrow> in_crit PtableLock s \<and> ncli (my_cpu s) = 1 \<and> me s = c \<and> ptable_inv s \<and>
     (\<forall>p \<in> set (procs s). runnable_ok p)"

lemma sched_inv_change:
  assumes "sched_inv c s" "balanced s t" "ptable_inv t" "\<forall>p \<in> set (procs t). runnable_ok p"
  shows "sched_inv c t"
proof -
  have ci: "cpu_inv s" using assms(1) by (simp add: sched_inv_def in_crit_def)
  have "ncli (my_cpu t) = ncli (my_cpu s)"
    using balanced_my_cpu [OF assms(2) me_less [OF ci]] by (simp add: cpu_view_def)
  then show ?thesis
    using assms in_crit_balanced [OF assms(2)] balanced_me [OF assms(2)] by (auto simp: sched_inv_def)
qed

lemma sched_inv_balanced:
  assumes "sched_inv c s" "balanced s t" "procs t = procs s" "nextpid t = nextpid s"
  shows "sched_inv c t"
  by (rule sched_inv_change [OF assms(1,2)]) (use assms in \<open>simp_all add: sched_inv_def ptable_inv_def\<close>)

lemma sched_inv_upd:
  assumes "sched_inv c s" "proc_inv (f (procs s ! i))" "pid (f (procs s ! i)) = pid (procs s ! i)"
    "runnable_ok (f (procs s ! i))"
  shows "sched_inv c (upd_proc i f s)"
proof -
  have "ptable_inv (upd_proc i f s)"
    by (rule ptable_inv_update [of s _ i "f (procs s ! i)"]) (use assms in \<open>simp_all add: sched_inv_def\<close>)
  moreover have "\<forall>p \<in> set (procs (upd_proc i f s)). runnable_ok p"
    using assms set_update_ball [of "procs s" runnable_ok "f (procs s ! i)" i] by (simp add: sched_inv_def)
  ultimately show ?thesis by (intro sched_inv_change [OF assms(1)]) simp_all
qed

lemma set_proc_frame:
  assumes "sched_inv c s"
  shows "sched_inv c (set_proc c p s)" "cur (set_proc c p s) = p"
    "machine.more (set_proc c p s) = machine.more s" "mem (set_proc c p s) = mem s"
proof -
  have ci: "cpu_inv s" and m: "me s = c" using assms by (simp_all add: sched_inv_def in_crit_def)
  have l: "c < length (cpus s)" using me_less [OF ci] m by simp
  let ?t = "set_proc c p s"
  have mt: "me ?t = c" using m me_cong [of ?t s] by (simp add: set_proc_def upd_cpu_def map_update_same)
  have ct: "cpus ?t ! c = (cpus s ! c)\<lparr>cpu_proc := p\<rparr>" using l by (simp add: set_proc_def upd_cpu_def)
  have f: "locks ?t = locks s" "intr ?t = intr s" "lapic_id ?t = lapic_id s" "procs ?t = procs s"
    "nextpid ?t = nextpid s" "length (cpus ?t) = length (cpus s)"
    by (simp_all add: set_proc_def upd_cpu_def)
  show "sched_inv c ?t"
    using assms l by (simp add: sched_inv_def in_crit_def cpu_inv_iff held_def mt ct f m ptable_inv_def)
  show "cur ?t = p" by (simp add: cur_def mt ct)
  show "machine.more ?t = machine.more s" "mem ?t = mem s" by (simp_all add: set_proc_def upd_cpu_def)
qed

lemma promote_inv:
  assumes "sched_inv c s"
  shows "sched_inv c (promote s)"
proof -
  have f: "proc_inv (boost p)" "runnable_ok (boost p) = runnable_ok p" "pid (boost p) = pid p" if "proc_inv p" for p
    using that by (auto simp: proc_inv_def runnable_ok_def boost_def)
  have "pid (boost p) = pid p" for p by (simp add: boost_def)
  then have pids: "map pid (map boost (procs s)) = map pid (procs s)" by simp
  have i: "ptable_inv s" using assms by (simp add: sched_inv_def)
  then have "ptable_inv (promote s)"
    using f pids_inv_same [OF _ pids, of "nextpid s"]
    by (simp add: ptable_inv_def promote_def adjustPriority_def Let_def)
  moreover have "\<forall>p \<in> set (procs (promote s)). runnable_ok p"
    using assms f i by (simp add: sched_inv_def ptable_inv_def promote_def adjustPriority_def Let_def)
  moreover have "balanced s (promote s)"
    by (simp add: promote_def adjustPriority_def Let_def balanced_def)
  ultimately show ?thesis by (intro sched_inv_change [OF assms]) simp_all
qed

lemma cur_promote: "cur (promote s) = cur s"
  by (simp add: cur_def me_def promote_def adjustPriority_def Let_def)

section \<open>What the schedulers rely on\<close>

text \<open>
  A process that the scheduler switches to comes back with the scheduler's invariant, no
  longer running, and before the tick counter has wrapped.  \<open>ok\<close> is what the process
  needs of the locks other than the table lock, \<open>wake\<close> what it may do to the states of
  the processes.
\<close>

locale process_exec =
  fixes ex :: "'z vm_scheme exec"
    and ok :: "(lockid \<Rightarrow> nat option option) \<Rightarrow> bool"
    and wake :: "procstate list \<Rightarrow> procstate list \<Rightarrow> bool"
  assumes ex_back: "sched_inv c s \<Longrightarrow> ok (\<lambda>l. holder (locks s l)) \<Longrightarrow> i < NPROC \<Longrightarrow> cur s = Some i \<Longrightarrow>
    pstate (procs s ! i) = RUNNING \<Longrightarrow>
    returns (ex i s) (\<lambda>_ t. sched_inv c t \<and> ok (\<lambda>l. holder (locks t l)) \<and> sint (ticks s) \<le> sint (ticks t) \<and>
      int_range (sint (ticks t) - sint (ticks s)) \<and> pstate (procs t ! i) \<notin> {UNUSED, RUNNING} \<and> cur t = Some i \<and>
      wake (map pstate (procs s)) (map pstate (procs t)))"
    and ok_other: "ok (h(PtableLock := x)) = ok h"
begin

definition ready :: "nat \<Rightarrow> 'z vm_scheme \<Rightarrow> bool" where
  "ready c s \<longleftrightarrow> sched_inv c s \<and> ok (\<lambda>l. holder (locks s l))"

lemma ready_balanced:
  assumes "ready c s" "balanced s t" "procs t = procs s" "nextpid t = nextpid s"
  shows "ready c t"
proof -
  have "(\<lambda>l. holder (locks t l)) = (\<lambda>l. holder (locks s l))" using assms(2) by (simp add: balanced_def fun_eq_iff)
  then show ?thesis using assms sched_inv_balanced [OF _ assms(2,3,4)] by (simp add: ready_def)
qed

lemma ready_set_proc: "ready c s \<Longrightarrow> ready c (set_proc c p s)"
  using set_proc_frame(1) [of c s p] by (simp add: ready_def) (simp add: set_proc_def upd_cpu_def)

lemma ready_upd:
  assumes "ready c s" "proc_inv (f (procs s ! i))" "pid (f (procs s ! i)) = pid (procs s ! i)"
    "runnable_ok (f (procs s ! i))"
  shows "ready c (upd_proc i f s)"
  using assms sched_inv_upd [of c s f i] by (simp add: ready_def)

lemma ready_promote: "ready c s \<Longrightarrow> ready c (promote s)"
  using promote_inv [of c s] by (simp add: ready_def promote_def adjustPriority_def Let_def)

lemma ready_slot: "ready c s \<Longrightarrow> i < NPROC \<Longrightarrow> proc_inv (procs s ! i) \<and> runnable_ok (procs s ! i) \<and> i < length (procs s)"
  by (simp add: ready_def sched_inv_def ptable_inv_def)

text \<open>Switching to a runnable process \<open>i\<close> and back, whatever bookkeeping \<open>f\<close> precedes it.\<close>

lemma dispatch:
  assumes "ready c s" "i < NPROC" "pstate (procs s ! i) = RUNNABLE"
    and f: "\<And>q. proc_inv q \<Longrightarrow> pstate q = RUNNABLE \<Longrightarrow> proc_inv (f q) \<and> pid (f q) = pid q \<and> pstate (f q) = RUNNING \<and>
      kstack (f q) = kstack q \<and> pgdir (f q) = pgdir q"
  shows "returns (run (switchuvm (Some i) (set_proc c (Some i) s)) (\<lambda>_ s. ex i (upd_proc i f s)))
     (\<lambda>_ t. ready c (switchkvm t) \<and> procs (switchkvm t) = procs t \<and> ticks (switchkvm t) = ticks t \<and>
       sint (ticks s) \<le> sint (ticks t) \<and> int_range (sint (ticks t) - sint (ticks s)) \<and>
       pstate (procs t ! i) \<notin> {UNUSED, RUNNING} \<and>
       wake ((map pstate (procs s))[i := RUNNING]) (map pstate (procs t)))"
proof -
  let ?s = "set_proc c (Some i) s"
  have si: "sched_inv c s" using assms(1) by (simp add: ready_def)
  note sp = set_proc_frame [OF si, of "Some i"] and mv = machine_more_vm [OF set_proc_frame(3) [OF si], of "Some i"]
  have r: "ready c ?s" by (rule ready_set_proc [OF assms(1)])
  have q: "proc_inv (procs s ! i)" "kstack (procs s ! i) \<noteq> 0" "pgdir (procs s ! i) \<noteq> 0" "i < length (procs s)"
    using ready_slot [OF assms(1,2)] assms(3) by (auto simp: runnable_ok_def)
  have ci: "cpu_inv ?s" using sp(1) by (simp add: sched_inv_def in_crit_def)
  show ?thesis
    unfolding returns_run
  proof (rule returns_mono [OF switchuvm_ok [OF ci]])
    show "kstack (procs ?s ! i) \<noteq> 0" "pgdir (procs ?s ! i) \<noteq> 0" using q mv by simp_all
    fix x and u :: "'z vm_scheme"
    assume u: "balanced ?s u \<and> mem u = mem ?s \<and> machine.more u = machine.more ?s \<and>
      cr3 (my_cpu u) = V2P (pgdir (procs ?s ! i)) \<and> esp0 (cpu_ts (my_cpu u)) = kstack (procs ?s ! i) + KSTACKSIZE"
    note mu = machine_more_vm [of u ?s]
    have pu: "procs u = procs s" "ticks u = ticks s" "nextpid u = nextpid s" using u mu mv by auto
    have ru: "ready c u" using u pu mv by (intro ready_balanced [OF r]) auto
    have cu: "cur u = Some i"
      using u sp(2) balanced_my_cpu [of ?s u] me_less [OF ci] by (simp add: cur_def cpu_view_def)
    let ?v = "upd_proc i f u"
    have fq: "proc_inv (f (procs s ! i))" "pid (f (procs s ! i)) = pid (procs s ! i)" "pstate (f (procs s ! i)) = RUNNING"
      "runnable_ok (f (procs s ! i))"
      using q(2,3) f [OF q(1) assms(3)] by (auto simp: runnable_ok_def)
    have rv: "ready c ?v" using fq pu by (intro ready_upd [OF ru]) simp_all
    have "returns (ex i ?v) (\<lambda>_ t. sched_inv c t \<and> ok (\<lambda>l. holder (locks t l)) \<and> sint (ticks ?v) \<le> sint (ticks t) \<and>
        int_range (sint (ticks t) - sint (ticks ?v)) \<and> pstate (procs t ! i) \<notin> {UNUSED, RUNNING} \<and> cur t = Some i \<and>
        wake (map pstate (procs ?v)) (map pstate (procs t)))"
      using rv cu fq(3) q(4) pu(1) assms(2) by (intro ex_back) (simp_all add: ready_def)
    then show "returns (ex i ?v) (\<lambda>_ t. ready c (switchkvm t) \<and> procs (switchkvm t) = procs t \<and>
        ticks (switchkvm t) = ticks t \<and> sint (ticks s) \<le> sint (ticks t) \<and>
        int_range (sint (ticks t) - sint (ticks s)) \<and> pstate (procs t ! i) \<notin> {UNUSED, RUNNING} \<and>
        wake ((map pstate (procs s))[i := RUNNING]) (map pstate (procs t)))"
    proof (rule returns_mono)
      fix y and t :: "'z vm_scheme"
      assume t: "sched_inv c t \<and> ok (\<lambda>l. holder (locks t l)) \<and> sint (ticks ?v) \<le> sint (ticks t) \<and>
        int_range (sint (ticks t) - sint (ticks ?v)) \<and> pstate (procs t ! i) \<notin> {UNUSED, RUNNING} \<and> cur t = Some i \<and>
        wake (map pstate (procs ?v)) (map pstate (procs t))"
      have k: "procs (switchkvm t) = procs t" "ticks (switchkvm t) = ticks t" "nextpid (switchkvm t) = nextpid t"
        using machine_more_vm [OF switchkvm_frame(3) [of t]] by simp_all
      have "ready c t" unfolding ready_def using t by blast
      then have "ready c (switchkvm t)" by (rule ready_balanced [OF _ switchkvm_frame(1) k(1,3)])
      then show "ready c (switchkvm t) \<and> procs (switchkvm t) = procs t \<and>
        ticks (switchkvm t) = ticks t \<and> sint (ticks s) \<le> sint (ticks t) \<and>
        int_range (sint (ticks t) - sint (ticks s)) \<and> pstate (procs t ! i) \<notin> {UNUSED, RUNNING} \<and>
        wake ((map pstate (procs s))[i := RUNNING]) (map pstate (procs t))"
        using t k pu fq(3) by (simp add: map_update)
    qed
  qed
qed

end

context process_exec
begin

lemma mlfq_slot_ok:
  assumes "ready c s" "i < NPROC"
  shows "returns (mlfq_slot ex c cp n i s) (\<lambda>m t. ready c t \<and>
     (if pstate (procs s ! i) = RUNNABLE \<and> priority (procs s ! i) = cp
      then m = n + 1 \<and> cur t = None \<and> wake ((map pstate (procs s))[i := RUNNING]) (map pstate (procs t)) else m = n \<and> t = s))"
proof (cases "pstate (procs s ! i) = RUNNABLE \<and> priority (procs s ! i) = cp")
  case False
  then show ?thesis using assms(1) by (auto simp: mlfq_slot_def)
next
  case True
  let ?f = "\<lambda>q. q\<lparr>num_scheduled := c_int (num_scheduled q + 1), pstate := RUNNING\<rparr>"
  have run2: "upd_proc i (\<lambda>q. q\<lparr>pstate := RUNNING\<rparr>) (upd_proc i (\<lambda>q. q\<lparr>num_scheduled := c_int (num_scheduled q + 1)\<rparr>) u)
      = upd_proc i ?f u" if "i < length (procs u)" for u :: "'z vm_scheme"
    using that by (simp add: upd_proc_def)
  have f: "proc_inv (?f q) \<and> pid (?f q) = pid q \<and> pstate (?f q) = RUNNING \<and>
      kstack (?f q) = kstack q \<and> pgdir (?f q) = pgdir q" if "proc_inv q" "pstate q = RUNNABLE" for q
    using that by (simp add: proc_inv_def)
  obtain u where u: "switchuvm (Some i) (set_proc c (Some i) s) = Ok () u"
    and d: "returns (ex i (upd_proc i ?f u)) (\<lambda>_ t. ready c (switchkvm t) \<and> procs (switchkvm t) = procs t \<and>
       ticks (switchkvm t) = ticks t \<and> sint (ticks s) \<le> sint (ticks t) \<and>
       int_range (sint (ticks t) - sint (ticks s)) \<and> pstate (procs t ! i) \<notin> {UNUSED, RUNNING} \<and>
       wake ((map pstate (procs s))[i := RUNNING]) (map pstate (procs t)))"
    using dispatch [OF assms conjunct1 [OF True] f] by (auto simp: returns_iff run_eq_Ok)
  have si: "sched_inv c s" using assms(1) by (simp add: ready_def)
  have mu: "procs u = procs s" "ticks u = ticks s"
  proof -
    have ci: "cpu_inv (set_proc c (Some i) s)" using set_proc_frame(1) [OF si] by (simp add: sched_inv_def in_crit_def)
    have q: "kstack (procs s ! i) \<noteq> 0" "pgdir (procs s ! i) \<noteq> 0"
      using ready_slot [OF assms] True by (auto simp: runnable_ok_def)
    have p: "procs (set_proc c (Some i) s) = procs s" "ticks (set_proc c (Some i) s) = ticks s"
      using machine_more_vm [OF set_proc_frame(3) [OF si, of "Some i"]] by simp_all
    have "machine.more u = machine.more (set_proc c (Some i) s)"
      using switchuvm_ok [OF ci, of i] q u p by simp
    then show "procs u = procs s" "ticks u = ticks s" using machine_more_vm [of u "set_proc c (Some i) s"] p by auto
  qed
  have len: "i < length (procs u)" using ready_slot [OF assms] mu by simp
  show ?thesis
    using d
  proof (cases "ex i (upd_proc i ?f u)")
    case (Ok x t)
    define v where "v = switchkvm t"
    define dt where "dt = sint (ticks t) - sint (ticks s)"
    have t: "ready c v" "procs v = procs t" "ticks v = ticks t" "0 \<le> dt" "int_range dt"
        "pstate (procs v ! i) \<notin> {UNUSED, RUNNING}" "wake ((map pstate (procs s))[i := RUNNING]) (map pstate (procs v))"
      using d unfolding Ok v_def dt_def by auto
    define w where "w = set_proc c None (upd_proc i (\<lambda>q. q\<lparr>pticks := c_int (pticks q + dt)\<rparr>) v)"
    have vi: "proc_inv (procs v ! i)" "runnable_ok (procs v ! i)" "i < length (procs v)"
      using ready_slot [OF t(1) assms(2)] by simp_all
    have "ready c (upd_proc i (\<lambda>q. q\<lparr>pticks := c_int (pticks q + dt)\<rparr>) v)"
      using vi by (intro ready_upd [OF t(1)]) (simp_all add: proc_inv_def runnable_ok_def)
    then have rw: "ready c w" "cur w = None" unfolding w_def
      using ready_set_proc set_proc_frame(2) [of c "upd_proc i (\<lambda>q. q\<lparr>pticks := c_int (pticks q + dt)\<rparr>) v" None]
      by (blast, simp add: ready_def)
    have pw: "procs w ! i = (procs v ! i)\<lparr>pticks := c_int (pticks (procs v ! i) + dt)\<rparr>"
      using vi(3) by (simp add: w_def set_proc_def upd_cpu_def)
    have iw: "proc_inv (procs w ! i)" "pstate (procs w ! i) \<noteq> UNUSED" "runnable_ok (procs w ! i)"
      using vi t(6) by (simp_all add: pw proc_inv_def runnable_ok_def)
    note ch = charge_inv [OF iw(1,2) t(4,5)]
    have "ready c (upd_proc i (charge dt) w)"
      using ch iw(3) by (intro ready_upd [OF rw(1)]) (simp_all add: runnable_ok_def)
    then have "ready c (promote (upd_proc i (charge dt) w))" by (rule ready_promote)
    moreover have "mlfq_slot ex c cp n i s = Ok (n + 1) (promote (upd_proc i (charge dt) w))"
      using True u Ok t(5) mu by (simp add: mlfq_slot_def Let_def run2 [OF len] v_def [symmetric] dt_def w_def)
    moreover have "map pstate (procs (promote (upd_proc i (charge dt) w))) = map pstate (procs v)"
    proof -
      have "map pstate (procs (promote x)) = map pstate (procs x)" for x :: "'z vm_scheme"
        by (simp add: promote_def adjustPriority_def Let_def boost_def)
      then show ?thesis using vi(3) ch(2)
        by (simp add: map_update_same) (simp add: w_def set_proc_def upd_cpu_def map_update_same)
    qed
    moreover have "cur (promote (upd_proc i (charge dt) w)) = None" using rw(2) by (simp add: cur_promote)
    ultimately show ?thesis using True t(7) by simp
  qed (use d in simp_all)
qed

lemma mlfq_table_ok:
  assumes "ready c s" "\<forall>i \<in> set is. i < NPROC"
  shows "returns (mlfq_table ex c cp n is s) (\<lambda>m t. ready c t \<and> n \<le> m \<and> (cur s = None \<longrightarrow> cur t = None) \<and>
     (m = n \<longrightarrow> t = s \<and> (\<forall>i \<in> set is. \<not> (pstate (procs s ! i) = RUNNABLE \<and> priority (procs s ! i) = cp))))"
  using assms
proof (induction "is" arbitrary: s n)
  case Nil
  then show ?case by simp
next
  case (Cons i "is")
  show ?case
    unfolding mlfq_table.simps returns_run
  proof (rule returns_mono [OF mlfq_slot_ok [OF Cons.prems(1)]])
    show "i < NPROC" using Cons.prems(2) by simp
    fix m t
    assume t: "ready c t \<and> (if pstate (procs s ! i) = RUNNABLE \<and> priority (procs s ! i) = cp
        then m = n + 1 \<and> cur t = None \<and> wake ((map pstate (procs s))[i := RUNNING]) (map pstate (procs t)) else m = n \<and> t = s)"
    have "returns (mlfq_table ex c cp m is t) (\<lambda>k u. ready c u \<and> m \<le> k \<and> (cur t = None \<longrightarrow> cur u = None) \<and> (k = m \<longrightarrow> u = t \<and>
        (\<forall>i \<in> set is. \<not> (pstate (procs t ! i) = RUNNABLE \<and> priority (procs t ! i) = cp))))"
      using t Cons.prems(2) by (intro Cons.IH) auto
    then show "returns (mlfq_table ex c cp m is t) (\<lambda>k u. ready c u \<and> n \<le> k \<and> (cur s = None \<longrightarrow> cur u = None) \<and> (k = n \<longrightarrow> u = s \<and>
        (\<forall>i \<in> set (i # is). \<not> (pstate (procs s ! i) = RUNNABLE \<and> priority (procs s ! i) = cp))))"
      using t by (auto split: if_splits elim!: returns_mono)
  qed
qed

end

section \<open>A scheduling round\<close>

text \<open>The number of runnable processes.\<close>

definition nrun :: "procstate list \<Rightarrow> nat" where
  "nrun xs = length (filter (\<lambda>x. x = RUNNABLE) xs)"

lemma nrun_dispatch: "i < length xs \<Longrightarrow> xs ! i = RUNNABLE \<Longrightarrow> nrun (xs[i := RUNNING]) < nrun xs"
proof (induction xs arbitrary: i)
  case (Cons x xs)
  then show ?case by (cases i) (auto simp: nrun_def)
qed simp

definition quiet :: "int \<Rightarrow> 'z ptable_scheme \<Rightarrow> bool" where
  "quiet cp s \<longleftrightarrow> (\<forall>i < NPROC. \<not> (pstate (procs s ! i) = RUNNABLE \<and> priority (procs s ! i) = cp))"

context process_exec
begin

lemma mlfq_levels_step:
  assumes lv: "\<And>ex' c cp s r. lv ex' c cp s = Some r \<Longrightarrow> ex' = ex \<longrightarrow> ready c s \<longrightarrow>
      returns r (\<lambda>_ t. ready c t \<and> (cur s = None \<longrightarrow> cur t = None) \<and> (if cp < 0 then t = s else quiet 0 t))"
    and step: "(if cp \<ge> 0 then
        (case mlfq_table ex c cp 0 [0..<NPROC] s of
           Ok count s \<Rightarrow> lv ex c (if count = 0 then cp - 1 else cp) s
         | Panic e \<Rightarrow> Some (Panic e) | Spin \<Rightarrow> Some Spin | Switch s \<Rightarrow> Some (Switch s))
      else Some (Ok () s)) = Some r" and "ready c s"
  shows "returns r (\<lambda>_ t. ready c t \<and> (cur s = None \<longrightarrow> cur t = None) \<and> (if cp < 0 then t = s else quiet 0 t))"
proof (cases "0 \<le> cp")
  case False
  then show ?thesis using step assms(3) by auto
next
  case True
  have all: "\<forall>i \<in> set [0..<NPROC]. i < NPROC" by simp
  obtain m t where t: "mlfq_table ex c cp 0 [0..<NPROC] s = Ok m t" "ready c t" "cur s = None \<longrightarrow> cur t = None"
      "m = 0 \<longrightarrow> t = s \<and> (\<forall>i \<in> set [0..<NPROC]. \<not> (pstate (procs s ! i) = RUNNABLE \<and> priority (procs s ! i) = cp))"
    using mlfq_table_ok [OF assms(3) all, of cp 0] by (auto simp: returns_iff)
  let ?cp = "if m = 0 then cp - 1 else cp"
  have "lv ex c ?cp t = Some r" using step True t(1) by simp
  then have r: "returns r (\<lambda>_ u. ready c u \<and> (cur t = None \<longrightarrow> cur u = None) \<and> (if ?cp < 0 then u = t else quiet 0 u))"
    using lv t(2) by blast
  have "quiet 0 t" if "?cp < 0"
    using that True t(4) by (auto simp: quiet_def split: if_splits)
  then show ?thesis using r True t(3) by (auto elim!: returns_mono split: if_splits)
qed

lemma mlfq_levels_sound:
  assumes "mlfq_levels ex c cp s = Some r" "ready c s"
  shows "returns r (\<lambda>_ t. ready c t \<and> (cur s = None \<longrightarrow> cur t = None) \<and> (if cp < 0 then t = s else quiet 0 t))"
proof -
  have "ex = ex \<longrightarrow> ready c s \<longrightarrow> returns r (\<lambda>_ t. ready c t \<and> (cur s = None \<longrightarrow> cur t = None) \<and> (if cp < 0 then t = s else quiet 0 t))"
    by (rule mlfq_levels.raw_induct [where P = "\<lambda>ex' c cp s r. ex' = ex \<longrightarrow> ready c s \<longrightarrow>
        returns r (\<lambda>_ t. ready c t \<and> (cur s = None \<longrightarrow> cur t = None) \<and> (if cp < 0 then t = s else quiet 0 t))", OF _ assms(1)])
      (intro impI, hypsubst, rule mlfq_levels_step, assumption+)
  then show ?thesis using assms(2) by simp
qed

end

text \<open>
  Processes that, when they run, do not leave more runnable processes than they found:
  then a round cannot go on for ever.
\<close>

locale blocking_exec = process_exec +
  assumes wake_fewer: "wake xs ys \<Longrightarrow> nrun ys \<le> nrun xs"
begin

lemma mlfq_table_nrun:
  assumes "ready c s" "\<forall>i \<in> set is. i < NPROC"
  shows "returns (mlfq_table ex c cp n is s) (\<lambda>m t. nrun (map pstate (procs t)) + (if n < m then 1 else 0)
     \<le> nrun (map pstate (procs s)))"
  using assms
proof (induction "is" arbitrary: s n)
  case Nil
  then show ?case by simp
next
  case (Cons i "is")
  have i: "i < NPROC" using Cons.prems(2) by simp
  show ?case
    unfolding mlfq_table.simps returns_run
  proof (rule returns_mono [OF mlfq_slot_ok [OF Cons.prems(1) i]])
    fix m t
    assume t: "ready c t \<and> (if pstate (procs s ! i) = RUNNABLE \<and> priority (procs s ! i) = cp
        then m = n + 1 \<and> cur t = None \<and> wake ((map pstate (procs s))[i := RUNNING]) (map pstate (procs t)) else m = n \<and> t = s)"
    have fewer: "nrun (map pstate (procs t)) < nrun (map pstate (procs s))" if "m = n + 1"
    proof -
      have "nrun ((map pstate (procs s))[i := RUNNING]) < nrun (map pstate (procs s))"
        using ready_slot [OF Cons.prems(1) i] t that by (intro nrun_dispatch) (auto split: if_splits)
      moreover have "nrun (map pstate (procs t)) \<le> nrun ((map pstate (procs s))[i := RUNNING])"
        using t that by (intro wake_fewer) (auto split: if_splits)
      ultimately show ?thesis by simp
    qed
    have "returns (mlfq_table ex c cp m is t) (\<lambda>k u. nrun (map pstate (procs u)) + (if m < k then 1 else 0)
        \<le> nrun (map pstate (procs t)))"
      using t Cons.prems(2) by (intro Cons.IH) auto
    then show "returns (mlfq_table ex c cp m is t) (\<lambda>k u. nrun (map pstate (procs u)) + (if n < k then 1 else 0)
        \<le> nrun (map pstate (procs s)))"
      using t fewer by (auto split: if_splits elim!: returns_mono)
  qed
qed

lemma mlfq_levels_returns:
  assumes "ready c s"
  shows "\<exists>t. mlfq_levels ex c cp s = Some (Ok () t)"
  using assms
proof (induction "nrun (map pstate (procs s)) + nat (cp + 1)" arbitrary: cp s rule: less_induct)
  case less
  show ?case
  proof (cases "0 \<le> cp")
    case False
    then show ?thesis by (subst mlfq_levels.simps) simp
  next
    case True
    have all: "\<forall>i \<in> set [0..<NPROC]. i < NPROC" by simp
    obtain m t where t: "mlfq_table ex c cp 0 [0..<NPROC] s = Ok m t" "ready c t" "0 \<le> m" "m = 0 \<longrightarrow> t = s"
      using mlfq_table_ok [OF less.prems all, of cp 0] by (auto simp: returns_iff)
    have n: "nrun (map pstate (procs t)) + (if 0 < m then 1 else 0) \<le> nrun (map pstate (procs s))"
      using mlfq_table_nrun [OF less.prems all, of cp 0] t(1) by simp
    let ?cp = "if m = 0 then cp - 1 else cp"
    have "nrun (map pstate (procs t)) + nat (?cp + 1) < nrun (map pstate (procs s)) + nat (cp + 1)"
      using n t(3,4) True by (cases "m = 0") auto
    then have "\<exists>u. mlfq_levels ex c ?cp t = Some (Ok () u)" by (rule less.hyps [OF _ t(2)])
    then show ?thesis using True t(1) by (subst mlfq_levels.simps) simp
  qed
qed

end

section \<open>The whole scheduler\<close>

lemma holder_locked_other:
  "l \<noteq> k \<Longrightarrow> holder (locks (acquired k s) l) = holder (locks s l)"
  "l \<noteq> k \<Longrightarrow> holder (locks (released k s) l) = holder (locks s l)"
  by (simp_all add: acquired_def released_def popped_def pushed_def upd_lock_def)

lemma holder_acquired: "holder (locks (acquired k s) k) = Some (Some (me s))"
  by (simp add: acquired_def upd_lock_def holder_def)

text \<open>The processor between two rounds: no process on it, the table sound and its lock free.\<close>

definition between_rounds :: "nat \<Rightarrow> 'z vm_scheme \<Rightarrow> bool" where
  "between_rounds c s \<longleftrightarrow> can_lock PtableLock s \<and> ncli (my_cpu s) = 0 \<and> me s = c \<and> cur s = None \<and> ptable_inv s \<and>
     (\<forall>p \<in> set (procs s). runnable_ok p)"

lemma round_starts:
  assumes "between_rounds c s" "u = acquired PtableLock (s\<lparr>intr := True\<rparr>)"
  shows "acquire PtableLock (s\<lparr>intr := True\<rparr>) = Ok () u" "sched_inv c u" "cur u = None"
    "(\<lambda>l. holder (locks u l)) = (\<lambda>l. holder (locks s l))(PtableLock := Some (Some c))"
proof -
  let ?s = "s\<lparr>intr := True\<rparr>"
  have m: "me ?s = me s" "cur ?s = cur s" by (simp_all add: me_def cur_def)
  have c: "can_lock PtableLock ?s" "me ?s = c" "ncli (my_cpu ?s) = 0"
    using assms(1) by (auto simp: between_rounds_def can_lock_def cpu_inv_iff m)
  have ci: "cpu_inv ?s" using c(1) by (simp add: can_lock_def)
  show "acquire PtableLock ?s = Ok () u" unfolding assms(2) by (rule acquire_ok [OF c(1)])
  have "ncli (my_cpu u) = 1" using acquired_depth [OF ci, of PtableLock] c(3) by (simp add: assms(2))
  moreover have "in_crit PtableLock u" unfolding assms(2) by (rule in_crit_acquired [OF c(1)])
  ultimately show "sched_inv c u" using assms c(2) by (simp add: sched_inv_def between_rounds_def ptable_inv_def)
  show "cur u = None" using assms ci m by (simp add: between_rounds_def)
  show "(\<lambda>l. holder (locks u l)) = (\<lambda>l. holder (locks s l))(PtableLock := Some (Some c))"
    using holder_locked_other(1) [of _ PtableLock ?s] holder_acquired [of PtableLock ?s] c(2) by (auto simp: assms(2) fun_eq_iff)
qed

lemma round_ends:
  assumes "sched_inv c t" "cur t = None" "u = released PtableLock t"
  shows "release PtableLock t = Ok () u" "between_rounds c u"
    "(\<lambda>l. holder (locks u l)) = (\<lambda>l. holder (locks t l))(PtableLock := None)"
proof -
  have c: "in_crit PtableLock t" "ncli (my_cpu t) = 1" "me t = c" using assms(1) by (auto simp: sched_inv_def)
  have ci: "cpu_inv t" using c(1) by (simp add: in_crit_def)
  show "release PtableLock t = Ok () u" unfolding assms(3) by (rule release_ok [OF c(1)])
  have "cpu_inv u" unfolding assms(3) using ci c(2) by (intro cpu_inv_released) simp_all
  moreover have "ncli (my_cpu u) = 0" using released_depth [OF ci, of PtableLock] c(2) by (simp add: assms(3))
  ultimately show "between_rounds c u"
    using assms c(3) ci by (simp add: between_rounds_def can_lock_def sched_inv_def ptable_inv_def)
  show "(\<lambda>l. holder (locks u l)) = (\<lambda>l. holder (locks t l))(PtableLock := None)"
    using holder_locked_other(2) [of _ PtableLock t] by (auto simp: assms(3) fun_eq_iff holder_def)
qed

context process_exec
begin

definition resting :: "nat \<Rightarrow> 'z vm_scheme \<Rightarrow> bool" where
  "resting c s \<longleftrightarrow> between_rounds c s \<and> ok (\<lambda>l. holder (locks s l))"

lemma resting_start:
  assumes "resting c s"
  shows "ready c (acquired PtableLock (s\<lparr>intr := True\<rparr>))"
proof -
  have b: "between_rounds c s" "ok (\<lambda>l. holder (locks s l))" using assms by (simp_all add: resting_def)
  show ?thesis using round_starts(2,4) [OF b(1) refl] b(2) by (simp add: ready_def ok_other)
qed

lemma resting_end:
  assumes "ready c t" "cur t = None"
  shows "resting c (released PtableLock t)"
proof -
  have r: "sched_inv c t" "ok (\<lambda>l. holder (locks t l))" using assms(1) by (simp_all add: ready_def)
  show ?thesis using round_ends(2,3) [OF r(1) assms(2) refl] r(2) by (simp add: resting_def ok_other)
qed

lemma mlfq_iter_sound:
  assumes "mlfq_iter ex c s = Some r" "resting c s"
  shows "returns r (\<lambda>_ t. resting c t \<and> quiet 0 t)"
proof -
  let ?u = "acquired PtableLock (s\<lparr>intr := True\<rparr>)"
  have b: "between_rounds c s" using assms(2) by (simp add: resting_def)
  note a = round_starts [OF b refl]
  obtain q where q: "mlfq_levels ex c MAXPRIORITY ?u = Some q" "r = run q (\<lambda>_ s. release PtableLock s)"
    using assms(1) a(1) by (auto simp: mlfq_iter_def Let_def split: option.splits)
  obtain t where t: "q = Ok () t" "ready c t" "cur t = None" "quiet 0 t"
    using mlfq_levels_sound [OF q(1) resting_start [OF assms(2)]] a(3) by (auto simp: returns_iff)
  have si: "sched_inv c t" using t(2) by (simp add: ready_def)
  have "quiet 0 (released PtableLock t)" using t(4) by (simp add: quiet_def)
  then show ?thesis using q(2) t(1) round_ends(1) [OF si t(3) refl] resting_end [OF t(2,3)] by simp
qed

lemma mlfq_rounds_sound:
  assumes "iterate_option n (mlfq_iter ex c) s = Some r" "resting c s"
  shows "returns r (\<lambda>_ t. resting c t \<and> (0 < n \<longrightarrow> quiet 0 t))"
  using assms
proof (induction n arbitrary: s)
  case (Suc n)
  show ?case
  proof (cases "mlfq_iter ex c s")
    case (Some q)
    obtain t where t: "q = Ok () t" "resting c t" "quiet 0 t"
      using mlfq_iter_sound [OF Some Suc.prems(2)] by (auto simp: returns_iff)
    have rest: "iterate_option n (mlfq_iter ex c) t = Some r" using Suc.prems(1) Some t(1) by simp
    show ?thesis
    proof (cases n)
      case 0
      then have "r = Ok () t" using rest by simp
      then show ?thesis using t by simp
    qed (use Suc.IH [OF rest t(2)] in simp)
  qed (use Suc.prems(1) in simp)
qed auto

end

context blocking_exec
begin

lemma mlfq_rounds_return:
  assumes "resting c s"
  shows "\<exists>t. iterate_option n (mlfq_iter ex c) s = Some (Ok () t)"
  using assms
proof (induction n arbitrary: s)
  case (Suc n)
  let ?u = "acquired PtableLock (s\<lparr>intr := True\<rparr>)"
  have b: "between_rounds c s" using Suc.prems by (simp add: resting_def)
  note r = resting_start [OF Suc.prems] and a = round_starts [OF b refl]
  obtain t where t: "mlfq_levels ex c MAXPRIORITY ?u = Some (Ok () t)" using mlfq_levels_returns [OF r] by blast
  have rt: "ready c t" "cur t = None" using mlfq_levels_sound [OF t r] a(3) by simp_all
  then have si: "sched_inv c t" by (simp add: ready_def)
  have "mlfq_iter ex c s = Some (Ok () (released PtableLock t))"
    using a(1) t round_ends(1) [OF si rt(2) refl] by (simp add: mlfq_iter_def Let_def)
  then show ?case using Suc.IH [OF resting_end [OF rt]] by simp
qed simp

end

lemma scheduler_starts:
  assumes "can_lock PtableLock s" "ncli (my_cpu s) = 0" "\<not> intr s" "ptable_inv s" "\<forall>p \<in> set (procs s). runnable_ok p"
  shows "mycpu s = Ok (me s) s" "between_rounds (me s) (set_proc (me s) None s)"
    "locks (set_proc (me s) None s) = locks s"
proof -
  have ci: "cpu_inv s" using assms(1) by (simp add: can_lock_def)
  have l: "me s < length (cpus s)" using ci by (rule me_less)
  show "mycpu s = Ok (me s) s" by (rule mycpu_ok [OF ci assms(3)])
  let ?t = "set_proc (me s) None s"
  have m: "me ?t = me s" using me_cong [of ?t s] by (simp add: set_proc_def upd_cpu_def map_update_same)
  have f: "cpus ?t ! me s = (my_cpu s)\<lparr>cpu_proc := None\<rparr>" "intr ?t = intr s" "lapic_id ?t = lapic_id s"
    "length (cpus ?t) = length (cpus s)" "procs ?t = procs s" "nextpid ?t = nextpid s"
    using l by (simp_all add: set_proc_def upd_cpu_def)
  show k: "locks ?t = locks s" by (simp add: set_proc_def upd_cpu_def)
  show "between_rounds (me s) ?t"
    using assms l by (simp add: between_rounds_def can_lock_def cpu_inv_iff cur_def m f k ptable_inv_def)
qed

section \<open>Processes that yield and processes that sleep\<close>

definition until_switch :: "('s, 'a) res \<Rightarrow> ('s, unit) res" where
  "until_switch r = (case r of Switch s \<Rightarrow> Ok () s | Ok _ _ \<Rightarrow> Spin | Panic e \<Rightarrow> Panic e | Spin \<Rightarrow> Spin)"

text \<open>A process that comes back from a \<open>yield\<close> and yields again.\<close>

definition exec_yield :: "nat \<Rightarrow> 'z vm_scheme \<Rightarrow> ('z vm_scheme, unit) res" where
  "exec_yield i s = until_switch (run (yield_resume True s) (\<lambda>_ s. yield s))"

text \<open>A process that comes back from a \<open>yield\<close> and waits for the next clock tick.\<close>

definition exec_sleep :: "nat \<Rightarrow> 'z vm_scheme \<Rightarrow> ('z vm_scheme, unit) res" where
  "exec_sleep i s = until_switch (run (yield_resume True s) (\<lambda>_ s.
     run (acquire TicksLock s) (\<lambda>_ s. sleep (Some ChanTicks) (Some TicksLock) s)))"

definition same_table :: "'z vm_scheme \<Rightarrow> 'z vm_scheme \<Rightarrow> bool" where
  "same_table s t \<longleftrightarrow> procs t = procs s \<and> nextpid t = nextpid s \<and> ticks t = ticks s \<and> me t = me s \<and>
     (\<forall>l. l \<noteq> PtableLock \<longrightarrow> holder (locks t l) = holder (locks s l))"

lemma resumed:
  assumes "sched_inv c s" "cur s = Some i"
  shows "\<exists>u. yield_resume saved s = Ok () u \<and> can_lock PtableLock u \<and> ncli (my_cpu u) = 0 \<and> cur u = Some i \<and>
     same_table s u"
proof -
  have c: "in_crit PtableLock s" "ncli (my_cpu s) = 1" using assms(1) by (auto simp: sched_inv_def)
  obtain t where t: "sched_resume saved s = Ok () t" "machine.more t = machine.more s" "in_crit PtableLock t"
      "ncli (my_cpu t) = 1" "locks t = locks s" "procs t = procs s" "cur t = cur s" "me t = me s"
    using sched_resume_ok [OF c(1), of saved] c(2) by auto
  have ci: "cpu_inv t" using t(3) by (simp add: in_crit_def)
  let ?u = "released PtableLock t"
  have "cpu_inv ?u" using ci t(4) by (intro cpu_inv_released) simp_all
  moreover have "ncli (my_cpu ?u) = 0" using released_depth [OF ci, of PtableLock] t(4) by simp
  moreover have "holder (locks ?u l) = holder (locks s l)" if "l \<noteq> PtableLock" for l
    using that by (simp add: released_def popped_def upd_lock_def t(5))
  moreover have "nextpid t = nextpid s" "ticks t = ticks s" using machine_more_vm [OF t(2)] by simp_all
  ultimately show ?thesis
    using t ci assms(2)
    by (simp add: yield_resume_def release_ok can_lock_def same_table_def)
qed

text \<open>Back in the scheduler: only the state, the channel and the context of process \<open>i\<close> may differ.\<close>

lemma back_in_scheduler:
  assumes "sched_inv c s" "i < NPROC" "in_crit PtableLock t" "ncli (my_cpu t) = 1" "me t = me s"
    and "procs t = (procs s)[i := (procs s ! i)\<lparr>chan := ch, pstate := st, pcontext := x\<rparr>]" "nextpid t = nextpid s"
    and "pstate (procs s ! i) = RUNNING" "st \<in> {RUNNABLE, SLEEPING}"
  shows "sched_inv c t"
proof -
  have inv: "ptable_inv s" "\<forall>p \<in> set (procs s). runnable_ok p" "i < length (procs s)"
    using assms(1,2) by (simp_all add: sched_inv_def ptable_inv_def)
  have q: "proc_inv (procs s ! i)" "runnable_ok (procs s ! i)" using inv by (simp_all add: ptable_inv_def)
  let ?q = "(procs s ! i)\<lparr>chan := ch, pstate := st, pcontext := x\<rparr>"
  have q': "proc_inv ?q" "runnable_ok ?q" using q assms(8,9) by (auto simp: proc_inv_def runnable_ok_def)
  have "ptable_inv t" by (rule ptable_inv_update [OF inv(1) assms(6,7) q'(1)]) simp
  moreover have "\<forall>p \<in> set (procs t). runnable_ok p" unfolding assms(6) by (rule set_update_ball [OF inv(2) q'(2)])
  ultimately show ?thesis using assms by (simp add: sched_inv_def)
qed

lemma nrun_asleep: "i < length xs \<Longrightarrow> xs ! i = RUNNING \<Longrightarrow> nrun (xs[i := SLEEPING]) \<le> nrun xs"
proof (induction xs arbitrary: i)
  case (Cons x xs)
  then show ?case by (cases i) (auto simp: nrun_def)
qed simp

lemma exec_yield_back:
  assumes "sched_inv c s" "i < NPROC" "cur s = Some i" "pstate (procs s ! i) = RUNNING"
  shows "returns (exec_yield i s) (\<lambda>_ t. sched_inv c t \<and> ticks t = ticks s \<and> cur t = Some i \<and>
     pstate (procs t ! i) = RUNNABLE)"
proof -
  have len: "i < length (procs s)" using assms(1,2) by (simp add: sched_inv_def ptable_inv_def)
  obtain u where u: "yield_resume True s = Ok () u" "can_lock PtableLock u" "ncli (my_cpu u) = 0" "cur u = Some i"
      "same_table s u"
    using resumed [OF assms(1,3), of True] by blast
  then have lu: "i < length (procs u)" using len by (simp add: same_table_def)
  obtain t where t: "t = yielded i u" "yield u = Switch t" "in_crit PtableLock t" "ncli (my_cpu t) = 1" "cur t = Some i"
      "procs t = (procs u)[i := (procs u ! i)\<lparr>pstate := RUNNABLE, pcontext := ctx_esp u\<rparr>]"
    using yield_switches [OF u(2,3,4) lu] by blast
  have f: "me t = me s" "nextpid t = nextpid s" "ticks t = ticks s" "procs u = procs s"
    using u(5) by (simp_all add: t(1) yielded_def same_table_def)
  have "procs t = (procs s)[i := (procs s ! i)\<lparr>chan := chan (procs s ! i), pstate := RUNNABLE, pcontext := ctx_esp u\<rparr>]"
    using t(6) f(4) by simp
  then have "sched_inv c t"
    by (rule back_in_scheduler [OF assms(1,2) t(3,4) f(1) _ f(2) assms(4)]) simp
  then show ?thesis using t f len by (simp add: exec_yield_def u(1) until_switch_def)
qed

lemma exec_sleep_back:
  assumes "sched_inv c s" "i < NPROC" "cur s = Some i" "pstate (procs s ! i) = RUNNING"
    and "holder (locks s TicksLock) = None"
  shows "returns (exec_sleep i s) (\<lambda>_ t. sched_inv c t \<and> ticks t = ticks s \<and> cur t = Some i \<and>
     holder (locks t TicksLock) = None \<and> pstate (procs t ! i) = SLEEPING \<and>
     map pstate (procs t) = (map pstate (procs s))[i := SLEEPING])"
proof -
  have len: "i < length (procs s)" using assms(1,2) by (simp add: sched_inv_def ptable_inv_def)
  obtain u where u: "yield_resume True s = Ok () u" "can_lock PtableLock u" "ncli (my_cpu u) = 0" "cur u = Some i"
      "same_table s u"
    using resumed [OF assms(1,3), of True] by blast
  have ci: "cpu_inv u" using u(2) by (simp add: can_lock_def)
  have tk: "can_lock TicksLock u" using ci u(5) assms(5) by (simp add: can_lock_def same_table_def locked_holder)
  let ?v = "acquired TicksLock u"
  have pl: "can_lock PtableLock ?v" using u(2) ci by (simp add: can_lock_def)
  have lv: "i < length (procs ?v)" "ncli (my_cpu ?v) = 1" "cur ?v = Some i"
    using len u(3,4,5) ci acquired_depth [OF ci, of TicksLock] by (simp add: same_table_def, simp, simp)
  obtain t where t: "t = asleep (Some ChanTicks) TicksLock i ?v" "sleep (Some ChanTicks) (Some TicksLock) ?v = Switch t"
      "in_crit PtableLock t" "ncli (my_cpu t) = 1" "locked (locks t TicksLock) = 0" "cur t = Some i"
      "procs t = (procs ?v)[i := (procs ?v ! i)\<lparr>chan := Some ChanTicks, pstate := SLEEPING, pcontext := ctx_esp ?v\<rparr>]"
    using sleep_switches [OF in_crit_acquired [OF tk] pl lv(2,3,1)] by blast
  have f: "me t = me s" "nextpid t = nextpid s" "ticks t = ticks s" "procs ?v = procs s"
    using u(5) by (simp_all add: t(1) asleep_def same_table_def)
  have pt: "procs t = (procs s)[i := (procs s ! i)\<lparr>chan := Some ChanTicks, pstate := SLEEPING, pcontext := ctx_esp ?v\<rparr>]"
    using t(7) f(4) by simp
  then have "sched_inv c t"
    by (rule back_in_scheduler [OF assms(1,2) t(3,4) f(1) _ f(2) assms(4)]) simp
  then show ?thesis
    using t(2,5,6) f(3) pt len by (simp add: exec_sleep_def u(1) acquire_ok [OF tk] until_switch_def map_update holder_def)
qed

interpretation yielding: process_exec exec_yield "\<lambda>_. True" "\<lambda>_ _. True"
proof
  fix c s i
  assume "sched_inv c s" "i < NPROC" "cur s = Some i" "pstate (procs s ! i) = RUNNING"
  from exec_yield_back [OF this]
  show "returns (exec_yield i s) (\<lambda>_ t. sched_inv c t \<and> True \<and> sint (ticks s) \<le> sint (ticks t) \<and>
      int_range (sint (ticks t) - sint (ticks s)) \<and> pstate (procs t ! i) \<notin> {UNUSED, RUNNING} \<and> cur t = Some i \<and> True)"
    by (auto simp: int_range_def elim!: returns_mono)
qed simp

interpretation sleeping: blocking_exec exec_sleep "\<lambda>h. h TicksLock = None" "\<lambda>xs ys. nrun ys \<le> nrun xs"
proof
  fix c s i
  assume a: "sched_inv c s" "holder (locks s TicksLock) = None" "i < NPROC" "cur s = Some i" "pstate (procs s ! i) = RUNNING"
  have len: "i < length (procs s)" using a(1,3) by (simp add: sched_inv_def ptable_inv_def)
  have n: "nrun ((map pstate (procs s))[i := SLEEPING]) \<le> nrun (map pstate (procs s))"
    using len a(5) by (intro nrun_asleep) simp_all
  show "returns (exec_sleep i s) (\<lambda>_ t. sched_inv c t \<and> holder (locks t TicksLock) = None \<and>
      sint (ticks s) \<le> sint (ticks t) \<and> int_range (sint (ticks t) - sint (ticks s)) \<and>
      pstate (procs t ! i) \<notin> {UNUSED, RUNNING} \<and> cur t = Some i \<and> nrun (map pstate (procs t)) \<le> nrun (map pstate (procs s)))"
    using exec_sleep_back [OF a(1,3,4,5,2)] n by (auto simp: int_range_def elim!: returns_mono)
qed simp

section \<open>Properties\<close>

text \<open>Two runnable processes, and the scheduler holding the table lock.\<close>

definition procA :: proc where
  "procA = slot0\<lparr>pstate := RUNNABLE, pid := 1, kstack := 0x80600000, pgdir := 0x80601000, priority := 2,
     budget := 5, num_tickets := 3\<rparr>"

definition procB :: proc where
  "procB = slot0\<lparr>pstate := RUNNABLE, pid := 2, kstack := 0x80602000, pgdir := 0x80603000, priority := 1,
     budget := 2, num_tickets := 4\<rparr>"

definition vm0 :: vm where
  "vm0 = (ptable.extend ptable0 (vm.fields 0x80500000 0x80108000 (\<lambda>_. 0x80112000)))
     \<lparr>procs := procA # procB # replicate 62 slot0\<rparr>"

definition sched0 :: vm where
  "sched0 = acquired PtableLock vm0"

lemma vm0_fields:
  "procs vm0 = procA # procB # replicate 62 slot0" "nextpid vm0 = 3" "cpus vm0 = cpus ptable0"
  "locks vm0 = locks ptable0" "intr vm0 = intr ptable0" "lapic_id vm0 = lapic_id ptable0" "mem vm0 = mem ptable0"
  "freelist vm0 = freelist ptable0" "use_lock vm0 = use_lock ptable0" "kend vm0 = kend ptable0"
  by (simp_all add: vm0_def ptable0_def kmem0_def console0_def machine0_def machine.extend_def console.extend_def
      kmem.extend_def ptable.extend_def console.fields_def kmem.fields_def ptable.fields_def vm.fields_def)

lemma vm0_cpu: "cpu_inv vm0" "me vm0 = 0" "ncli (my_cpu vm0) = 0" "can_lock l vm0"
proof -
  show m: "me vm0 = 0" using ptable0_cpu(2) by (simp add: me_def vm0_fields)
  show ci: "cpu_inv vm0" using ptable0_cpu by (simp add: cpu_inv_iff m vm0_fields)
  show "ncli (my_cpu vm0) = 0" using ptable0_cpu by (simp add: m vm0_fields)
  show "can_lock l vm0" using ci ptable0_free [of l] by (simp add: can_lock_def vm0_fields)
qed

lemma sched0_inv: "sched_inv 0 sched0" "holder (locks sched0 TicksLock) = None"
proof -
  have p: "proc_inv slot0" "proc_inv procA" "proc_inv procB" "runnable_ok slot0" "runnable_ok procA" "runnable_ok procB"
    by (simp_all add: proc_inv_def runnable_ok_def slot0_def procA_def procB_def)
  have "pid ((procA # procB # replicate 62 slot0) ! i) = (if i = 0 then 1 else if i = 1 then 2 else 0)"
    if "i < 64" for i
    using that by (auto simp: nth_Cons slot0_def procA_def procB_def split: nat.splits)
  then have "pids_inv (procs vm0) 3"
    unfolding pids_inv_def all_set_conv_all_nth by (simp add: vm0_fields)
  then have "ptable_inv sched0" using p by (simp add: ptable_inv_def sched0_def vm0_fields)
  moreover have "\<forall>p \<in> set (procs sched0). runnable_ok p" using p by (simp add: sched0_def vm0_fields)
  moreover have "in_crit PtableLock sched0" unfolding sched0_def by (rule in_crit_acquired [OF vm0_cpu(4)])
  moreover have "ncli (my_cpu sched0) = 1" "me sched0 = 0"
    using acquired_depth [OF vm0_cpu(1), of PtableLock] vm0_cpu by (simp_all add: sched0_def)
  ultimately show "sched_inv 0 sched0" by (simp add: sched_inv_def)
  show "holder (locks sched0 TicksLock) = None"
    using vm0_cpu(4) [of TicksLock] by (simp add: sched0_def holder_def can_lock_def)
qed

text \<open>
  C18: the multi-level feedback queue keeps the process table sound.  For any processes that
  honour the contract of the scheduler, any number of rounds that end do so normally: all
  priorities lie between zero and the maximum, all budgets between one and the default,
  identifiers are unique, the table lock is free, no process is left on the processor, and after
  a round nothing runnable is left at the lowest level.
\<close>

theorem mlfq_keeps_invariant:
  assumes "process_exec ex ok wake" "can_lock PtableLock s" "ncli (my_cpu s) = 0" "\<not> intr s" "ptable_inv s"
    and "\<forall>p \<in> set (procs s). runnable_ok p" "ok (\<lambda>l. holder (locks s l))" "mlfqsched n ex s = Some r"
  shows "returns r (\<lambda>_ t. can_lock PtableLock t \<and> ncli (my_cpu t) = 0 \<and> me t = me s \<and> cur t = None \<and> ptable_inv t \<and>
     (\<forall>p \<in> set (procs t). runnable_ok p) \<and> (0 < n \<longrightarrow> quiet 0 t))"
proof -
  note st = scheduler_starts [OF assms(2-6)]
  have "iterate_option n (mlfq_iter ex (me s)) (set_proc (me s) None s) = Some r" using assms(8) st(1) by (simp add: mlfqsched_def)
  moreover have "process_exec.resting ok (me s) (set_proc (me s) None s)"
    using st(2,3) assms(7) by (simp add: process_exec.resting_def [OF assms(1)])
  ultimately have "returns r (\<lambda>_ t. process_exec.resting ok (me s) t \<and> (0 < n \<longrightarrow> quiet 0 t))"
    by (rule process_exec.mlfq_rounds_sound [OF assms(1)])
  then show ?thesis
    by (rule returns_mono) (auto simp: process_exec.resting_def [OF assms(1)] between_rounds_def)
qed

lemma boot_sched:
  assumes "s = vm0\<lparr>intr := False\<rparr>"
  shows "can_lock PtableLock s" "ncli (my_cpu s) = 0" "\<not> intr s" "ptable_inv s" "\<forall>p \<in> set (procs s). runnable_ok p"
    "holder (locks s TicksLock) = None"
proof -
  have m: "me s = 0" using vm0_cpu(2) by (simp add: assms me_def)
  show "can_lock PtableLock s" "ncli (my_cpu s) = 0" "\<not> intr s"
    using vm0_cpu(1,3) vm0_cpu(4) [of PtableLock] vm0_cpu(2) m by (simp_all add: can_lock_def cpu_inv_iff) (simp_all add: assms)
  show "ptable_inv s" "\<forall>p \<in> set (procs s). runnable_ok p"
    using sched0_inv(1) by (simp_all add: sched_inv_def sched0_def ptable_inv_def assms)
  show "holder (locks s TicksLock) = None" using sched0_inv(2) by (simp add: sched0_def assms holder_locked_other)
qed

lemma boot_rounds: "\<exists>t. mlfqsched n exec_sleep (vm0\<lparr>intr := False\<rparr>) = Some (Ok () t)"
proof -
  note b = boot_sched [OF refl] and st = scheduler_starts [OF boot_sched(1-5) [OF refl]]
  have "sleeping.resting (me (vm0\<lparr>intr := False\<rparr>)) (set_proc (me (vm0\<lparr>intr := False\<rparr>)) None (vm0\<lparr>intr := False\<rparr>))"
    using st(2,3) b(6) by (simp add: sleeping.resting_def)
  from sleeping.mlfq_rounds_return [OF this, of n] show ?thesis using st(1) by (simp add: mlfqsched_def)
qed

theorem mlfq_keeps_invariant_witness:
  "\<exists>t. mlfqsched 3 exec_sleep (vm0\<lparr>intr := False\<rparr>) = Some (Ok () t) \<and> cur t = None \<and> ptable_inv t \<and> quiet 0 t"
proof -
  obtain t where t: "mlfqsched 3 exec_sleep (vm0\<lparr>intr := False\<rparr>) = Some (Ok () t)" using boot_rounds by blast
  note b = boot_sched [OF refl]
  from mlfq_keeps_invariant [OF sleeping.process_exec_axioms b t] show ?thesis using t by simp
qed

text \<open>
  C19: the rounds of the multi-level feedback queue end.  The condition is that a process, from the
  switch to it until it switches back, leaves no more runnable processes in the table than there
  were beside it when it was dispatched; this excludes a process that yields, and one that wakes
  another before it blocks.  Then every number of rounds of the scheduler returns.
\<close>

theorem mlfq_round_ends:
  assumes "blocking_exec ex ok wake" "can_lock PtableLock s" "ncli (my_cpu s) = 0" "\<not> intr s" "ptable_inv s"
    and "\<forall>p \<in> set (procs s). runnable_ok p" "ok (\<lambda>l. holder (locks s l))"
  shows "\<exists>t. mlfqsched n ex s = Some (Ok () t)"
proof -
  note st = scheduler_starts [OF assms(2-6)]
  have pe: "process_exec ex ok wake" using assms(1) by (simp add: blocking_exec_def)
  have "process_exec.resting ok (me s) (set_proc (me s) None s)"
    using st(2,3) assms(7) by (simp add: process_exec.resting_def [OF pe])
  from blocking_exec.mlfq_rounds_return [OF assms(1) this, of n]
  show ?thesis using st(1) by (simp add: mlfqsched_def)
qed

theorem mlfq_round_ends_witness: "\<exists>t. mlfqsched 7 exec_sleep (vm0\<lparr>intr := False\<rparr>) = Some (Ok () t)"
  by (rule mlfq_round_ends [OF sleeping.blocking_exec_axioms boot_sched(1-6) [OF refl]])



text \<open>
  C21: the lottery is fair.  Every ticket of the draw picks a runnable process, and a
  runnable process is picked by exactly as many of the tickets as it holds.
\<close>

theorem lottery_fair:
  assumes "tickets_ok 0 ps" "i < length ps" "pstate (ps ! i) = RUNNABLE"
  shows "card {t. 1 \<le> t \<and> t \<le> tickets ps \<and> lottery_pick t 0 0 ps = Some i} = nat (num_tickets (ps ! i)) \<and>
     (\<forall>t. 1 \<le> t \<and> t \<le> tickets ps \<longrightarrow>
       (\<exists>j < length ps. lottery_pick t 0 0 ps = Some j \<and> pstate (ps ! j) = RUNNABLE))"
proof (intro conjI allI impI)
  let ?a = "tickets (take i ps)"
  have ok: "\<forall>p \<in> set ps. pstate p = RUNNABLE \<longrightarrow> 1 \<le> num_tickets p" using assms(1) by (simp add: tickets_ok_def)
  have s: "tickets (take (Suc i) ps) = ?a + num_tickets (ps ! i)"
    using tickets_take_Suc [OF assms(2)] assms(3) by simp
  have b: "0 \<le> ?a" "?a + num_tickets (ps ! i) \<le> tickets ps"
    using ok take_tickets_le [OF ok, of "Suc i"] s by (auto intro!: tickets_nonneg dest: in_set_takeD)
  have "{t. 1 \<le> t \<and> t \<le> tickets ps \<and> lottery_pick t 0 0 ps = Some i} = {?a + 1 .. ?a + num_tickets (ps ! i)}"
  proof (intro set_eqI iffI)
    fix t assume "t \<in> {t. 1 \<le> t \<and> t \<le> tickets ps \<and> lottery_pick t 0 0 ps = Some i}"
    then show "t \<in> {?a + 1 .. ?a + num_tickets (ps ! i)}"
      using lottery_pick_iff [OF assms(1), of t 0 i] s by simp
  next
    fix t assume t: "t \<in> {?a + 1 .. ?a + num_tickets (ps ! i)}"
    then have "lottery_pick t 0 0 ps = Some i"
      using lottery_pick_iff [OF assms(1), of t 0 i] s b assms(2,3) by simp
    then show "t \<in> {t. 1 \<le> t \<and> t \<le> tickets ps \<and> lottery_pick t 0 0 ps = Some i}" using t b by simp
  qed
  then show "card {t. 1 \<le> t \<and> t \<le> tickets ps \<and> lottery_pick t 0 0 ps = Some i} = nat (num_tickets (ps ! i))"
    by simp
next
  fix t assume t: "1 \<le> t \<and> t \<le> tickets ps"
  then obtain j where j: "lottery_pick t 0 0 ps = Some j" using lottery_pick_some [OF assms(1), of t 0] by auto
  then show "\<exists>j < length ps. lottery_pick t 0 0 ps = Some j \<and> pstate (ps ! j) = RUNNABLE"
    using lottery_pick_iff [OF assms(1), of t 0 j] t by auto
qed

theorem lottery_fair_witness:
  "card {t. 1 \<le> t \<and> t \<le> tickets [procA, slot0, procB] \<and> lottery_pick t 0 0 [procA, slot0, procB] = Some 2} = 4"
  using lottery_fair [of "[procA, slot0, procB]" 2]
  by (simp add: tickets_ok_def procA_def procB_def slot0_def)

text \<open>
  C22: the numbers drawn are too small for large tables.  Until the clock's timestamp
  exceeds the range of a signed integer every draw is below 4930, so a process that has
  4930 or more tickets before it in the table is never picked.
\<close>

theorem lottery_starves:
  assumes "tickets_ok 0 ps" "4930 \<le> tickets (take i ps)" "0 \<le> timestamp r" "0 < n"
  shows "lottery_pick (rand_of r smod n + 1) 0 0 ps \<noteq> Some i"
proof
  assume p: "lottery_pick (rand_of r smod n + 1) 0 0 ps = Some i"
  have r: "0 \<le> rand_of r" "rand_of r < 4930" using rand_of_bounds [of r] assms(3) by simp_all
  have "rand_of r smod n = rand_of r mod n" using r(1) assms(4) by (simp add: smod_int_alt_def sgn_if)
  then have "rand_of r smod n \<le> rand_of r" "0 \<le> rand_of r smod n"
    using r(1) assms(4) by (simp_all add: zmod_le_nonneg_dividend)
  then have "0 < rand_of r smod n + 1" "rand_of r smod n + 1 \<le> tickets (take i ps)" using r assms(2) by linarith+
  then show False using lottery_pick_iff [OF assms(1), of "rand_of r smod n + 1" 0 i] p by auto
qed

theorem lottery_starves_witness:
  "lottery_pick (rand_of \<lparr>second = 7, minute = 0, hour = 0, day = 1, month = 1, year = 1970\<rparr> smod 5001 + 1) 0 0
     [procA\<lparr>num_tickets := 5000\<rparr>, procB\<lparr>num_tickets := 1\<rparr>] \<noteq> Some 1"
  by (rule lottery_starves) (simp_all add: tickets_ok_def procA_def procB_def slot0_def timestamp_def)

end
