(* ===== verification/Bio.thy ===== *)
theory Bio
  imports Vm
begin

text \<open>
  Sleep locks (\<open>lab2/sleeplock.c\<close>), the memory disk (\<open>lab2/memide.c\<close>) and the buffer cache
  (\<open>lab2/bio.c\<close>).  Buffers are named by their index in \<open>bcache.buf\<close>; in the doubly linked
  list of buffers the name \<open>None\<close> stands for \<open>bcache.head\<close>.  The two bits of \<open>flags\<close> are two
  truth values.  \<open>disk_log\<close> records the writes in the order in which they reach the disk,
  so that the contents after a crash in the middle of an operation can be spoken about.
\<close>

abbreviation (input) BSIZE :: nat where "BSIZE \<equiv> 512"
abbreviation (input) NBUF :: nat where "NBUF \<equiv> 30"

type_synonym block = "u8 list"

record sleeplock =
  sl_locked :: bool
  sl_name :: string
  sl_pid :: int

record buf =
  b_valid :: bool
  b_dirty :: bool
  b_dev :: u32
  b_blockno :: u32
  b_refcnt :: u32
  b_data :: block

record bcache = vm +
  sleeps :: "sleepid \<Rightarrow> sleeplock"
  bufs :: "buf list"
  b_next :: "nat option \<Rightarrow> nat option"
  b_prev :: "nat option \<Rightarrow> nat option"
  disk :: "u32 \<Rightarrow> block"
  disksize :: u32
  disk_log :: "(u32 \<times> block) list"

section \<open>Sleep locks\<close>

definition upd_sleep :: "sleepid \<Rightarrow> (sleeplock \<Rightarrow> sleeplock) \<Rightarrow> 'z bcache_scheme \<Rightarrow> 'z bcache_scheme" where
  "upd_sleep l f s = s\<lparr>sleeps := (sleeps s)(l := f (sleeps s l))\<rparr>"

definition initsleeplock :: "sleepid \<Rightarrow> string \<Rightarrow> 'z bcache_scheme \<Rightarrow> 'z bcache_scheme" where
  "initsleeplock l name s =
     (let s = initlock (SleepSpin l) ''sleep lock'' s in
      upd_sleep l (\<lambda>k. k\<lparr>sl_name := name, sl_locked := False, sl_pid := 0\<rparr>) s)"

text \<open>The identifier of the running process, \<open>myproc()->pid\<close>.\<close>

definition mypid :: "'z ptable_scheme \<Rightarrow> ('z ptable_scheme, int) res" where
  "mypid s = run (myproc s) (\<lambda>p s. run (nonnull p s) (\<lambda>i s. Ok (pid (procs s ! i)) s))"

text \<open>
  \<open>acquiresleep_loop\<close> is the code under the spin lock.  \<open>sleep\<close> leaves the processor, so
  the next turn of the loop belongs to \<open>acquiresleep_resume\<close>.
\<close>

definition acquiresleep_loop :: "sleepid \<Rightarrow> 'z bcache_scheme \<Rightarrow> ('z bcache_scheme, unit) res" where
  "acquiresleep_loop l s =
     (if sl_locked (sleeps s l) then sleep (Some (ChanSleeplock l)) (Some (SleepSpin l)) s
      else
        let s = upd_sleep l (\<lambda>k. k\<lparr>sl_locked := True\<rparr>) s in
        run (mypid s) (\<lambda>p s.
        let s = upd_sleep l (\<lambda>k. k\<lparr>sl_pid := p\<rparr>) s in
        release (SleepSpin l) s))"

definition acquiresleep :: "sleepid \<Rightarrow> 'z bcache_scheme \<Rightarrow> ('z bcache_scheme, unit) res" where
  "acquiresleep l s = run (acquire (SleepSpin l) s) (\<lambda>_ s. acquiresleep_loop l s)"

definition acquiresleep_resume :: "sleepid \<Rightarrow> nat \<Rightarrow> bool \<Rightarrow> 'z bcache_scheme \<Rightarrow> ('z bcache_scheme, unit) res" where
  "acquiresleep_resume l i saved s =
     run (sleep_resume i (SleepSpin l) saved s) (\<lambda>_ s. acquiresleep_loop l s)"

definition releasesleep :: "sleepid \<Rightarrow> 'z bcache_scheme \<Rightarrow> ('z bcache_scheme, unit) res" where
  "releasesleep l s =
     run (acquire (SleepSpin l) s) (\<lambda>_ s.
     let s = upd_sleep l (\<lambda>k. k\<lparr>sl_locked := False, sl_pid := 0\<rparr>) s in
     run (wakeup (Some (ChanSleeplock l)) s) (\<lambda>_ s.
     release (SleepSpin l) s))"

definition holdingsleep :: "sleepid \<Rightarrow> 'z bcache_scheme \<Rightarrow> ('z bcache_scheme, bool) res" where
  "holdingsleep l s =
     run (acquire (SleepSpin l) s) (\<lambda>_ s.
     run (if sl_locked (sleeps s l) then run (mypid s) (\<lambda>p s. Ok (sl_pid (sleeps s l) = p) s)
          else Ok False s) (\<lambda>r s.
     run (release (SleepSpin l) s) (\<lambda>_ s. Ok r s)))"

section \<open>The memory disk\<close>

definition upd_buf :: "nat \<Rightarrow> (buf \<Rightarrow> buf) \<Rightarrow> 'z bcache_scheme \<Rightarrow> 'z bcache_scheme" where
  "upd_buf b f s = s\<lparr>bufs := (bufs s)[b := f (bufs s ! b)]\<rparr>"

definition write_disk :: "u32 \<Rightarrow> block \<Rightarrow> 'z bcache_scheme \<Rightarrow> 'z bcache_scheme" where
  "write_disk n d s = s\<lparr>disk := (disk s)(n := d), disk_log := disk_log s @ [(n, d)]\<rparr>"

definition iderw :: "nat \<Rightarrow> 'z bcache_scheme \<Rightarrow> ('z bcache_scheme, unit) res" where
  "iderw b s =
     run (holdingsleep (BufSleep b) s) (\<lambda>h s.
     if \<not> h then Panic ''iderw: buf not locked''
     else if b_valid (bufs s ! b) \<and> \<not> b_dirty (bufs s ! b) then Panic ''iderw: nothing to do''
     else if b_dev (bufs s ! b) \<noteq> 1 then Panic ''iderw: request not for disk 1''
     else if b_blockno (bufs s ! b) \<ge> disksize s then Panic ''iderw: block out of range''
     else
       let s = (if b_dirty (bufs s ! b) then
                  let s = upd_buf b (\<lambda>k. k\<lparr>b_dirty := False\<rparr>) s in
                  write_disk (b_blockno (bufs s ! b)) (b_data (bufs s ! b)) s
                else upd_buf b (\<lambda>k. k\<lparr>b_data := disk s (b_blockno k)\<rparr>) s) in
       Ok () (upd_buf b (\<lambda>k. k\<lparr>b_valid := True\<rparr>) s))"

section \<open>The buffer cache\<close>

text \<open>One turn of the loop of \<open>binit\<close>: buffer \<open>b\<close> goes to the front of the list.\<close>

definition binit_one :: "nat \<Rightarrow> 'z bcache_scheme \<Rightarrow> 'z bcache_scheme" where
  "binit_one b s =
     (let s = s\<lparr>b_next := (b_next s)(Some b := b_next s None)\<rparr>;
          s = s\<lparr>b_prev := (b_prev s)(Some b := None)\<rparr>;
          s = initsleeplock (BufSleep b) ''buffer'' s;
          s = s\<lparr>b_prev := (b_prev s)(b_next s None := Some b)\<rparr> in
      s\<lparr>b_next := (b_next s)(None := Some b)\<rparr>)"

definition binit :: "'z bcache_scheme \<Rightarrow> 'z bcache_scheme" where
  "binit s =
     (let s = initlock BcacheLock ''bcache'' s;
          s = s\<lparr>b_prev := (b_prev s)(None := None)\<rparr>;
          s = s\<lparr>b_next := (b_next s)(None := None)\<rparr> in
      fold binit_one [0..<NBUF] s)"

text \<open>
  Following the links from one buffer until one satisfies \<open>P\<close> or the head is reached.
  A walk longer than the number of buffers has met one of them twice and goes on for ever:
  \<open>None\<close>.
\<close>

fun walk :: "(nat option \<Rightarrow> nat option) \<Rightarrow> (nat \<Rightarrow> bool) \<Rightarrow> nat \<Rightarrow> nat option \<Rightarrow> nat option option" where
  "walk link P fuel None = Some None"
| "walk link P 0 (Some b) = None"
| "walk link P (Suc n) (Some b) = (if P b then Some (Some b) else walk link P n (link (Some b)))"

definition bget :: "u32 \<Rightarrow> u32 \<Rightarrow> 'z bcache_scheme \<Rightarrow> ('z bcache_scheme, nat) res" where
  "bget dev blockno s =
     run (acquire BcacheLock s) (\<lambda>_ s.
     case walk (b_next s) (\<lambda>b. b_dev (bufs s ! b) = dev \<and> b_blockno (bufs s ! b) = blockno) NBUF (b_next s None) of
       None \<Rightarrow> Spin
     | Some (Some b) \<Rightarrow>
         let s = upd_buf b (\<lambda>k. k\<lparr>b_refcnt := b_refcnt k + 1\<rparr>) s in
         run (release BcacheLock s) (\<lambda>_ s.
         run (acquiresleep (BufSleep b) s) (\<lambda>_ s. Ok b s))
     | Some None \<Rightarrow>
         (case walk (b_prev s) (\<lambda>b. b_refcnt (bufs s ! b) = 0 \<and> \<not> b_dirty (bufs s ! b)) NBUF (b_prev s None) of
            None \<Rightarrow> Spin
          | Some (Some b) \<Rightarrow>
              let s = upd_buf b (\<lambda>k. k\<lparr>b_dev := dev, b_blockno := blockno, b_valid := False, b_dirty := False,
                        b_refcnt := 1\<rparr>) s in
              run (release BcacheLock s) (\<lambda>_ s.
              run (acquiresleep (BufSleep b) s) (\<lambda>_ s. Ok b s))
          | Some None \<Rightarrow> Panic ''bget: no buffers''))"

definition bread :: "u32 \<Rightarrow> u32 \<Rightarrow> 'z bcache_scheme \<Rightarrow> ('z bcache_scheme, nat) res" where
  "bread dev blockno s =
     run (bget dev blockno s) (\<lambda>b s.
     run (if \<not> b_valid (bufs s ! b) then iderw b s else Ok () s) (\<lambda>_ s. Ok b s))"

definition bwrite :: "nat \<Rightarrow> 'z bcache_scheme \<Rightarrow> ('z bcache_scheme, unit) res" where
  "bwrite b s =
     run (holdingsleep (BufSleep b) s) (\<lambda>h s.
     if \<not> h then Panic ''bwrite''
     else iderw b (upd_buf b (\<lambda>k. k\<lparr>b_dirty := True\<rparr>) s))"

text \<open>Lines 132-137: unlink buffer \<open>b\<close> and insert it after the head.\<close>

definition to_front :: "nat \<Rightarrow> 'z bcache_scheme \<Rightarrow> 'z bcache_scheme" where
  "to_front b s =
     (let s = s\<lparr>b_prev := (b_prev s)(b_next s (Some b) := b_prev s (Some b))\<rparr>;
          s = s\<lparr>b_next := (b_next s)(b_prev s (Some b) := b_next s (Some b))\<rparr>;
          s = s\<lparr>b_next := (b_next s)(Some b := b_next s None)\<rparr>;
          s = s\<lparr>b_prev := (b_prev s)(Some b := None)\<rparr>;
          s = s\<lparr>b_prev := (b_prev s)(b_next s None := Some b)\<rparr> in
      s\<lparr>b_next := (b_next s)(None := Some b)\<rparr>)"

definition brelse :: "nat \<Rightarrow> 'z bcache_scheme \<Rightarrow> ('z bcache_scheme, unit) res" where
  "brelse b s =
     run (holdingsleep (BufSleep b) s) (\<lambda>h s.
     if \<not> h then Panic ''brelse''
     else
       run (releasesleep (BufSleep b) s) (\<lambda>_ s.
       run (acquire BcacheLock s) (\<lambda>_ s.
       let s = upd_buf b (\<lambda>k. k\<lparr>b_refcnt := b_refcnt k - 1\<rparr>) s;
           s = (if b_refcnt (bufs s ! b) = 0 then to_front b s else s) in
       release BcacheLock s)))"

section \<open>The list of buffers\<close>

text \<open>
  \<open>chain link x bs y\<close>: following \<open>link\<close> from \<open>x\<close> visits the buffers \<open>bs\<close> and arrives at
  \<open>y\<close>.  \<open>dll nx pv xs\<close>: the two link fields form the doubly linked list \<open>xs\<close>, most recently
  used buffer first, closed by the head.
\<close>

fun chain :: "(nat option \<Rightarrow> nat option) \<Rightarrow> nat option \<Rightarrow> nat list \<Rightarrow> nat option \<Rightarrow> bool" where
  "chain link x [] y \<longleftrightarrow> link x = y"
| "chain link x (b # bs) y \<longleftrightarrow> link x = Some b \<and> chain link (Some b) bs y"

definition dll :: "(nat option \<Rightarrow> nat option) \<Rightarrow> (nat option \<Rightarrow> nat option) \<Rightarrow> nat list \<Rightarrow> bool" where
  "dll nx pv xs \<longleftrightarrow> distinct xs \<and> chain nx None xs None \<and> chain pv None (rev xs) None"

definition end_of :: "nat option \<Rightarrow> nat list \<Rightarrow> nat option" where
  "end_of x bs = (if bs = [] then x else Some (last bs))"

lemma end_of_simps [simp]: "end_of x [] = x" "end_of x (b # bs) = end_of (Some b) bs"
  by (simp_all add: end_of_def)

lemma end_of_in: "end_of x bs \<in> insert x (Some ` set bs)"
  by (simp add: end_of_def)

lemma chain_append: "chain nx x (as @ b # bs) y \<longleftrightarrow> chain nx x as (Some b) \<and> chain nx (Some b) bs y"
  by (induction as arbitrary: x) auto

lemma chain_end: "chain nx x as y \<Longrightarrow> nx (end_of x as) = y"
  by (induction as arbitrary: x) auto

lemma chain_cong:
  "(\<And>z. z \<in> insert x (Some ` set bs) \<Longrightarrow> nx z = nx' z) \<Longrightarrow> chain nx x bs y \<Longrightarrow> chain nx' x bs y"
  by (induction bs arbitrary: x) auto

text \<open>Redirecting the last link of a chain.\<close>

lemma chain_retarget:
  assumes "chain nx x as y" "distinct as" "x \<notin> Some ` set as"
  shows "chain (nx(end_of x as := z)) x as z"
  using assms
proof (induction as arbitrary: x)
  case Nil
  then show ?case by simp
next
  case (Cons a as)
  have p: "chain nx (Some a) as y" "distinct as" "Some a \<notin> Some ` set as" using Cons.prems by auto
  have c: "chain (nx(end_of (Some a) as := z)) (Some a) as z" by (rule Cons.IH [OF p])
  have "x \<noteq> end_of (Some a) as"
    using end_of_in [of "Some a" as] Cons.prems(3) unfolding list.set image_insert by blast
  then have "(nx(end_of (Some a) as := z)) x = nx x" by (rule fun_upd_other)
  also have "nx x = Some a" using Cons.prems(1) by (rule chain.simps(2) [THEN iffD1, THEN conjunct1])
  finally have "chain (nx(end_of (Some a) as := z)) x (a # as) z" using c by (rule chain.simps(2) [THEN iffD2, OF conjI])
  then show ?case by (simp only: end_of_simps)
qed

lemma chain_join:
  assumes "chain nx x as z" "chain nx (end_of x as) bs y" "distinct as" "x \<notin> Some ` set as"
  shows "chain nx x (as @ bs) y"
  using assms by (induction as arbitrary: x) auto

lemma chain_unlink:
  assumes "chain nx x (as @ b # bs) y" "distinct (as @ b # bs)" "x \<notin> Some ` set (as @ b # bs)"
  shows "chain (nx(end_of x as := nx (Some b))) x (as @ bs) y"
proof -
  let ?e = "end_of x as" and ?n = "nx (Some b)"
  have a: "chain nx x as (Some b)" and bc: "chain nx (Some b) bs y" using assms(1) by (simp_all add: chain_append)
  have e: "?e \<notin> Some ` set bs" using end_of_in [of x as] assms(2,3) by (auto simp del: image_iff)
  have e2: "chain (nx(?e := ?n)) ?e bs y"
  proof (cases bs)
    case Nil
    then show ?thesis using bc by simp
  next
    case (Cons c cs)
    then have cc: "chain nx (Some c) cs y" and n: "?n = Some c" using bc by simp_all
    have "chain (nx(?e := ?n)) (Some c) cs y" by (rule chain_cong [OF _ cc]) (use e Cons in auto)
    then show ?thesis using n Cons by simp
  qed
  have e1: "chain (nx(?e := ?n)) x as ?n" by (rule chain_retarget [OF a]) (use assms in auto)
  show ?thesis by (rule chain_join [OF e1 e2]) (use assms in auto)
qed

lemma dll_ends:
  assumes "dll nx pv (as @ b # bs)"
  shows "pv (Some b) = end_of None as" "nx (Some b) = end_of None (rev bs)"
proof -
  have p: "chain pv None (rev bs @ b # rev as) None" using assms by (simp add: dll_def)
  have n: "chain nx None (as @ b # bs) None" using assms by (simp add: dll_def)
  show "pv (Some b) = end_of None as"
    using p by (cases as rule: rev_cases) (auto simp: chain_append end_of_def)
  show "nx (Some b) = end_of None (rev bs)"
    using n by (cases bs) (auto simp: chain_append end_of_def last_rev)
qed

text \<open>Unlinking a buffer, and linking it in behind the head.\<close>

lemma dll_unlink:
  assumes "dll nx pv (as @ b # bs)"
  shows "dll (nx(pv (Some b) := nx (Some b))) (pv(nx (Some b) := pv (Some b))) (as @ bs)"
  using assms chain_unlink [of nx None as b bs None] chain_unlink [of pv None "rev bs" b "rev as" None]
  by (auto simp: dll_def dll_ends [OF assms])

lemma dll_push:
  assumes "dll nx pv ys" "b \<notin> set ys"
  shows "dll (nx(Some b := nx None, None := Some b)) (pv(Some b := None, nx None := Some b)) (b # ys)"
proof -
  have n: "chain nx None ys None" and p: "chain pv None (rev ys) None" and d: "distinct ys"
    using assms(1) by (simp_all add: dll_def)
  have f: "nx None = end_of None (rev ys)" using n by (cases ys) (auto simp: end_of_def)
  let ?nx = "nx(Some b := nx None, None := Some b)" and ?pv = "pv(Some b := None, nx None := Some b)"
  have "chain ?nx (Some b) ys None"
  proof (cases ys)
    case Nil
    then show ?thesis using n by simp
  next
    case (Cons c cs)
    then have c: "chain nx (Some c) cs None" and h: "nx None = Some c" using n by simp_all
    have "chain ?nx (Some c) cs None" by (rule chain_cong [OF _ c]) (use assms(2) Cons in auto)
    then show ?thesis using h Cons by simp
  qed
  moreover have "chain ?pv None (rev ys @ [b]) None"
  proof -
    have ne: "nx None \<noteq> Some b" using f end_of_in [of None "rev ys"] assms(2) by auto
    have c: "chain (pv(end_of None (rev ys) := Some b)) None (rev ys) (Some b)"
      by (rule chain_retarget [OF p]) (use d in auto)
    have "chain ?pv None (rev ys) (Some b)"
      unfolding f by (rule chain_cong [OF _ c]) (use assms(2) in auto)
    then show ?thesis using ne by (simp add: chain_append)
  qed
  ultimately show ?thesis using d assms(2) by (simp add: dll_def)
qed

abbreviation buffers :: "'z bcache_scheme \<Rightarrow> nat list \<Rightarrow> bool" where
  "buffers s xs \<equiv> dll (b_next s) (b_prev s) xs"

lemma to_front_list:
  assumes "buffers s (as @ b # bs)"
  shows "buffers (to_front b s) (b # as @ bs)"
proof -
  let ?n = "b_next s (Some b)" and ?p = "b_prev s (Some b)"
  let ?nx = "(b_next s)(?p := ?n)" and ?pv = "(b_prev s)(?n := ?p)"
  have d: "distinct (as @ b # bs)" using assms by (simp add: dll_def)
  have "Some b \<noteq> ?n" using dll_ends [OF assms] end_of_in [of None "rev bs"] d by auto
  then have "?pv (Some b) = ?p" by (rule fun_upd_other)
  then have "b_next (to_front b s) = ?nx(Some b := ?nx None, None := Some b)"
    "b_prev (to_front b s) = ?pv(Some b := None, ?nx None := Some b)"
    by (simp_all add: to_front_def Let_def del: fun_upd_apply) (simp_all only: fun_upd_other fun_upd_same option.distinct not_False_eq_True)
  moreover have "dll ?nx ?pv (as @ bs)" by (rule dll_unlink [OF assms])
  ultimately show ?thesis using dll_push [of ?nx ?pv "as @ bs" b] d by simp
qed

lemma walk_find:
  "chain link x ys None \<Longrightarrow> length ys \<le> fuel \<Longrightarrow> walk link P fuel (link x) = Some (find P ys)"
proof (induction ys arbitrary: x fuel)
  case Nil
  then show ?case by simp
next
  case (Cons y ys)
  then obtain n where n: "fuel = Suc n" by (cases fuel) auto
  with Cons show ?case by simp
qed

lemma binit_one_list:
  assumes "buffers s xs" "b \<notin> set xs"
  shows "buffers (binit_one b s) (b # xs)"
proof -
  have i: "b_next (initsleeplock l n t) = b_next t" "b_prev (initsleeplock l n t) = b_prev t"
    for l n and t :: "'a bcache_scheme"
    by (simp_all add: initsleeplock_def upd_sleep_def initlock_def upd_lock_def Let_def)
  have "b_next (binit_one b s) = (b_next s)(Some b := b_next s None, None := Some b)"
    "b_prev (binit_one b s) = (b_prev s)(Some b := None, b_next s None := Some b)"
    by (simp_all add: binit_one_def Let_def i)
  then show ?thesis using dll_push [OF assms] by simp
qed

lemma binit_list: "buffers (binit s) (rev [0..<NBUF])"
proof -
  have "buffers (fold binit_one [0..<n] t) (rev [0..<n])" if "buffers t []" for n and t :: "'a bcache_scheme"
    by (induction n) (simp_all add: that binit_one_list)
  then show ?thesis by (simp add: binit_def Let_def dll_def)
qed

end
