(* ===== verification/Layout.thy ===== *)
theory Layout
  imports Prelude
begin

text \<open>
  The on-disk format of \<open>lab2/fs.h\<close> and the log header of \<open>lab2/log.c\<close>: little-endian words
  and half words at offsets of a byte block, and the structures built from them.
\<close>

section \<open>Words in a block\<close>

definition get16 :: "u8 list \<Rightarrow> nat \<Rightarrow> u16" where
  "get16 d i = ucast (d ! i) OR push_bit 8 (ucast (d ! (i + 1)))"

definition put16 :: "u8 list \<Rightarrow> nat \<Rightarrow> u16 \<Rightarrow> u8 list" where
  "put16 d i v = d[i := ucast v, i + 1 := ucast (drop_bit 8 v)]"

definition get32 :: "u8 list \<Rightarrow> nat \<Rightarrow> u32" where
  "get32 d i = le_word (d ! i) (d ! (i + 1)) (d ! (i + 2)) (d ! (i + 3))"

definition put32 :: "u8 list \<Rightarrow> nat \<Rightarrow> u32 \<Rightarrow> u8 list" where
  "put32 d i v = d[i := ucast v, i + 1 := ucast (drop_bit 8 v), i + 2 := ucast (drop_bit 16 v),
     i + 3 := ucast (drop_bit 24 v)]"

fun put32s :: "u8 list \<Rightarrow> nat \<Rightarrow> u32 list \<Rightarrow> u8 list" where
  "put32s d i [] = d"
| "put32s d i (v # vs) = put32s (put32 d i v) (i + 4) vs"

definition get32s :: "u8 list \<Rightarrow> nat \<Rightarrow> nat \<Rightarrow> u32 list" where
  "get32s d i n = map (\<lambda>k. get32 d (i + 4 * k)) [0..<n]"

text \<open>\<open>memmove\<close> of \<open>src\<close> into a block at offset \<open>i\<close>.\<close>

definition splice :: "u8 list \<Rightarrow> nat \<Rightarrow> u8 list \<Rightarrow> u8 list" where
  "splice d i src = take i d @ src @ drop (i + length src) d"

section \<open>Structures\<close>

record superblock =
  sb_size :: u32
  sb_nblocks :: u32
  sb_ninodes :: u32
  sb_nlog :: u32
  sb_logstart :: u32
  sb_inodestart :: u32
  sb_bmapstart :: u32

definition sb_of :: "u8 list \<Rightarrow> superblock" where
  "sb_of d = \<lparr>sb_size = get32 d 0, sb_nblocks = get32 d 4, sb_ninodes = get32 d 8, sb_nlog = get32 d 12,
     sb_logstart = get32 d 16, sb_inodestart = get32 d 20, sb_bmapstart = get32 d 24\<rparr>"

record dinode =
  d_type :: u16
  d_major :: u16
  d_minor :: u16
  d_nlink :: u16
  d_size :: u32
  d_addrs :: "u32 list"

abbreviation (input) NDIRECT :: nat where "NDIRECT \<equiv> 12"
abbreviation (input) NINDIRECT :: nat where "NINDIRECT \<equiv> 128"
abbreviation (input) MAXFILE :: nat where "MAXFILE \<equiv> 140"
abbreviation (input) IPB :: nat where "IPB \<equiv> 8"
abbreviation (input) BPB :: nat where "BPB \<equiv> 4096"
abbreviation (input) DIRSIZ :: nat where "DIRSIZ \<equiv> 14"

text \<open>An inode takes 64 bytes, a directory entry 16.\<close>

definition IBLOCK :: "u32 \<Rightarrow> superblock \<Rightarrow> u32" where
  "IBLOCK i sb = i div of_nat IPB + sb_inodestart sb"

definition BBLOCK :: "u32 \<Rightarrow> superblock \<Rightarrow> u32" where
  "BBLOCK b sb = b div of_nat BPB + sb_bmapstart sb"

definition get_dinode :: "u8 list \<Rightarrow> nat \<Rightarrow> dinode" where
  "get_dinode d i = \<lparr>d_type = get16 d i, d_major = get16 d (i + 2), d_minor = get16 d (i + 4),
     d_nlink = get16 d (i + 6), d_size = get32 d (i + 8), d_addrs = get32s d (i + 12) (NDIRECT + 1)\<rparr>"

definition put_dinode :: "u8 list \<Rightarrow> nat \<Rightarrow> dinode \<Rightarrow> u8 list" where
  "put_dinode d i x =
     (let d = put16 d i (d_type x);
          d = put16 d (i + 2) (d_major x);
          d = put16 d (i + 4) (d_minor x);
          d = put16 d (i + 6) (d_nlink x);
          d = put32 d (i + 8) (d_size x) in
      put32s d (i + 12) (d_addrs x))"

record dirent =
  de_inum :: u16
  de_name :: "u8 list"

definition get_dirent :: "u8 list \<Rightarrow> dirent" where
  "get_dirent d = \<lparr>de_inum = get16 d 0, de_name = take DIRSIZ (drop 2 d)\<rparr>"

definition put_dirent :: "dirent \<Rightarrow> u8 list" where
  "put_dirent e = [ucast (de_inum e), ucast (drop_bit 8 (de_inum e))] @ de_name e"

section \<open>Reading back what was written\<close>

lemma length_put [simp]:
  "length (put16 d i v) = length d" "length (put32 d i w) = length d"
  by (simp_all add: put16_def put32_def)

lemma length_put32s [simp]: "length (put32s d i vs) = length d"
  by (induction vs arbitrary: d i) simp_all

lemma get16_put16: "i + 1 < length d \<Longrightarrow> get16 (put16 d i v) i = v"
  unfolding get16_def put16_def
  by (simp, rule bit_eqI, simp only: bit_or_iff bit_push_bit_iff bit_ucast_iff bit_drop_bit_eq, force)

lemma get32_put32: "i + 3 < length d \<Longrightarrow> get32 (put32 d i v) i = v"
  by (simp add: get32_def put32_def)

lemma get16_put_other:
  "j + 1 < i \<or> i + 1 < j \<Longrightarrow> get16 (put16 d i v) j = get16 d j"
  "j + 1 < i \<or> i + 3 < j \<Longrightarrow> get16 (put32 d i w) j = get16 d j"
  by (auto simp: get16_def put16_def put32_def)

lemma get32_put_other:
  "j + 3 < i \<or> i + 1 < j \<Longrightarrow> get32 (put16 d i v) j = get32 d j"
  "j + 3 < i \<or> i + 3 < j \<Longrightarrow> get32 (put32 d i w) j = get32 d j"
  by (auto simp: get32_def put16_def put32_def)

lemma get16_put32s: "j + 1 < i \<Longrightarrow> get16 (put32s d i vs) j = get16 d j"
  by (induction vs arbitrary: d i) (simp_all add: get16_put_other)

lemma get32_put32s_before: "j + 3 < i \<Longrightarrow> get32 (put32s d i vs) j = get32 d j"
  by (induction vs arbitrary: d i) (simp_all add: get32_put_other)

lemma get32s_Suc: "get32s d i (Suc n) = get32 d i # get32s d (i + 4) n"
  by (simp add: get32s_def upt_conv_Cons map_Suc_upt [symmetric] algebra_simps del: upt_Suc)

lemma get32s_put32s:
  "i + 4 * length vs \<le> length d \<Longrightarrow> get32s (put32s d i vs) i (length vs) = vs"
proof (induction vs arbitrary: d i)
  case Nil
  then show ?case by (simp add: get32s_def)
next
  case (Cons v vs)
  then have "get32s (put32s (put32 d i v) (i + 4) vs) (i + 4) (length vs) = vs" by (intro Cons.IH) simp
  moreover have "get32 (put32s (put32 d i v) (i + 4) vs) i = v"
    using Cons.prems by (simp add: get32_put32s_before get32_put32)
  ultimately show ?case by (simp add: get32s_Suc)
qed

lemma get_put_dinode:
  assumes "i + 64 \<le> length d" "length (d_addrs x) = NDIRECT + 1"
  shows "get_dinode (put_dinode d i x) i = x"
proof -
  have a: "get32s (put32s d' (i + 12) (d_addrs x)) (i + 12) 13 = d_addrs x" if "length d' = length d" for d'
    using get32s_put32s [of "i + 12" "d_addrs x" d'] assms that by simp
  show ?thesis
    using assms by (simp add: get_dinode_def put_dinode_def Let_def get16_put32s get32_put32s_before
        get16_put16 get32_put32 get16_put_other get32_put_other a)
qed

lemma length_put_dinode [simp]: "length (put_dinode d i x) = length d"
  by (simp add: put_dinode_def Let_def)

lemma get_put_dirent:
  assumes "length (de_name e) = DIRSIZ"
  shows "get_dirent (put_dirent e) = e"
proof -
  have "get16 ([ucast v, ucast (drop_bit 8 v)] @ xs) 0 = v" for v :: u16 and xs
    unfolding get16_def
    by (simp, rule bit_eqI, simp only: bit_or_iff bit_push_bit_iff bit_ucast_iff bit_drop_bit_eq, force)
  then show ?thesis using assms by (simp add: get_dirent_def put_dirent_def)
qed

lemma nth_put_other:
  "j \<notin> {i, i + 1} \<Longrightarrow> put16 d i v ! j = d ! j" "j \<notin> {i, i + 1, i + 2, i + 3} \<Longrightarrow> put32 d i w ! j = d ! j"
  by (auto simp: put16_def put32_def)

lemma nth_put32s_other: "j < i \<or> i + 4 * length vs \<le> j \<Longrightarrow> put32s d i vs ! j = d ! j"
proof (induction vs arbitrary: d i)
  case (Cons v vs)
  then have "put32s (put32 d i v) (i + 4) vs ! j = put32 d i v ! j" by (intro Cons.IH) auto
  then show ?case using Cons.prems by (auto simp: nth_put_other)
qed simp

text \<open>Writing one inode of a block leaves the others alone.\<close>

lemma nth_put_dinode_other:
  assumes "length (d_addrs x) = NDIRECT + 1" "j < i \<or> i + 64 \<le> j"
  shows "put_dinode d i x ! j = d ! j"
  using assms by (auto simp: put_dinode_def Let_def nth_put32s_other nth_put_other)

lemma get_put_dinode_other:
  assumes "length (d_addrs x) = NDIRECT + 1" "k \<noteq> l"
  shows "get_dinode (put_dinode d (64 * k) x) (64 * l) = get_dinode d (64 * l)"
proof -
  have o: "put_dinode d (64 * k) x ! (64 * l + j) = d ! (64 * l + j)" if "j < 64" for j
    using assms that by (intro nth_put_dinode_other) linarith+
  have "get32 (put_dinode d (64 * k) x) (64 * l + j) = get32 d (64 * l + j)" if "j \<le> 60" for j
    using o [of j] o [of "j + 1"] o [of "j + 2"] o [of "j + 3"] that by (simp add: get32_def add.assoc)
  moreover have h: "get16 (put_dinode d (64 * k) x) (64 * l + j) = get16 d (64 * l + j)" if "j \<le> 62" for j
    using o [of j] o [of "j + 1"] that by (simp add: get16_def add.assoc)
  ultimately show ?thesis using h [of 0] h [of 2] by (simp add: get_dinode_def get32s_def add.assoc)
qed

end
