(* ===== verification/Log.thy ===== *)
theory Log
  imports Bio Layout
begin

text \<open>
  The write-ahead log \<open>lab2/log.c\<close> and \<open>readsb\<close> of \<open>lab2/fs.c\<close>.
\<close>

abbreviation (input) MAXOPBLOCKS :: int where "MAXOPBLOCKS \<equiv> 10"
abbreviation (input) LOGSIZE :: int where "LOGSIZE \<equiv> 30"

record logrec = bcache +
  log_start :: int
  log_size :: int
  outstanding :: int
  committing :: bool
  log_dev :: u32
  lh_n :: int
  lh_block :: "int list"

definition blk :: "int \<Rightarrow> u32" where
  "blk n = word_of_int n"

definition readsb :: "u32 \<Rightarrow> 'z bcache_scheme \<Rightarrow> ('z bcache_scheme, superblock) res" where
  "readsb dev s =
     run (bread dev 1 s) (\<lambda>bp s.
     let sb = sb_of (b_data (bufs s ! bp)) in
     run (brelse bp s) (\<lambda>_ s. Ok sb s))"

section \<open>Installing and recovering\<close>

definition install_one :: "nat \<Rightarrow> 'z logrec_scheme \<Rightarrow> ('z logrec_scheme, unit) res" where
  "install_one tail s =
     run (bread (log_dev s) (blk (log_start s + int tail + 1)) s) (\<lambda>lbuf s.
     run (bread (log_dev s) (blk (lh_block s ! tail)) s) (\<lambda>dbuf s.
     let s = upd_buf dbuf (\<lambda>k. k\<lparr>b_data := b_data (bufs s ! lbuf)\<rparr>) s in
     run (bwrite dbuf s) (\<lambda>_ s.
     run (brelse lbuf s) (\<lambda>_ s.
     brelse dbuf s))))"

definition install_trans :: "'z logrec_scheme \<Rightarrow> ('z logrec_scheme, unit) res" where
  "install_trans s = for_each [0..<nat (lh_n s)] install_one s"

text \<open>
  The header on disk is the count followed by the block numbers.  A count above the
  capacity of the array in memory would make \<open>read_head\<close> write past its end.
\<close>

definition read_head :: "'z logrec_scheme \<Rightarrow> ('z logrec_scheme, unit) res" where
  "read_head s =
     run (bread (log_dev s) (blk (log_start s)) s) (\<lambda>buf s.
     let d = b_data (bufs s ! buf);
         s = s\<lparr>lh_n := sint (get32 d 0)\<rparr> in
     if lh_n s > LOGSIZE then Panic ''read_head: block array overrun''
     else
       let s = s\<lparr>lh_block := map (\<lambda>i. sint (get32 d (4 + 4 * i))) [0..<nat (lh_n s)]
                   @ drop (nat (lh_n s)) (lh_block s)\<rparr> in
       brelse buf s)"

definition write_head :: "'z logrec_scheme \<Rightarrow> ('z logrec_scheme, unit) res" where
  "write_head s =
     run (bread (log_dev s) (blk (log_start s)) s) (\<lambda>buf s.
     let s = upd_buf buf (\<lambda>k. k\<lparr>b_data := put32 (b_data k) 0 (blk (lh_n s))\<rparr>) s;
         s = upd_buf buf (\<lambda>k. k\<lparr>b_data := put32s (b_data k) 4 (map blk (take (nat (lh_n s)) (lh_block s)))\<rparr>) s in
     run (bwrite buf s) (\<lambda>_ s.
     brelse buf s))"

definition recover_from_log :: "'z logrec_scheme \<Rightarrow> ('z logrec_scheme, unit) res" where
  "recover_from_log s =
     run (read_head s) (\<lambda>_ s.
     run (install_trans s) (\<lambda>_ s.
     let s = s\<lparr>lh_n := 0\<rparr> in
     write_head s))"

text \<open>The header takes 124 bytes, less than a block.\<close>

definition initlog :: "u32 \<Rightarrow> 'z logrec_scheme \<Rightarrow> ('z logrec_scheme, unit) res" where
  "initlog dev s =
     (if (4 + 4 * LOGSIZE) \<ge> int BSIZE then Panic ''initlog: too big logheader''
      else
        let s = initlock LogLock ''log'' s in
        run (readsb dev s) (\<lambda>sb s.
        let s = s\<lparr>log_start := sint (sb_logstart sb)\<rparr>;
            s = s\<lparr>log_size := sint (sb_nlog sb)\<rparr>;
            s = s\<lparr>log_dev := dev\<rparr> in
        recover_from_log s))"

section \<open>Transactions\<close>

text \<open>
  The body of the loop of \<open>begin_op\<close>; after \<open>sleep\<close> the loop goes on in
  \<open>begin_op_resume\<close>.
\<close>

definition begin_op_loop :: "'z logrec_scheme \<Rightarrow> ('z logrec_scheme, unit) res" where
  "begin_op_loop s =
     (if committing s then sleep (Some ChanLog) (Some LogLock) s
      else if lh_n s + (outstanding s + 1) * MAXOPBLOCKS > LOGSIZE then sleep (Some ChanLog) (Some LogLock) s
      else
        let s = s\<lparr>outstanding := outstanding s + 1\<rparr> in
        release LogLock s)"

definition begin_op :: "'z logrec_scheme \<Rightarrow> ('z logrec_scheme, unit) res" where
  "begin_op s = run (acquire LogLock s) (\<lambda>_ s. begin_op_loop s)"

definition begin_op_resume :: "nat \<Rightarrow> bool \<Rightarrow> 'z logrec_scheme \<Rightarrow> ('z logrec_scheme, unit) res" where
  "begin_op_resume i saved s = run (sleep_resume i LogLock saved s) (\<lambda>_ s. begin_op_loop s)"

definition write_log_one :: "nat \<Rightarrow> 'z logrec_scheme \<Rightarrow> ('z logrec_scheme, unit) res" where
  "write_log_one tail s =
     run (bread (log_dev s) (blk (log_start s + int tail + 1)) s) (\<lambda>to s.
     run (bread (log_dev s) (blk (lh_block s ! tail)) s) (\<lambda>from s.
     let s = upd_buf to (\<lambda>k. k\<lparr>b_data := b_data (bufs s ! from)\<rparr>) s in
     run (bwrite to s) (\<lambda>_ s.
     run (brelse from s) (\<lambda>_ s.
     brelse to s))))"

definition write_log :: "'z logrec_scheme \<Rightarrow> ('z logrec_scheme, unit) res" where
  "write_log s = for_each [0..<nat (lh_n s)] write_log_one s"

definition commit :: "'z logrec_scheme \<Rightarrow> ('z logrec_scheme, unit) res" where
  "commit s =
     (if lh_n s > 0 then
        run (write_log s) (\<lambda>_ s.
        run (write_head s) (\<lambda>_ s.
        run (install_trans s) (\<lambda>_ s.
        let s = s\<lparr>lh_n := 0\<rparr> in
        write_head s)))
      else Ok () s)"

definition end_op :: "'z logrec_scheme \<Rightarrow> ('z logrec_scheme, unit) res" where
  "end_op s =
     run (acquire LogLock s) (\<lambda>_ s.
     let s = s\<lparr>outstanding := outstanding s - 1\<rparr> in
     if committing s then Panic ''log.committing''
     else
       run (if outstanding s = 0 then Ok True (s\<lparr>committing := True\<rparr>)
            else run (wakeup (Some ChanLog) s) (\<lambda>_ s. Ok False s)) (\<lambda>do_commit s.
       run (release LogLock s) (\<lambda>_ s.
       if do_commit then
         run (commit s) (\<lambda>_ s.
         run (acquire LogLock s) (\<lambda>_ s.
         let s = s\<lparr>committing := False\<rparr> in
         run (wakeup (Some ChanLog) s) (\<lambda>_ s.
         release LogLock s)))
       else Ok () s)))"

text \<open>Lines 224-227: the slot of the block in the header, or the first unused one.\<close>

definition absorb_slot :: "int \<Rightarrow> 'z logrec_scheme \<Rightarrow> nat" where
  "absorb_slot b s = (case find_index (\<lambda>x. x = b) (take (nat (lh_n s)) (lh_block s)) of
     Some i \<Rightarrow> i | None \<Rightarrow> nat (lh_n s))"

definition log_write :: "nat \<Rightarrow> 'z logrec_scheme \<Rightarrow> ('z logrec_scheme, unit) res" where
  "log_write b s =
     (if lh_n s \<ge> LOGSIZE \<or> lh_n s \<ge> log_size s - 1 then Panic ''too big a transaction''
      else if outstanding s < 1 then Panic ''log_write outside of trans''
      else
        run (acquire LogLock s) (\<lambda>_ s.
        let i = absorb_slot (sint (b_blockno (bufs s ! b))) s;
            s = s\<lparr>lh_block := (lh_block s)[i := sint (b_blockno (bufs s ! b))]\<rparr>;
            s = (if int i = lh_n s then s\<lparr>lh_n := lh_n s + 1\<rparr> else s);
            s = upd_buf b (\<lambda>k. k\<lparr>b_dirty := True\<rparr>) s in
        release LogLock s))"

end
