(* ===== verification/Inode.thy ===== *)
theory Inode
  imports Log
begin

text \<open>
  Disk blocks and inodes, the first half of \<open>lab2/fs.c\<close>: block allocation, the inode cache,
  the map from file blocks to disk blocks, truncation.  Inodes in memory are named by their
  slot in \<open>icache.inode\<close>.
\<close>

abbreviation (input) NINODE :: nat where "NINODE \<equiv> 50"

record inode =
  i_dev :: u32
  i_inum :: u32
  i_ref :: int
  i_valid :: bool
  i_type :: u16
  i_major :: u16
  i_minor :: u16
  i_nlink :: u16
  i_size :: u32
  i_addrs :: "u32 list"

record icache = logrec +
  inodes :: "inode list"
  sb :: superblock

definition upd_inode :: "nat \<Rightarrow> (inode \<Rightarrow> inode) \<Rightarrow> 'z icache_scheme \<Rightarrow> 'z icache_scheme" where
  "upd_inode i f s = s\<lparr>inodes := (inodes s)[i := f (inodes s ! i)]\<rparr>"

section \<open>Blocks\<close>

definition bzero :: "u32 \<Rightarrow> u32 \<Rightarrow> 'z icache_scheme \<Rightarrow> ('z icache_scheme, unit) res" where
  "bzero dev bno s =
     run (bread dev bno s) (\<lambda>bp s.
     let s = upd_buf bp (\<lambda>k. k\<lparr>b_data := replicate BSIZE 0\<rparr>) s in
     run (log_write bp s) (\<lambda>_ s.
     brelse bp s))"

text \<open>The first clear bit of a bitmap block among the first \<open>n\<close> bits.\<close>

definition bit_clear :: "block \<Rightarrow> nat \<Rightarrow> bool" where
  "bit_clear d bi \<longleftrightarrow> d ! (bi div 8) AND push_bit (bi mod 8) 1 = 0"

definition mark_bit :: "nat \<Rightarrow> block \<Rightarrow> block" where
  "mark_bit bi d = d[bi div 8 := d ! (bi div 8) OR push_bit (bi mod 8) 1]"

definition clear_bit :: "nat \<Rightarrow> block \<Rightarrow> block" where
  "clear_bit bi d = d[bi div 8 := d ! (bi div 8) AND NOT (push_bit (bi mod 8) 1)]"

fun balloc_loop :: "u32 \<Rightarrow> nat list \<Rightarrow> 'z icache_scheme \<Rightarrow> ('z icache_scheme, u32) res" where
  "balloc_loop dev [] s = Panic ''balloc: out of blocks''"
| "balloc_loop dev (b # bs) s =
     run (bread dev (BBLOCK (of_nat b) (sb s)) s) (\<lambda>bp s.
     case find_index (bit_clear (b_data (bufs s ! bp))) [0..<min BPB (unat (sb_size (sb s)) - b)] of
       Some bi \<Rightarrow>
         let s = upd_buf bp (\<lambda>k. k\<lparr>b_data := mark_bit bi (b_data k)\<rparr>) s in
         run (log_write bp s) (\<lambda>_ s.
         run (brelse bp s) (\<lambda>_ s.
         run (bzero dev (of_nat (b + bi)) s) (\<lambda>_ s.
         Ok (of_nat (b + bi)) s)))
     | None \<Rightarrow> run (brelse bp s) (\<lambda>_ s. balloc_loop dev bs s))"

text \<open>The outer loop visits the first bit of every bitmap block: 0, \<open>BPB\<close>, ... below the size.\<close>

definition balloc :: "u32 \<Rightarrow> 'z icache_scheme \<Rightarrow> ('z icache_scheme, u32) res" where
  "balloc dev s = balloc_loop dev (map (\<lambda>i. BPB * i) [0..<(unat (sb_size (sb s)) + (BPB - 1)) div BPB]) s"

definition bfree :: "u32 \<Rightarrow> u32 \<Rightarrow> 'z icache_scheme \<Rightarrow> ('z icache_scheme, unit) res" where
  "bfree dev b s =
     run (bread dev (BBLOCK b (sb s)) s) (\<lambda>bp s.
     let bi = unat b mod BPB in
     if bit_clear (b_data (bufs s ! bp)) bi then Panic ''freeing free block''
     else
       let s = upd_buf bp (\<lambda>k. k\<lparr>b_data := clear_bit bi (b_data k)\<rparr>) s in
       run (log_write bp s) (\<lambda>_ s.
       brelse bp s))"

section \<open>Inodes\<close>

definition iinit :: "u32 \<Rightarrow> 'z icache_scheme \<Rightarrow> ('z icache_scheme, unit) res" where
  "iinit dev s =
     (let s = initlock IcacheLock ''icache'' s;
          s = fold (\<lambda>i. initsleeplock (InodeSleep i) ''inode'') [0..<NINODE] s in
      run (readsb dev s) (\<lambda>x s.
      let s = s\<lparr>sb := x\<rparr> in
      cprintf (''sb: size %d nblocks %d ninodes %d nlog %d logstart %d inodestart %d bmap start %d'' @ [CHR 0x0A])
        [Word (sint (sb_size x)), Word (sint (sb_nblocks x)), Word (sint (sb_ninodes x)), Word (sint (sb_nlog x)),
         Word (sint (sb_logstart x)), Word (sint (sb_inodestart x)), Word (sint (sb_bmapstart x))] s))"

definition iget :: "u32 \<Rightarrow> u32 \<Rightarrow> 'z icache_scheme \<Rightarrow> ('z icache_scheme, nat) res" where
  "iget dev inum s =
     run (acquire IcacheLock s) (\<lambda>_ s.
     case find_index (\<lambda>ip. i_ref ip > 0 \<and> i_dev ip = dev \<and> i_inum ip = inum) (inodes s) of
       Some ip \<Rightarrow>
         let s = upd_inode ip (\<lambda>k. k\<lparr>i_ref := i_ref k + 1\<rparr>) s in
         run (release IcacheLock s) (\<lambda>_ s. Ok ip s)
     | None \<Rightarrow>
         (case find_index (\<lambda>ip. i_ref ip = 0) (inodes s) of
            None \<Rightarrow> Panic ''iget: no inodes''
          | Some ip \<Rightarrow>
              let s = upd_inode ip (\<lambda>k. k\<lparr>i_dev := dev, i_inum := inum, i_ref := 1, i_valid := False\<rparr>) s in
              run (release IcacheLock s) (\<lambda>_ s. Ok ip s)))"

fun ialloc_loop :: "u32 \<Rightarrow> u16 \<Rightarrow> nat list \<Rightarrow> 'z icache_scheme \<Rightarrow> ('z icache_scheme, nat) res" where
  "ialloc_loop dev type [] s = Panic ''ialloc: no inodes''"
| "ialloc_loop dev type (inum # ns) s =
     run (bread dev (IBLOCK (of_nat inum) (sb s)) s) (\<lambda>bp s.
     let off = 64 * (inum mod IPB) in
     if get16 (b_data (bufs s ! bp)) off = 0 then
       let s = upd_buf bp (\<lambda>k. k\<lparr>b_data := splice (b_data k) off (replicate 64 0)\<rparr>) s;
           s = upd_buf bp (\<lambda>k. k\<lparr>b_data := put16 (b_data k) off type\<rparr>) s in
       run (log_write bp s) (\<lambda>_ s.
       run (brelse bp s) (\<lambda>_ s.
       iget dev (of_nat inum) s))
     else run (brelse bp s) (\<lambda>_ s. ialloc_loop dev type ns s))"

definition ialloc :: "u32 \<Rightarrow> u16 \<Rightarrow> 'z icache_scheme \<Rightarrow> ('z icache_scheme, nat) res" where
  "ialloc dev type s = ialloc_loop dev type [1..<unat (sb_ninodes (sb s))] s"

definition dinode_of :: "inode \<Rightarrow> dinode" where
  "dinode_of ip = \<lparr>d_type = i_type ip, d_major = i_major ip, d_minor = i_minor ip, d_nlink = i_nlink ip,
     d_size = i_size ip, d_addrs = i_addrs ip\<rparr>"

definition iupdate :: "nat \<Rightarrow> 'z icache_scheme \<Rightarrow> ('z icache_scheme, unit) res" where
  "iupdate ip s =
     run (bread (i_dev (inodes s ! ip)) (IBLOCK (i_inum (inodes s ! ip)) (sb s)) s) (\<lambda>bp s.
     let off = 64 * (unat (i_inum (inodes s ! ip)) mod IPB);
         s = upd_buf bp (\<lambda>k. k\<lparr>b_data := put_dinode (b_data k) off (dinode_of (inodes s ! ip))\<rparr>) s in
     run (log_write bp s) (\<lambda>_ s.
     brelse bp s))"

definition idup :: "nat \<Rightarrow> 'z icache_scheme \<Rightarrow> ('z icache_scheme, nat) res" where
  "idup ip s =
     run (acquire IcacheLock s) (\<lambda>_ s.
     let s = upd_inode ip (\<lambda>k. k\<lparr>i_ref := i_ref k + 1\<rparr>) s in
     run (release IcacheLock s) (\<lambda>_ s. Ok ip s))"

definition load_dinode :: "dinode \<Rightarrow> inode \<Rightarrow> inode" where
  "load_dinode d ip = ip\<lparr>i_type := d_type d, i_major := d_major d, i_minor := d_minor d, i_nlink := d_nlink d,
     i_size := d_size d, i_addrs := d_addrs d\<rparr>"

definition ilock :: "nat option \<Rightarrow> 'z icache_scheme \<Rightarrow> ('z icache_scheme, unit) res" where
  "ilock p s =
     (case p of None \<Rightarrow> Panic ''ilock''
      | Some ip \<Rightarrow>
        if i_ref (inodes s ! ip) < 1 then Panic ''ilock''
        else
          run (acquiresleep (InodeSleep ip) s) (\<lambda>_ s.
          if \<not> i_valid (inodes s ! ip) then
            run (bread (i_dev (inodes s ! ip)) (IBLOCK (i_inum (inodes s ! ip)) (sb s)) s) (\<lambda>bp s.
            let off = 64 * (unat (i_inum (inodes s ! ip)) mod IPB);
                s = upd_inode ip (load_dinode (get_dinode (b_data (bufs s ! bp)) off)) s in
            run (brelse bp s) (\<lambda>_ s.
            let s = upd_inode ip (\<lambda>k. k\<lparr>i_valid := True\<rparr>) s in
            if i_type (inodes s ! ip) = 0 then Panic ''ilock: no type'' else Ok () s))
          else Ok () s))"

definition iunlock :: "nat option \<Rightarrow> 'z icache_scheme \<Rightarrow> ('z icache_scheme, unit) res" where
  "iunlock p s =
     (case p of None \<Rightarrow> Panic ''iunlock''
      | Some ip \<Rightarrow>
        run (holdingsleep (InodeSleep ip) s) (\<lambda>h s.
        if \<not> h \<or> i_ref (inodes s ! ip) < 1 then Panic ''iunlock''
        else releasesleep (InodeSleep ip) s))"

section \<open>Inode contents\<close>

definition bmap :: "nat \<Rightarrow> u32 \<Rightarrow> 'z icache_scheme \<Rightarrow> ('z icache_scheme, u32) res" where
  "bmap ip bn s =
     (if unat bn < NDIRECT then
        let addr = i_addrs (inodes s ! ip) ! unat bn in
        if addr = 0 then
          run (balloc (i_dev (inodes s ! ip)) s) (\<lambda>addr s.
          Ok addr (upd_inode ip (\<lambda>k. k\<lparr>i_addrs := (i_addrs k)[unat bn := addr]\<rparr>) s))
        else Ok addr s
      else
        let bn = unat bn - NDIRECT in
        if bn < NINDIRECT then
          run (if i_addrs (inodes s ! ip) ! NDIRECT = 0 then
                 run (balloc (i_dev (inodes s ! ip)) s) (\<lambda>addr s.
                 Ok addr (upd_inode ip (\<lambda>k. k\<lparr>i_addrs := (i_addrs k)[NDIRECT := addr]\<rparr>) s))
               else Ok (i_addrs (inodes s ! ip) ! NDIRECT) s) (\<lambda>addr s.
          run (bread (i_dev (inodes s ! ip)) addr s) (\<lambda>bp s.
          let addr = get32 (b_data (bufs s ! bp)) (4 * bn) in
          run (if addr = 0 then
                 run (balloc (i_dev (inodes s ! ip)) s) (\<lambda>addr s.
                 let s = upd_buf bp (\<lambda>k. k\<lparr>b_data := put32 (b_data k) (4 * bn) addr\<rparr>) s in
                 run (log_write bp s) (\<lambda>_ s. Ok addr s))
               else Ok addr s) (\<lambda>addr s.
          run (brelse bp s) (\<lambda>_ s. Ok addr s))))
        else Panic ''bmap: out of range'')"

definition itrunc_direct :: "nat \<Rightarrow> nat \<Rightarrow> 'z icache_scheme \<Rightarrow> ('z icache_scheme, unit) res" where
  "itrunc_direct ip i s =
     (if i_addrs (inodes s ! ip) ! i \<noteq> 0 then
        run (bfree (i_dev (inodes s ! ip)) (i_addrs (inodes s ! ip) ! i) s) (\<lambda>_ s.
        Ok () (upd_inode ip (\<lambda>k. k\<lparr>i_addrs := (i_addrs k)[i := 0]\<rparr>) s))
      else Ok () s)"

definition itrunc :: "nat \<Rightarrow> 'z icache_scheme \<Rightarrow> ('z icache_scheme, unit) res" where
  "itrunc ip s =
     run (for_each [0..<NDIRECT] (itrunc_direct ip) s) (\<lambda>_ s.
     run (if i_addrs (inodes s ! ip) ! NDIRECT \<noteq> 0 then
            run (bread (i_dev (inodes s ! ip)) (i_addrs (inodes s ! ip) ! NDIRECT) s) (\<lambda>bp s.
            run (for_each [0..<NINDIRECT] (\<lambda>j s.
                   if get32 (b_data (bufs s ! bp)) (4 * j) \<noteq> 0
                   then bfree (i_dev (inodes s ! ip)) (get32 (b_data (bufs s ! bp)) (4 * j)) s
                   else Ok () s) s) (\<lambda>_ s.
            run (brelse bp s) (\<lambda>_ s.
            run (bfree (i_dev (inodes s ! ip)) (i_addrs (inodes s ! ip) ! NDIRECT) s) (\<lambda>_ s.
            Ok () (upd_inode ip (\<lambda>k. k\<lparr>i_addrs := (i_addrs k)[NDIRECT := 0]\<rparr>) s)))))
          else Ok () s) (\<lambda>_ s.
     let s = upd_inode ip (\<lambda>k. k\<lparr>i_size := 0\<rparr>) s in
     iupdate ip s))"

definition iput :: "nat \<Rightarrow> 'z icache_scheme \<Rightarrow> ('z icache_scheme, unit) res" where
  "iput ip s =
     run (acquiresleep (InodeSleep ip) s) (\<lambda>_ s.
     run (if i_valid (inodes s ! ip) \<and> i_nlink (inodes s ! ip) = 0 then
            run (acquire IcacheLock s) (\<lambda>_ s.
            let r = i_ref (inodes s ! ip) in
            run (release IcacheLock s) (\<lambda>_ s.
            if r = 1 then
              run (itrunc ip s) (\<lambda>_ s.
              let s = upd_inode ip (\<lambda>k. k\<lparr>i_type := 0\<rparr>) s in
              run (iupdate ip s) (\<lambda>_ s.
              Ok () (upd_inode ip (\<lambda>k. k\<lparr>i_valid := False\<rparr>) s)))
            else Ok () s))
          else Ok () s) (\<lambda>_ s.
     run (releasesleep (InodeSleep ip) s) (\<lambda>_ s.
     run (acquire IcacheLock s) (\<lambda>_ s.
     let s = upd_inode ip (\<lambda>k. k\<lparr>i_ref := i_ref k - 1\<rparr>) s in
     release IcacheLock s))))"

definition iunlockput :: "nat \<Rightarrow> 'z icache_scheme \<Rightarrow> ('z icache_scheme, unit) res" where
  "iunlockput ip s = run (iunlock (Some ip) s) (\<lambda>_ s. iput ip s)"

record stat =
  st_type :: u16
  st_dev :: u32
  st_ino :: u32
  st_nlink :: u16
  st_size :: u32

definition stati :: "nat \<Rightarrow> 'z icache_scheme \<Rightarrow> stat" where
  "stati ip s = (let k = inodes s ! ip in
     \<lparr>st_type = i_type k, st_dev = i_dev k, st_ino = i_inum k, st_nlink = i_nlink k, st_size = i_size k\<rparr>)"

end
