(* ===== verification/ConsoleDev.thy ===== *)
theory ConsoleDev
  imports Inode
begin

text \<open>
  The console as an input device, the second half of \<open>lab2/console.c\<close>, the device switch
  of \<open>lab2/file.h\<close> and the interrupt controller \<open>lab2/ioapic.c\<close>.  The buffer a caller passes is a byte list: what a read has
  stored, from the start of the buffer on, and what a write finds there.  The characters
  that \<open>getc\<close> delivers before its first negative result are the list \<open>cs\<close>.
\<close>

abbreviation (input) INPUT_BUF :: nat where "INPUT_BUF \<equiv> 128"
abbreviation (input) NDEV :: nat where "NDEV \<equiv> 10"
abbreviation (input) CONSOLE :: nat where "CONSOLE \<equiv> 1"

datatype devfun = Consoleread | Consolewrite

record devsw =
  dev_read :: "devfun option"
  dev_write :: "devfun option"

record consdev = icache +
  input_buf :: "u8 list"
  input_r :: u32
  input_w :: u32
  input_e :: u32
  devsw :: "devsw list"
  ioapic_reg :: u32
  ioapic_data :: "u32 \<Rightarrow> u32"
  ioapicid :: u8

section \<open>The interrupt controller\<close>

text \<open>
  \<open>ioapic_reg\<close> is the register last selected and \<open>ioapic_data\<close> the contents of the registers.
\<close>

abbreviation (input) REG_TABLE :: u32 where "REG_TABLE \<equiv> 0x10"
abbreviation (input) INT_DISABLED :: u32 where "INT_DISABLED \<equiv> 0x10000"
abbreviation (input) T_IRQ0 :: nat where "T_IRQ0 \<equiv> 32"

definition ioapicread :: "u32 \<Rightarrow> 'z consdev_scheme \<Rightarrow> u32 \<times> 'z consdev_scheme" where
  "ioapicread reg s = (let s = s\<lparr>ioapic_reg := reg\<rparr> in (ioapic_data s (ioapic_reg s), s))"

definition ioapicwrite :: "u32 \<Rightarrow> u32 \<Rightarrow> 'z consdev_scheme \<Rightarrow> 'z consdev_scheme" where
  "ioapicwrite reg d s =
     (let s = s\<lparr>ioapic_reg := reg\<rparr> in s\<lparr>ioapic_data := (ioapic_data s)(ioapic_reg s := d)\<rparr>)"

definition ioapicinit :: "'z consdev_scheme \<Rightarrow> ('z consdev_scheme, unit) res" where
  "ioapicinit s =
     (let (v, s) = ioapicread 1 s;
          maxintr = unat (drop_bit 16 v AND 0xFF);
          (i, s) = ioapicread 0 s;
          id = drop_bit 24 i in
      run (if id \<noteq> ucast (ioapicid s) then
             cprintf (''ioapicinit: id isn'' @ [CHR 0x27] @ ''t equal to ioapicid; not a MP'' @ [CHR 0x0A]) [] s
           else Ok () s) (\<lambda>_ s.
      Ok () (fold (\<lambda>i s.
        ioapicwrite (REG_TABLE + 2 * of_nat i + 1) 0
          (ioapicwrite (REG_TABLE + 2 * of_nat i) (INT_DISABLED OR of_nat (T_IRQ0 + i)) s)) [0..<maxintr + 1] s)))"

definition ioapicenable :: "nat \<Rightarrow> u32 \<Rightarrow> 'z consdev_scheme \<Rightarrow> 'z consdev_scheme" where
  "ioapicenable irq cpunum s =
     ioapicwrite (REG_TABLE + 2 * of_nat irq + 1) (push_bit 24 cpunum)
       (ioapicwrite (REG_TABLE + 2 * of_nat irq) (of_nat (T_IRQ0 + irq)) s)"

section \<open>Input\<close>

definition C :: "char \<Rightarrow> int" where
  "C x = of_char x - of_char (CHR ''@'')"

definition slot :: "u32 \<Rightarrow> nat" where
  "slot i = unat i mod INPUT_BUF"

text \<open>
  The loop of control-U, with the edit index \<open>e\<close> and the write index \<open>w\<close> it compares.
\<close>

function kill_line :: "u32 \<Rightarrow> u32 \<Rightarrow> 'z consdev_scheme \<Rightarrow> ('z consdev_scheme, unit) res" where
  "kill_line e w s =
     (if e \<noteq> w \<and> input_buf s ! slot (e - 1) \<noteq> 10 then
        let s = s\<lparr>input_e := e - 1\<rparr> in
        run (consputc BACKSPACE s) (\<lambda>_ s. kill_line (e - 1) w s)
      else Ok () s)"
  by pat_completeness auto

lemma word_down_less:
  fixes e w :: u32
  assumes "e \<noteq> w"
  shows "unat (e - 1 - w) < unat (e - w)"
proof -
  have "e - w \<noteq> 0" using assms by simp
  then have "unat (e - w - 1) = unat (e - w) - 1" "unat (e - w) \<noteq> 0"
    by (simp_all add: unat_minus_one unsigned_eq_0_iff)
  then have "unat (e - w - 1) < unat (e - w)" by linarith
  moreover have "e - 1 - w = e - w - 1" by simp
  ultimately show ?thesis by (simp only:)
qed

termination kill_line
  by (relation "measure (\<lambda>(e, w, s). unat (e - w))")
    (simp, simp only: in_measure prod.case, rule word_down_less, simp)

declare kill_line.simps [simp del]

text \<open>One character; the result says whether a process listing was asked for.\<close>

definition consoleintr_char :: "int \<Rightarrow> 'z consdev_scheme \<Rightarrow> ('z consdev_scheme, bool) res" where
  "consoleintr_char c s =
     (if c = C (CHR ''P'') then Ok True s
      else if c = C (CHR ''U'') then run (kill_line (input_e s) (input_w s) s) (\<lambda>_ s. Ok False s)
      else if c = C (CHR ''H'') \<or> c = 0x7f then
        (if input_e s \<noteq> input_w s then
           let s = s\<lparr>input_e := input_e s - 1\<rparr> in
           run (consputc BACKSPACE s) (\<lambda>_ s. Ok False s)
         else Ok False s)
      else if c \<noteq> 0 \<and> input_e s - input_r s < of_nat INPUT_BUF then
        let c = (if c = 13 then 10 else c);
            s = s\<lparr>input_buf := (input_buf s)[slot (input_e s) := word_of_int c]\<rparr>;
            s = s\<lparr>input_e := input_e s + 1\<rparr> in
        run (consputc c s) (\<lambda>_ s.
        if c = 10 \<or> c = C (CHR ''D'') \<or> input_e s = input_r s + of_nat INPUT_BUF then
          let s = s\<lparr>input_w := input_e s\<rparr> in
          run (wakeup (Some ChanCons) s) (\<lambda>_ s. Ok False s)
        else Ok False s)
      else Ok False s)"

fun consoleintr_loop :: "int list \<Rightarrow> bool \<Rightarrow> 'z consdev_scheme \<Rightarrow> ('z consdev_scheme, bool) res" where
  "consoleintr_loop [] d s = Ok d s"
| "consoleintr_loop (c # cs) d s =
     (if c \<ge> 0 then run (consoleintr_char c s) (\<lambda>x s. consoleintr_loop cs (d \<or> x) s) else Ok d s)"

definition consoleintr :: "int list \<Rightarrow> 'z consdev_scheme \<Rightarrow> ('z consdev_scheme, unit) res" where
  "consoleintr cs s =
     run (acquire ConsLock s) (\<lambda>_ s.
     run (consoleintr_loop cs False s) (\<lambda>doprocdump s.
     run (release ConsLock s) (\<lambda>_ s.
     if doprocdump then procdump s else Ok () s)))"

text \<open>
  The loop of \<open>consoleread\<close> with \<open>n\<close> bytes to go of \<open>target\<close> and the bytes \<open>acc\<close>
  already stored.  After \<open>sleep\<close> it goes on in \<open>consoleread_resume\<close>.
\<close>

fun consoleread_loop :: "nat \<Rightarrow> nat \<Rightarrow> u8 list \<Rightarrow> nat \<Rightarrow> 'z consdev_scheme
    \<Rightarrow> ('z consdev_scheme, int \<times> u8 list) res" where
  "consoleread_loop target 0 acc ip s =
     run (release ConsLock s) (\<lambda>_ s.
     run (ilock (Some ip) s) (\<lambda>_ s. Ok (int target, acc) s))"
| "consoleread_loop target (Suc n) acc ip s =
     (if input_r s = input_w s then
        run (myproc s) (\<lambda>p s.
        run (nonnull p s) (\<lambda>i s.
        if killed (procs s ! i) then
          run (release ConsLock s) (\<lambda>_ s.
          run (ilock (Some ip) s) (\<lambda>_ s. Ok (-1, acc) s))
        else run (sleep (Some ChanCons) (Some ConsLock) s) (\<lambda>_ s. Spin)))
      else
        let c = input_buf s ! slot (input_r s);
            s = s\<lparr>input_r := input_r s + 1\<rparr> in
        if uint c = C (CHR ''D'') then
          let s = (if Suc n < target then s\<lparr>input_r := input_r s - 1\<rparr> else s) in
          run (release ConsLock s) (\<lambda>_ s.
          run (ilock (Some ip) s) (\<lambda>_ s. Ok (int target - int (Suc n), acc) s))
        else if c = 10 then
          run (release ConsLock s) (\<lambda>_ s.
          run (ilock (Some ip) s) (\<lambda>_ s. Ok (int target - int n, acc @ [c]) s))
        else consoleread_loop target n (acc @ [c]) ip s)"

definition consoleread :: "nat \<Rightarrow> int \<Rightarrow> 'z consdev_scheme \<Rightarrow> ('z consdev_scheme, int \<times> u8 list) res" where
  "consoleread ip n s =
     run (iunlock (Some ip) s) (\<lambda>_ s.
     run (acquire ConsLock s) (\<lambda>_ s.
     if n > 0 then consoleread_loop (nat n) (nat n) [] ip s
     else
       run (release ConsLock s) (\<lambda>_ s.
       run (ilock (Some ip) s) (\<lambda>_ s. Ok (0, []) s))))"

definition consoleread_resume :: "nat \<Rightarrow> nat \<Rightarrow> u8 list \<Rightarrow> nat \<Rightarrow> nat \<Rightarrow> bool \<Rightarrow> 'z consdev_scheme
    \<Rightarrow> ('z consdev_scheme, int \<times> u8 list) res" where
  "consoleread_resume target n acc ip i saved s =
     run (sleep_resume i ConsLock saved s) (\<lambda>_ s. consoleread_loop target n acc ip s)"

definition consolewrite :: "nat \<Rightarrow> u8 list \<Rightarrow> int \<Rightarrow> 'z consdev_scheme \<Rightarrow> ('z consdev_scheme, int) res" where
  "consolewrite ip buf n s =
     run (iunlock (Some ip) s) (\<lambda>_ s.
     run (acquire ConsLock s) (\<lambda>_ s.
     run (for_each [0..<nat n] (\<lambda>i s. consputc (uint (buf ! i)) s) s) (\<lambda>_ s.
     run (release ConsLock s) (\<lambda>_ s.
     run (ilock (Some ip) s) (\<lambda>_ s. Ok n s)))))"

text \<open>The keyboard interrupt \<open>IRQ_KBD\<close> is 1.\<close>

definition consoleinit :: "'z consdev_scheme \<Rightarrow> 'z consdev_scheme" where
  "consoleinit s =
     (let s = initlock ConsLock ''console'' s;
          s = s\<lparr>devsw := (devsw s)[CONSOLE := (devsw s ! CONSOLE)\<lparr>dev_write := Some Consolewrite\<rparr>]\<rparr>;
          s = s\<lparr>devsw := (devsw s)[CONSOLE := (devsw s ! CONSOLE)\<lparr>dev_read := Some Consoleread\<rparr>]\<rparr>;
          s = s\<lparr>cons_locking := True\<rparr> in
      ioapicenable 1 0 s)"

end
