(* ===== verification/Fs.thy ===== *)
theory Fs
  imports ConsoleDev
begin

text \<open>
  File contents, directories and paths, the second half of \<open>lab2/fs.c\<close>.  A caller's buffer
  is a byte list; a path is the list of its bytes before the terminator, and a file name is
  the array of \<open>DIRSIZ\<close> bytes that directory entries hold.
\<close>

abbreviation (input) T_DIR :: u16 where "T_DIR \<equiv> 1"
abbreviation (input) T_FILE :: u16 where "T_FILE \<equiv> 2"
abbreviation (input) T_DEV :: u16 where "T_DEV \<equiv> 3"
abbreviation (input) ROOTDEV :: u32 where "ROOTDEV \<equiv> 1"
abbreviation (input) ROOTINO :: u32 where "ROOTINO \<equiv> 1"
abbreviation (input) slash :: u8 where "slash \<equiv> 0x2f"

section \<open>Reading and writing files\<close>

text \<open>The bytes moved by one turn of the loops of \<open>readi\<close> and \<open>writei\<close>.\<close>

definition chunk :: "u32 \<Rightarrow> u32 \<Rightarrow> u32 \<Rightarrow> u32" where
  "chunk n tot off = min (n - tot) (of_nat BSIZE - off mod of_nat BSIZE)"

lemma chunk_rest:
  assumes "tot < n"
  shows "unat (n - (tot + chunk n tot off)) < unat (n - tot)"
proof -
  let ?m = "chunk n tot off"
  have "unat (off mod 512) < 512" by (simp add: unat_mod)
  then have "(512 :: u32) - off mod 512 \<noteq> 0" by auto
  moreover have d: "n - tot \<noteq> 0" using assms by auto
  ultimately have m: "?m \<le> n - tot" "?m \<noteq> 0" by (auto simp: chunk_def min_def)
  then have "unat (n - tot - ?m) = unat (n - tot) - unat ?m" "unat ?m \<le> unat (n - tot)" "unat ?m \<noteq> 0"
    by (simp_all add: unat_sub word_le_nat_alt unsigned_eq_0_iff)
  then have "unat (n - tot - ?m) < unat (n - tot)" by linarith
  moreover have "n - (tot + ?m) = n - tot - ?m" by simp
  ultimately show ?thesis by (simp only:)
qed

function readi_loop :: "nat \<Rightarrow> u32 \<Rightarrow> u32 \<Rightarrow> u32 \<Rightarrow> u8 list \<Rightarrow> 'z consdev_scheme
    \<Rightarrow> ('z consdev_scheme, u8 list) res" where
  "readi_loop ip off n tot dst s =
     (if tot < n then
        run (bmap ip (off div of_nat BSIZE) s) (\<lambda>addr s.
        run (bread (i_dev (inodes s ! ip)) addr s) (\<lambda>bp s.
        let m = chunk n tot off;
            dst = dst @ take (unat m) (drop (unat (off mod of_nat BSIZE)) (b_data (bufs s ! bp))) in
        run (brelse bp s) (\<lambda>_ s.
        readi_loop ip (off + m) n (tot + m) dst s)))
      else Ok dst s)"
  by pat_completeness auto
termination
  by (relation "measure (\<lambda>(ip, off, n, tot, dst, s). unat (n - tot))")
    (simp, simp only: in_measure prod.case, rule chunk_rest)

declare readi_loop.simps [simp del]

text \<open>The function behind an entry of the device switch.\<close>

definition dev_readi :: "devfun \<Rightarrow> nat \<Rightarrow> int \<Rightarrow> 'z consdev_scheme \<Rightarrow> ('z consdev_scheme, int \<times> u8 list) res" where
  "dev_readi f ip n s = (case f of Consoleread \<Rightarrow> consoleread ip n s | Consolewrite \<Rightarrow> Panic ''undefined behaviour'')"

definition dev_writei :: "devfun \<Rightarrow> nat \<Rightarrow> u8 list \<Rightarrow> int \<Rightarrow> 'z consdev_scheme \<Rightarrow> ('z consdev_scheme, int) res" where
  "dev_writei f ip src n s =
     (case f of Consolewrite \<Rightarrow> consolewrite ip src n s | Consoleread \<Rightarrow> Panic ''undefined behaviour'')"

definition dev_entry :: "nat \<Rightarrow> (devsw \<Rightarrow> devfun option) \<Rightarrow> 'z consdev_scheme \<Rightarrow> devfun option" where
  "dev_entry ip f s =
     (let major = sint (i_major (inodes s ! ip)) in
      if major < 0 \<or> major \<ge> int NDEV then None else f (devsw s ! nat major))"

definition readi :: "nat \<Rightarrow> u32 \<Rightarrow> u32 \<Rightarrow> 'z consdev_scheme \<Rightarrow> ('z consdev_scheme, int \<times> u8 list) res" where
  "readi ip off n s =
     (if i_type (inodes s ! ip) = T_DEV then
        (case dev_entry ip dev_read s of None \<Rightarrow> Ok (-1, []) s | Some f \<Rightarrow> dev_readi f ip (sint n) s)
      else if off > i_size (inodes s ! ip) \<or> off + n < off then Ok (-1, []) s
      else
        let n = (if off + n > i_size (inodes s ! ip) then i_size (inodes s ! ip) - off else n) in
        run (readi_loop ip off n 0 [] s) (\<lambda>dst s. Ok (sint n, dst) s))"

function writei_loop :: "nat \<Rightarrow> u8 list \<Rightarrow> u32 \<Rightarrow> u32 \<Rightarrow> u32 \<Rightarrow> 'z consdev_scheme
    \<Rightarrow> ('z consdev_scheme, u32) res" where
  "writei_loop ip src off n tot s =
     (if tot < n then
        run (bmap ip (off div of_nat BSIZE) s) (\<lambda>addr s.
        run (bread (i_dev (inodes s ! ip)) addr s) (\<lambda>bp s.
        let m = chunk n tot off;
            s = upd_buf bp (\<lambda>k. k\<lparr>b_data := splice (b_data k) (unat (off mod of_nat BSIZE))
                  (take (unat m) (drop (unat tot) src))\<rparr>) s in
        run (log_write bp s) (\<lambda>_ s.
        run (brelse bp s) (\<lambda>_ s.
        writei_loop ip src (off + m) n (tot + m) s))))
      else Ok off s)"
  by pat_completeness auto
termination
  by (relation "measure (\<lambda>(ip, src, off, n, tot, s). unat (n - tot))")
    (simp, simp only: in_measure prod.case, rule chunk_rest)

declare writei_loop.simps [simp del]

definition writei :: "nat \<Rightarrow> u8 list \<Rightarrow> u32 \<Rightarrow> u32 \<Rightarrow> 'z consdev_scheme \<Rightarrow> ('z consdev_scheme, int) res" where
  "writei ip src off n s =
     (if i_type (inodes s ! ip) = T_DEV then
        (case dev_entry ip dev_write s of None \<Rightarrow> Ok (-1) s | Some f \<Rightarrow> dev_writei f ip src (sint n) s)
      else if off > i_size (inodes s ! ip) \<or> off + n < off then Ok (-1) s
      else if off + n > of_nat (MAXFILE * BSIZE) then Ok (-1) s
      else
        run (writei_loop ip src off n 0 s) (\<lambda>off s.
        run (if n > 0 \<and> off > i_size (inodes s ! ip) then
               let s = upd_inode ip (\<lambda>k. k\<lparr>i_size := off\<rparr>) s in iupdate ip s
             else Ok () s) (\<lambda>_ s.
        Ok (sint n) s)))"

section \<open>Directories\<close>

text \<open>
  \<open>strncmp\<close> and \<open>strncpy\<close> of \<open>lab2/string.c\<close> on arrays of bytes; behind the last byte of a
  list stands a terminator.
\<close>

fun strncmp_bytes :: "nat \<Rightarrow> u8 list \<Rightarrow> u8 list \<Rightarrow> int" where
  "strncmp_bytes 0 p q = 0"
| "strncmp_bytes (Suc n) [] [] = 0"
| "strncmp_bytes (Suc n) [] (b # q) = - uint b"
| "strncmp_bytes (Suc n) (a # p) [] = uint a"
| "strncmp_bytes (Suc n) (a # p) (b # q) =
     (if a \<noteq> 0 \<and> a = b then strncmp_bytes n p q else uint a - uint b)"

fun strncpy_bytes :: "nat \<Rightarrow> u8 list \<Rightarrow> u8 list" where
  "strncpy_bytes 0 t = []"
| "strncpy_bytes (Suc n) [] = replicate (Suc n) 0"
| "strncpy_bytes (Suc n) (a # t) = (if a \<noteq> 0 then a # strncpy_bytes n t else replicate (Suc n) 0)"

definition namecmp :: "u8 list \<Rightarrow> u8 list \<Rightarrow> int" where
  "namecmp s t = strncmp_bytes DIRSIZ s t"

text \<open>
  The loops over a directory step by the size of an entry; a step that does not increase
  the offset has wrapped around and the loop would start over.
\<close>

function dirlookup_loop :: "nat \<Rightarrow> u8 list \<Rightarrow> u32 \<Rightarrow> 'z consdev_scheme
    \<Rightarrow> ('z consdev_scheme, (nat \<times> u32) option) res" where
  "dirlookup_loop dp name off s =
     (if off < i_size (inodes s ! dp) then
        run (readi dp off 16 s) (\<lambda>(r, de) s.
        if r \<noteq> 16 then Panic ''dirlookup read''
        else if de_inum (get_dirent de) \<noteq> 0 \<and> namecmp name (de_name (get_dirent de)) = 0 then
          run (iget (i_dev (inodes s ! dp)) (ucast (de_inum (get_dirent de))) s) (\<lambda>ip s. Ok (Some (ip, off)) s)
        else if off + 16 \<le> off then Spin
        else dirlookup_loop dp name (off + 16) s)
      else Ok None s)"
  by pat_completeness auto

lemma word_climb:
  fixes a b :: u32
  assumes "\<not> b \<le> a"
  shows "2 ^ 32 - unat b < 2 ^ 32 - unat a"
  using assms unsigned_less [of b, where 'a = nat] by (simp add: word_le_nat_alt)

termination dirlookup_loop
  by (relation "measure (\<lambda>(dp, name, off, s). 2 ^ 32 - unat off)")
    (simp, simp only: in_measure prod.case, rule word_climb)

declare dirlookup_loop.simps [simp del]

definition dirlookup :: "nat \<Rightarrow> u8 list \<Rightarrow> 'z consdev_scheme \<Rightarrow> ('z consdev_scheme, (nat \<times> u32) option) res" where
  "dirlookup dp name s =
     (if i_type (inodes s ! dp) \<noteq> T_DIR then Panic ''dirlookup not DIR'' else dirlookup_loop dp name 0 s)"

text \<open>The offset of the first empty entry of a directory, or its size.\<close>

function empty_dirent :: "nat \<Rightarrow> u32 \<Rightarrow> 'z consdev_scheme \<Rightarrow> ('z consdev_scheme, u32) res" where
  "empty_dirent dp off s =
     (if off < i_size (inodes s ! dp) then
        run (readi dp off 16 s) (\<lambda>(r, de) s.
        if r \<noteq> 16 then Panic ''dirlink read''
        else if de_inum (get_dirent de) = 0 then Ok off s
        else if off + 16 \<le> off then Spin
        else empty_dirent dp (off + 16) s)
      else Ok off s)"
  by pat_completeness auto
termination
  by (relation "measure (\<lambda>(dp, off, s). 2 ^ 32 - unat off)")
    (simp, simp only: in_measure prod.case, rule word_climb)

declare empty_dirent.simps [simp del]

definition dirlink :: "nat \<Rightarrow> u8 list \<Rightarrow> u32 \<Rightarrow> 'z consdev_scheme \<Rightarrow> ('z consdev_scheme, int) res" where
  "dirlink dp name inum s =
     run (dirlookup dp name s) (\<lambda>r s.
     case r of
       Some (ip, _) \<Rightarrow> run (iput ip s) (\<lambda>_ s. Ok (-1) s)
     | None \<Rightarrow>
         run (empty_dirent dp 0 s) (\<lambda>off s.
         let de = put_dirent \<lparr>de_inum = ucast inum, de_name = strncpy_bytes DIRSIZ name\<rparr> in
         run (writei dp de off 16 s) (\<lambda>r s.
         if r \<noteq> 16 then Panic ''dirlink'' else Ok 0 s)))"

section \<open>Paths\<close>

definition skipelem :: "u8 list \<Rightarrow> u8 list \<Rightarrow> (u8 list \<times> u8 list) option" where
  "skipelem path name =
     (let path = dropWhile (\<lambda>c. c = slash) path in
      if path = [] then None
      else
        let elem = takeWhile (\<lambda>c. c \<noteq> slash) path;
            path = dropWhile (\<lambda>c. c \<noteq> slash) path;
            name = (if length elem \<ge> DIRSIZ then splice name 0 (take DIRSIZ elem)
                    else splice name 0 (elem @ [0])) in
        Some (dropWhile (\<lambda>c. c = slash) path, name))"

lemma skipelem_shorter:
  assumes "skipelem path name = Some (path', name')"
  shows "length path' < length path"
proof -
  let ?p = "dropWhile (\<lambda>c. c = slash) path"
  have ne: "?p \<noteq> []" and p': "path' = dropWhile (\<lambda>c. c = slash) (dropWhile (\<lambda>c. c \<noteq> slash) ?p)"
    using assms by (auto simp: skipelem_def Let_def split: if_splits)
  obtain c cs where c: "?p = c # cs" using ne by (cases ?p) auto
  have "c \<noteq> slash" using hd_dropWhile [OF ne] c by auto
  then have "path' = dropWhile (\<lambda>c. c = slash) (dropWhile (\<lambda>c. c \<noteq> slash) cs)" using p' c by simp
  then have "length path' \<le> length (dropWhile (\<lambda>c. c \<noteq> slash) cs)" by (simp only: length_dropWhile_le)
  also have "\<dots> \<le> length cs" by (rule length_dropWhile_le)
  finally have "length path' \<le> length cs" .
  moreover have "length (c # cs) \<le> length path"
    using length_dropWhile_le [of "\<lambda>c. c = slash" path] c by simp
  ultimately show ?thesis by simp
qed

function namex_loop :: "nat \<Rightarrow> u8 list \<Rightarrow> bool \<Rightarrow> u8 list \<Rightarrow> 'z consdev_scheme
    \<Rightarrow> ('z consdev_scheme, nat option \<times> u8 list) res" where
  "namex_loop ip path wantpar name s =
     (case skipelem path name of
        None \<Rightarrow> if wantpar then run (iput ip s) (\<lambda>_ s. Ok (None, name) s) else Ok (Some ip, name) s
      | Some (path, name) \<Rightarrow>
          run (ilock (Some ip) s) (\<lambda>_ s.
          if i_type (inodes s ! ip) \<noteq> T_DIR then run (iunlockput ip s) (\<lambda>_ s. Ok (None, name) s)
          else if wantpar \<and> path = [] then run (iunlock (Some ip) s) (\<lambda>_ s. Ok (Some ip, name) s)
          else
            run (dirlookup ip name s) (\<lambda>r s.
            case r of
              None \<Rightarrow> run (iunlockput ip s) (\<lambda>_ s. Ok (None, name) s)
            | Some (nxt, _) \<Rightarrow> run (iunlockput ip s) (\<lambda>_ s. namex_loop nxt path wantpar name s))))"
  by pat_completeness auto
termination
  by (relation "measure (\<lambda>(ip, path, wantpar, name, s). length path)")
    (simp, auto dest: skipelem_shorter)

declare namex_loop.simps [simp del]

definition namex :: "u8 list \<Rightarrow> bool \<Rightarrow> u8 list \<Rightarrow> 'z consdev_scheme \<Rightarrow> ('z consdev_scheme, nat option \<times> u8 list) res" where
  "namex path wantpar name s =
     run (if path \<noteq> [] \<and> hd path = slash then iget ROOTDEV ROOTINO s
          else run (myproc s) (\<lambda>p s. run (nonnull p s) (\<lambda>i s. 
            case cwd (procs s ! i) of None \<Rightarrow> Panic ''undefined behaviour'' | Some c \<Rightarrow> idup c s)))
       (\<lambda>ip s. namex_loop ip path wantpar name s)"

text \<open>The local array \<open>name\<close> of \<open>namei\<close> is not initialised; its contents are never read before they are set.\<close>

definition namei :: "u8 list \<Rightarrow> 'z consdev_scheme \<Rightarrow> ('z consdev_scheme, nat option) res" where
  "namei path s = run (namex path False (replicate DIRSIZ 0) s) (\<lambda>(ip, _) s. Ok ip s)"

definition nameiparent :: "u8 list \<Rightarrow> 'z consdev_scheme \<Rightarrow> ('z consdev_scheme, nat option \<times> u8 list) res" where
  "nameiparent path s = namex path True (replicate DIRSIZ 0) s"

end
