(* ===== verification/Ring.thy ===== *)
theory Ring
  imports Prelude
begin

text \<open>
  Ring buffers with free running 32-bit indices, as the pipe and the console input buffer
  use them: \<open>ring cap d r w\<close> are the bytes between the read index and the write index.  The
  indices wrap around at \<open>2 ^ 32\<close>; as the capacity divides that number, the position of an
  index in the array advances by one with every step all the same.
\<close>

definition ring :: "nat \<Rightarrow> u8 list \<Rightarrow> u32 \<Rightarrow> u32 \<Rightarrow> u8 list" where
  "ring cap d r w = map (\<lambda>i. d ! (unat (r + of_nat i) mod cap)) [0..<unat (w - r)]"

lemma length_ring [simp]: "length (ring cap d r w) = unat (w - r)"
  by (simp add: ring_def)

lemma ring_nth: "i < unat (w - r) \<Longrightarrow> ring cap d r w ! i = d ! (unat (r + of_nat i) mod cap)"
  by (simp add: ring_def)

lemma ring_empty [simp]: "ring cap d r r = []"
  by (simp add: ring_def)

lemma ring_eq_Nil: "ring cap d r w = [] \<longleftrightarrow> r = w"
proof -
  have "ring cap d r w = [] \<longleftrightarrow> unat (w - r) = 0" by (metis length_0_conv length_ring)
  also have "\<dots> \<longleftrightarrow> w - r = 0" by (rule unsigned_eq_0_iff)
  finally show ?thesis by auto
qed

lemma unat_add_mod:
  fixes a :: u32
  assumes "cap dvd 2 ^ 32"
  shows "unat (a + of_nat i) mod cap = (unat a + i) mod cap"
proof -
  have "unat (a + of_nat i) = (unat a + i) mod 2 ^ 32"
    by (simp add: unat_word_ariths unat_of_nat mod_add_right_eq)
  then show ?thesis using assms by (simp add: mod_mod_cancel)
qed

lemma mod_same_gap:
  assumes "(a + i) mod m = (a + j) mod m" "i < j"
  shows "m \<le> (j :: nat)"
proof -
  have "m dvd (a + j) - (a + i)" using assms by (metis mod_eq_dvd_iff_nat add_le_mono le_refl less_imp_le)
  then have "m dvd j - i" by simp
  then have "m \<le> j - i" using assms(2) by (intro dvd_imp_le) simp_all
  then show ?thesis by linarith
qed

lemma unat_succ_diff:
  fixes r w :: u32
  assumes "unat (w - r) < n" "n \<le> 2 ^ 32 - 1"
  shows "unat (w + 1 - r) = unat (w - r) + 1"
proof -
  have "w + 1 - r = (w - r) + 1" by simp
  moreover have "unat ((w - r) + 1) = unat (w - r) + 1"
    using assms by (simp add: unat_word_ariths)
  ultimately show ?thesis by (simp only:)
qed

lemma ring_put:
  assumes "cap dvd 2 ^ 32" "cap \<le> 2 ^ 32 - 1" "length d = cap" "unat (w - r) < cap"
  shows "ring cap (d[unat w mod cap := c]) r (w + 1) = ring cap d r w @ [c]"
proof (rule nth_equalityI)
  show len: "length (ring cap (d[unat w mod cap := c]) r (w + 1)) = length (ring cap d r w @ [c])"
    using unat_succ_diff [OF assms(4,2)] by simp
  fix i
  assume "i < length (ring cap (d[unat w mod cap := c]) r (w + 1))"
  then have i: "i < unat (w - r) + 1" and i': "i < unat (w + 1 - r)"
    using unat_succ_diff [OF assms(4,2)] by simp_all
  have "w = r + of_nat (unat (w - r))" by simp
  then have w: "unat w mod cap = (unat r + unat (w - r)) mod cap"
    using unat_add_mod [OF assms(1), of r "unat (w - r)"] by simp
  show "ring cap (d[unat w mod cap := c]) r (w + 1) ! i = (ring cap d r w @ [c]) ! i"
  proof (cases "i = unat (w - r)")
    case True
    then have "ring cap (d[unat w mod cap := c]) r (w + 1) ! i = d[unat w mod cap := c] ! (unat w mod cap)"
      using ring_nth [OF i'] by simp
    also have "\<dots> = c" using assms(3,4) by simp
    finally show ?thesis using True by (simp add: nth_append)
  next
    case False
    then have lt: "i < unat (w - r)" using i by simp
    have "unat (r + of_nat i) mod cap \<noteq> unat w mod cap"
    proof
      assume "unat (r + of_nat i) mod cap = unat w mod cap"
      then have "(unat r + i) mod cap = (unat r + unat (w - r)) mod cap"
        unfolding w unat_add_mod [OF assms(1)] .
      from mod_same_gap [OF this lt] show False using assms(4) by simp
    qed
    then show ?thesis using lt by (simp add: ring_nth [OF i'] ring_nth [OF lt] nth_append)
  qed
qed

lemma unat_pred_diff:
  fixes r w :: u32
  assumes "r \<noteq> w"
  shows "unat (w - r) = Suc (unat (w - (r + 1)))"
proof -
  have "w - r \<noteq> 0" using assms by simp
  then have "unat (w - r - 1) = unat (w - r) - 1" "0 < unat (w - r)"
    by (simp_all add: unat_minus_one unat_gt_0)
  then have "unat (w - r) = Suc (unat (w - r - 1))" by linarith
  moreover have "w - (r + 1) = w - r - 1" by simp
  ultimately show ?thesis by (simp only:)
qed

lemma ring_get:
  assumes "r \<noteq> w"
  shows "ring cap d r w = d ! (unat r mod cap) # ring cap d (r + 1) w"
proof (rule nth_equalityI)
  show "length (ring cap d r w) = length (d ! (unat r mod cap) # ring cap d (r + 1) w)"
    using unat_pred_diff [OF assms] by simp
  fix i
  assume "i < length (ring cap d r w)"
  then have i: "i < unat (w - r)" by simp
  show "ring cap d r w ! i = (d ! (unat r mod cap) # ring cap d (r + 1) w) ! i"
  proof (cases i)
    case 0
    then show ?thesis using i by (simp add: ring_nth)
  next
    case (Suc j)
    then have "j < unat (w - (r + 1))" using i unat_pred_diff [OF assms] by simp
    then show ?thesis using Suc ring_nth [OF i] by (simp add: ring_nth algebra_simps)
  qed
qed

lemma ring_unput:
  assumes "r \<noteq> e"
  shows "ring cap d r (e - 1) = butlast (ring cap d r e)"
proof (rule nth_equalityI)
  have "e - r \<noteq> 0" using assms by simp
  then have "unat (e - r - 1) = unat (e - r) - 1" by (simp add: unat_minus_one)
  moreover have "e - 1 - r = e - r - 1" by simp
  ultimately have u: "unat (e - 1 - r) = unat (e - r) - 1" by (simp only:)
  show "length (ring cap d r (e - 1)) = length (butlast (ring cap d r e))" using u by simp
  fix i
  assume "i < length (ring cap d r (e - 1))"
  then have i: "i < unat (e - 1 - r)" by simp
  then show "ring cap d r (e - 1) ! i = butlast (ring cap d r e) ! i"
    using u by (simp add: ring_nth nth_butlast)
qed

end
