(* ===== verification/File.thy ===== *)
theory File
  imports Fs Ring
begin

text \<open>
  Open files (\<open>lab2/file.c\<close>) and pipes (\<open>lab2/pipe.c\<close>).  A file is named by its slot in
  \<open>ftable.file\<close>, a pipe by the page that holds it.  The fields of the pipes are kept apart
  from the bytes of memory, in \<open>pipes\<close>.
\<close>

abbreviation (input) NFILE :: nat where "NFILE \<equiv> 100"
abbreviation (input) NOFILE :: nat where "NOFILE \<equiv> 16"
abbreviation (input) PIPESIZE :: nat where "PIPESIZE \<equiv> 512"

datatype fdtype = FD_NONE | FD_PIPE | FD_INODE

record file_t =
  f_type :: fdtype
  f_ref :: int
  f_readable :: bool
  f_writable :: bool
  f_pipe :: u32
  f_ip :: "nat option"
  f_off :: u32

record pipe =
  p_data :: "u8 list"
  nread :: u32
  nwrite :: u32
  readopen :: bool
  writeopen :: bool

record ftable = consdev +
  files :: "file_t list"
  pipes :: "u32 \<Rightarrow> pipe"

definition upd_file :: "nat \<Rightarrow> (file_t \<Rightarrow> file_t) \<Rightarrow> 'z ftable_scheme \<Rightarrow> 'z ftable_scheme" where
  "upd_file f g s = s\<lparr>files := (files s)[f := g (files s ! f)]\<rparr>"

definition upd_pipe :: "u32 \<Rightarrow> (pipe \<Rightarrow> pipe) \<Rightarrow> 'z ftable_scheme \<Rightarrow> 'z ftable_scheme" where
  "upd_pipe p g s = s\<lparr>pipes := (pipes s)(p := g (pipes s p))\<rparr>"

section \<open>The file table\<close>

definition fileinit :: "'z ftable_scheme \<Rightarrow> 'z ftable_scheme" where
  "fileinit s = initlock FtableLock ''ftable'' s"

definition filealloc :: "'z ftable_scheme \<Rightarrow> ('z ftable_scheme, nat option) res" where
  "filealloc s =
     run (acquire FtableLock s) (\<lambda>_ s.
     case find_index (\<lambda>f. f_ref f = 0) (files s) of
       Some f \<Rightarrow>
         let s = upd_file f (\<lambda>k. k\<lparr>f_ref := 1\<rparr>) s in
         run (release FtableLock s) (\<lambda>_ s. Ok (Some f) s)
     | None \<Rightarrow> run (release FtableLock s) (\<lambda>_ s. Ok None s))"

definition filedup :: "nat \<Rightarrow> 'z ftable_scheme \<Rightarrow> ('z ftable_scheme, nat) res" where
  "filedup f s =
     run (acquire FtableLock s) (\<lambda>_ s.
     if f_ref (files s ! f) < 1 then Panic ''filedup''
     else
       let s = upd_file f (\<lambda>k. k\<lparr>f_ref := f_ref k + 1\<rparr>) s in
       run (release FtableLock s) (\<lambda>_ s. Ok f s))"

section \<open>Pipes\<close>

definition pipeclose :: "u32 \<Rightarrow> bool \<Rightarrow> 'z ftable_scheme \<Rightarrow> ('z ftable_scheme, unit) res" where
  "pipeclose p writable s =
     run (acquire (PipeLock p) s) (\<lambda>_ s.
     run (if writable then
            let s = upd_pipe p (\<lambda>k. k\<lparr>writeopen := False\<rparr>) s in wakeup (Some (ChanPipeRead p)) s
          else
            let s = upd_pipe p (\<lambda>k. k\<lparr>readopen := False\<rparr>) s in wakeup (Some (ChanPipeWrite p)) s) (\<lambda>_ s.
     if \<not> readopen (pipes s p) \<and> \<not> writeopen (pipes s p) then
       run (release (PipeLock p) s) (\<lambda>_ s. kfree p s)
     else release (PipeLock p) s))"

definition pipe_put :: "u8 \<Rightarrow> pipe \<Rightarrow> pipe" where
  "pipe_put c k = k\<lparr>p_data := (p_data k)[unat (nwrite k) mod PIPESIZE := c], nwrite := nwrite k + 1\<rparr>"

definition pipe_get :: "pipe \<Rightarrow> u8 \<times> pipe" where
  "pipe_get k = (p_data k ! (unat (nread k) mod PIPESIZE), k\<lparr>nread := nread k + 1\<rparr>)"

text \<open>
  The loops of \<open>pipewrite\<close> and \<open>piperead\<close>.  The bytes still to be written are a list; callers
  pass at least \<open>n\<close> of them, as \<open>argptr\<close> has checked.  After
  \<open>sleep\<close>, which does not return to the model of its caller, they go on in the \<open>resume\<close>
  definitions.
\<close>

fun pipewrite_loop :: "u32 \<Rightarrow> int \<Rightarrow> u8 list \<Rightarrow> 'z ftable_scheme \<Rightarrow> ('z ftable_scheme, int) res" where
  "pipewrite_loop p n [] s =
     run (wakeup (Some (ChanPipeRead p)) s) (\<lambda>_ s.
     run (release (PipeLock p) s) (\<lambda>_ s. Ok n s))"
| "pipewrite_loop p n (c # cs) s =
     (if nwrite (pipes s p) = nread (pipes s p) + of_nat PIPESIZE then
        run (if \<not> readopen (pipes s p) then Ok True s
             else run (myproc s) (\<lambda>q s. run (nonnull q s) (\<lambda>i s. Ok (killed (procs s ! i)) s))) (\<lambda>stop s.
        if stop then run (release (PipeLock p) s) (\<lambda>_ s. Ok (-1) s)
        else
          run (wakeup (Some (ChanPipeRead p)) s) (\<lambda>_ s.
          run (sleep (Some (ChanPipeWrite p)) (Some (PipeLock p)) s) (\<lambda>_ s. Spin)))
      else
        let s = upd_pipe p (pipe_put c) s in
        pipewrite_loop p n cs s)"

definition pipewrite :: "u32 \<Rightarrow> u8 list \<Rightarrow> int \<Rightarrow> 'z ftable_scheme \<Rightarrow> ('z ftable_scheme, int) res" where
  "pipewrite p addr n s =
     run (acquire (PipeLock p) s) (\<lambda>_ s. pipewrite_loop p n (take (nat n) addr) s)"

definition pipewrite_resume :: "u32 \<Rightarrow> int \<Rightarrow> u8 list \<Rightarrow> nat \<Rightarrow> bool \<Rightarrow> 'z ftable_scheme \<Rightarrow> ('z ftable_scheme, int) res" where
  "pipewrite_resume p n cs i saved s =
     run (sleep_resume i (PipeLock p) saved s) (\<lambda>_ s. pipewrite_loop p n cs s)"

fun piperead_copy :: "u32 \<Rightarrow> nat \<Rightarrow> u8 list \<Rightarrow> 'z ftable_scheme \<Rightarrow> u8 list \<times> 'z ftable_scheme" where
  "piperead_copy p 0 acc s = (acc, s)"
| "piperead_copy p (Suc n) acc s =
     (if nread (pipes s p) = nwrite (pipes s p) then (acc, s)
      else
        let (c, k) = pipe_get (pipes s p);
            s = upd_pipe p (\<lambda>_. k) s in
        piperead_copy p n (acc @ [c]) s)"

definition piperead_loop :: "u32 \<Rightarrow> int \<Rightarrow> 'z ftable_scheme \<Rightarrow> ('z ftable_scheme, int \<times> u8 list) res" where
  "piperead_loop p n s =
     (if nread (pipes s p) = nwrite (pipes s p) \<and> writeopen (pipes s p) then
        run (myproc s) (\<lambda>q s.
        run (nonnull q s) (\<lambda>i s.
        if killed (procs s ! i) then run (release (PipeLock p) s) (\<lambda>_ s. Ok (-1, []) s)
        else run (sleep (Some (ChanPipeRead p)) (Some (PipeLock p)) s) (\<lambda>_ s. Spin)))
      else
        let (acc, s) = piperead_copy p (nat n) [] s in
        run (wakeup (Some (ChanPipeWrite p)) s) (\<lambda>_ s.
        run (release (PipeLock p) s) (\<lambda>_ s. Ok (int (length acc), acc) s)))"

definition piperead :: "u32 \<Rightarrow> int \<Rightarrow> 'z ftable_scheme \<Rightarrow> ('z ftable_scheme, int \<times> u8 list) res" where
  "piperead p n s = run (acquire (PipeLock p) s) (\<lambda>_ s. piperead_loop p n s)"

definition piperead_resume :: "u32 \<Rightarrow> int \<Rightarrow> nat \<Rightarrow> bool \<Rightarrow> 'z ftable_scheme \<Rightarrow> ('z ftable_scheme, int \<times> u8 list) res" where
  "piperead_resume p n i saved s = run (sleep_resume i (PipeLock p) saved s) (\<lambda>_ s. piperead_loop p n s)"

section \<open>Closing, and the metadata of a file\<close>

definition fileclose :: "nat \<Rightarrow> 'z ftable_scheme \<Rightarrow> ('z ftable_scheme, unit) res" where
  "fileclose f s =
     run (acquire FtableLock s) (\<lambda>_ s.
     if f_ref (files s ! f) < 1 then Panic ''fileclose''
     else
       let s = upd_file f (\<lambda>k. k\<lparr>f_ref := f_ref k - 1\<rparr>) s in
       if f_ref (files s ! f) > 0 then release FtableLock s
       else
         let ff = files s ! f;
             s = upd_file f (\<lambda>k. k\<lparr>f_ref := 0, f_type := FD_NONE\<rparr>) s in
         run (release FtableLock s) (\<lambda>_ s.
         if f_type ff = FD_PIPE then pipeclose (f_pipe ff) (f_writable ff) s
         else if f_type ff = FD_INODE then
           run (begin_op s) (\<lambda>_ s.
           run (case f_ip ff of None \<Rightarrow> Panic ''undefined behaviour'' | Some ip \<Rightarrow> iput ip s) (\<lambda>_ s.
           end_op s))
         else Ok () s))"

text \<open>
  The error path of \<open>pipealloc\<close> is only reached with no page allocated.
\<close>

definition pipealloc_bad :: "nat option \<Rightarrow> nat option \<Rightarrow> 'z ftable_scheme
    \<Rightarrow> ('z ftable_scheme, (nat \<times> nat) option) res" where
  "pipealloc_bad f0 f1 s =
     run (case f0 of Some f \<Rightarrow> fileclose f s | None \<Rightarrow> Ok () s) (\<lambda>_ s.
     run (case f1 of Some f \<Rightarrow> fileclose f s | None \<Rightarrow> Ok () s) (\<lambda>_ s.
     Ok None s))"

definition pipealloc :: "'z ftable_scheme \<Rightarrow> ('z ftable_scheme, (nat \<times> nat) option) res" where
  "pipealloc s =
     run (filealloc s) (\<lambda>f0 s.
     case f0 of None \<Rightarrow> pipealloc_bad None None s
     | Some r \<Rightarrow>
       run (filealloc s) (\<lambda>f1 s.
       case f1 of None \<Rightarrow> pipealloc_bad f0 None s
       | Some w \<Rightarrow>
         run (kalloc s) (\<lambda>p s.
         if p = 0 then pipealloc_bad f0 f1 s
         else
           let s = upd_pipe p (\<lambda>k. k\<lparr>readopen := True, writeopen := True, nwrite := 0, nread := 0\<rparr>) s;
               s = initlock (PipeLock p) ''pipe'' s;
               s = upd_file r (\<lambda>k. k\<lparr>f_type := FD_PIPE, f_readable := True, f_writable := False, f_pipe := p\<rparr>) s;
               s = upd_file w (\<lambda>k. k\<lparr>f_type := FD_PIPE, f_readable := False, f_writable := True, f_pipe := p\<rparr>) s in
           Ok (Some (r, w)) s)))"

definition filestat :: "nat \<Rightarrow> 'z ftable_scheme \<Rightarrow> ('z ftable_scheme, stat option) res" where
  "filestat f s =
     (if f_type (files s ! f) = FD_INODE then
        run (ilock (f_ip (files s ! f)) s) (\<lambda>_ s.
        let st = stati (the (f_ip (files s ! f))) s in
        run (iunlock (f_ip (files s ! f)) s) (\<lambda>_ s. Ok (Some st) s))
      else Ok None s)"

section \<open>Reading and writing\<close>

definition fileread :: "nat \<Rightarrow> int \<Rightarrow> 'z ftable_scheme \<Rightarrow> ('z ftable_scheme, int \<times> u8 list) res" where
  "fileread f n s =
     (if \<not> f_readable (files s ! f) then Ok (-1, []) s
      else if f_type (files s ! f) = FD_PIPE then piperead (f_pipe (files s ! f)) n s
      else if f_type (files s ! f) = FD_INODE then
        run (ilock (f_ip (files s ! f)) s) (\<lambda>_ s.
        run (readi (the (f_ip (files s ! f))) (f_off (files s ! f)) (word_of_int n) s) (\<lambda>(r, dst) s.
        let s = (if r > 0 then upd_file f (\<lambda>k. k\<lparr>f_off := f_off k + word_of_int r\<rparr>) s else s) in
        run (iunlock (f_ip (files s ! f)) s) (\<lambda>_ s. Ok (r, dst) s)))
      else Panic ''fileread'')"

function filewrite_loop :: "nat \<Rightarrow> u8 list \<Rightarrow> int \<Rightarrow> int \<Rightarrow> 'z ftable_scheme \<Rightarrow> ('z ftable_scheme, int) res" where
  "filewrite_loop f addr i n s =
     (if i < n then
        let m = (MAXOPBLOCKS - 1 - 1 - 2) div 2 * 512;
            n1 = (if n - i > m then m else n - i) in
        run (begin_op s) (\<lambda>_ s.
        run (ilock (f_ip (files s ! f)) s) (\<lambda>_ s.
        run (writei (the (f_ip (files s ! f))) (drop (nat i) addr) (f_off (files s ! f)) (word_of_int n1) s) (\<lambda>r s.
        let s = (if r > 0 then upd_file f (\<lambda>k. k\<lparr>f_off := f_off k + word_of_int r\<rparr>) s else s) in
        run (iunlock (f_ip (files s ! f)) s) (\<lambda>_ s.
        run (end_op s) (\<lambda>_ s.
        if r < 0 then Ok i s
        else if r \<noteq> n1 then Panic ''short filewrite''
        else filewrite_loop f addr (i + r) n s)))))
      else Ok i s)"
  by pat_completeness auto
termination
  by (relation "measure (\<lambda>(f, addr, i, n, s). nat (n - i))") auto

declare filewrite_loop.simps [simp del]

definition filewrite :: "nat \<Rightarrow> u8 list \<Rightarrow> int \<Rightarrow> 'z ftable_scheme \<Rightarrow> ('z ftable_scheme, int) res" where
  "filewrite f addr n s =
     (if \<not> f_writable (files s ! f) then Ok (-1) s
      else if f_type (files s ! f) = FD_PIPE then pipewrite (f_pipe (files s ! f)) addr n s
      else if f_type (files s ! f) = FD_INODE then
        run (filewrite_loop f addr 0 n s) (\<lambda>i s. Ok (if i = n then n else -1) s)
      else Panic ''filewrite'')"

end
