(* ===== verification/ProcLife.thy ===== *)
theory ProcLife
  imports File
begin

text \<open>
  The life of a process: \<open>userinit\<close>, \<open>growproc\<close>, \<open>fork\<close>, \<open>exit\<close>, \<open>wait\<close> and \<open>forkret\<close> of
  \<open>lab2/proc.c\<close>, \<open>loaduvm\<close> of \<open>lab2/vm.c\<close> and \<open>exec\<close> of \<open>lab2/exec.c\<close>.  Trap frames lie in
  memory at the address \<open>tf\<close> of their process: \<open>eax\<close> at offset 28, \<open>es\<close> at 40, \<open>ds\<close> at 44,
  \<open>eip\<close> at 56, \<open>cs\<close> at 60, \<open>eflags\<close> at 64, \<open>esp\<close> at 68 and \<open>ss\<close> at 72.
\<close>

record kernel = ftable +
  forkret_first :: bool
  initcode_start :: u32
  initcode_size :: u32

abbreviation (input) FL_IF :: u32 where "FL_IF \<equiv> 0x200"
abbreviation (input) MAXARG :: nat where "MAXARG \<equiv> 32"
abbreviation (input) ELF_MAGIC :: u32 where "ELF_MAGIC \<equiv> 0x464C457F"
abbreviation (input) ELF_PROG_LOAD :: u32 where "ELF_PROG_LOAD \<equiv> 1"

section \<open>The first process\<close>

text \<open>The selector of user code is 27, that of user data 35.\<close>

definition userinit :: "'z kernel_scheme \<Rightarrow> ('z kernel_scheme, unit) res" where
  "userinit s =
     (let s = s\<lparr>PromoteAtTime := ticks s + TICKS_TO_PROMOTE\<rparr> in
      run (allocproc s) (\<lambda>p s.
      let s = s\<lparr>initproc := p\<rparr> in
      run (setupkvm s) (\<lambda>pd s.
      run (nonnull p s) (\<lambda>i s.
      let s = upd_proc i (\<lambda>q. q\<lparr>pgdir := pd\<rparr>) s in
      if pd = 0 then Panic ''userinit: out of memory?''
      else
        run (inituvm (pgdir (procs s ! i)) (initcode_start s) (initcode_size s) s) (\<lambda>_ s.
        let s = upd_proc i (\<lambda>q. q\<lparr>sz := PGSIZE\<rparr>) s;
            f = tf (procs s ! i);
            s = s\<lparr>mem := memset f 0 76 (mem s)\<rparr>;
            s = s\<lparr>mem := store16 (f + 60) (push_bit 3 (of_nat SEG_UCODE) OR 3) (mem s)\<rparr>;
            s = s\<lparr>mem := store16 (f + 44) (push_bit 3 (of_nat SEG_UDATA) OR 3) (mem s)\<rparr>;
            s = s\<lparr>mem := store16 (f + 40) (push_bit 3 (of_nat SEG_UDATA) OR 3) (mem s)\<rparr>;
            s = s\<lparr>mem := store16 (f + 72) (push_bit 3 (of_nat SEG_UDATA) OR 3) (mem s)\<rparr>;
            s = s\<lparr>mem := store32 (f + 64) FL_IF (mem s)\<rparr>;
            s = s\<lparr>mem := store32 (f + 68) PGSIZE (mem s)\<rparr>;
            s = s\<lparr>mem := store32 (f + 56) 0 (mem s)\<rparr>;
            s = upd_proc i (\<lambda>q. q\<lparr>pname := ''initcode''\<rparr>) s in
        run (namei [slash] s) (\<lambda>c s.
        let s = upd_proc i (\<lambda>q. q\<lparr>cwd := c\<rparr>) s in
        run (acquire PtableLock s) (\<lambda>_ s.
        let s = upd_proc i (\<lambda>q. q\<lparr>pstate := RUNNABLE\<rparr>) s in
        release PtableLock s)))))))"

definition forkret :: "'z kernel_scheme \<Rightarrow> ('z kernel_scheme, unit) res" where
  "forkret s =
     run (release PtableLock s) (\<lambda>_ s.
     if forkret_first s then
       let s = s\<lparr>forkret_first := False\<rparr> in
       run (iinit ROOTDEV s) (\<lambda>_ s. initlog ROOTDEV s)
     else Ok () s)"

section \<open>Growing, forking, exiting, waiting\<close>

text \<open>The running process; reading through a null pointer faults.\<close>

definition curproc :: "'z ptable_scheme \<Rightarrow> ('z ptable_scheme, nat) res" where
  "curproc s = run (myproc s) (\<lambda>p s. nonnull p s)"

definition growproc :: "int \<Rightarrow> 'z kernel_scheme \<Rightarrow> ('z kernel_scheme, int) res" where
  "growproc n s =
     run (curproc s) (\<lambda>i s.
     let sz0 = sz (procs s ! i) in
     run (if n > 0 then
            run (allocuvm (pgdir (procs s ! i)) sz0 (sz0 + word_of_int n) s) (\<lambda>r s. Ok (r, r = 0) s)
          else if n < 0 then
            run (deallocuvm (pgdir (procs s ! i)) sz0 (sz0 + word_of_int n) s) (\<lambda>r s. Ok (r, r = 0) s)
          else Ok (sz0, False) s) (\<lambda>(r, fail) s.
     if fail then Ok (-1) s
     else
       let s = upd_proc i (\<lambda>q. q\<lparr>sz := r\<rparr>) s in
       run (switchuvm (Some i) s) (\<lambda>_ s. Ok 0 s)))"

definition fork_fd :: "nat \<Rightarrow> nat \<Rightarrow> nat \<Rightarrow> 'z kernel_scheme \<Rightarrow> ('z kernel_scheme, unit) res" where
  "fork_fd i np fd s =
     (case ofile (procs s ! i) ! fd of
        None \<Rightarrow> Ok () s
      | Some f \<Rightarrow> run (filedup f s) (\<lambda>f s. Ok () (upd_proc np (\<lambda>q. q\<lparr>ofile := (ofile q)[fd := Some f]\<rparr>) s)))"

definition fork :: "'z kernel_scheme \<Rightarrow> ('z kernel_scheme, int) res" where
  "fork s =
     run (curproc s) (\<lambda>i s.
     run (allocproc s) (\<lambda>r s.
     case r of None \<Rightarrow> Ok (-1) s
     | Some np \<Rightarrow>
       run (copyuvm (pgdir (procs s ! i)) (sz (procs s ! i)) s) (\<lambda>pd s.
       let s = upd_proc np (\<lambda>q. q\<lparr>pgdir := pd\<rparr>) s in
       if pd = 0 then
         run (kfree (kstack (procs s ! np)) s) (\<lambda>_ s.
         let s = upd_proc np (\<lambda>q. q\<lparr>kstack := 0\<rparr>) s in
         Ok (-1) (upd_proc np (\<lambda>q. q\<lparr>pstate := UNUSED\<rparr>) s))
       else
         let s = upd_proc np (\<lambda>q. q\<lparr>sz := sz (procs s ! i), parent := Some i\<rparr>) s;
             s = s\<lparr>mem := memmove (tf (procs s ! np)) (tf (procs s ! i)) 76 (mem s)\<rparr>;
             s = upd_proc np (\<lambda>q. q\<lparr>num_tickets := num_tickets (procs s ! i), num_scheduled := 0\<rparr>) s;
             s = s\<lparr>mem := store32 (tf (procs s ! np) + 28) 0 (mem s)\<rparr> in
         run (for_each [0..<NOFILE] (fork_fd i np) s) (\<lambda>_ s.
         run (case cwd (procs s ! i) of None \<Rightarrow> Panic ''undefined behaviour'' | Some c \<Rightarrow> idup c s) (\<lambda>c s.
         let s = upd_proc np (\<lambda>q. q\<lparr>cwd := Some c\<rparr>) s;
             s = upd_proc np (\<lambda>q. q\<lparr>pname := take 15 (pname (procs s ! i))\<rparr>) s;
             pid0 = pid (procs s ! np) in
         run (acquire PtableLock s) (\<lambda>_ s.
         let s = upd_proc np (\<lambda>q. q\<lparr>pstate := RUNNABLE\<rparr>) s in
         run (release PtableLock s) (\<lambda>_ s. Ok pid0 s)))))))"

definition exit_fd :: "nat \<Rightarrow> nat \<Rightarrow> 'z kernel_scheme \<Rightarrow> ('z kernel_scheme, unit) res" where
  "exit_fd i fd s =
     (case ofile (procs s ! i) ! fd of
        None \<Rightarrow> Ok () s
      | Some f \<Rightarrow> run (fileclose f s) (\<lambda>_ s. Ok () (upd_proc i (\<lambda>q. q\<lparr>ofile := (ofile q)[fd := None]\<rparr>) s)))"

definition reparent :: "nat \<Rightarrow> nat \<Rightarrow> 'z kernel_scheme \<Rightarrow> 'z kernel_scheme" where
  "reparent i j s =
     (if parent (procs s ! j) = Some i then
        let s = upd_proc j (\<lambda>q. q\<lparr>parent := initproc s\<rparr>) s in
        if pstate (procs s ! j) = ZOMBIE then wakeup1 (map_option ChanProc (initproc s)) s else s
      else s)"

definition exit :: "'z kernel_scheme \<Rightarrow> ('z kernel_scheme, unit) res" where
  "exit s =
     run (myproc s) (\<lambda>p s.
     if p = initproc s then Panic ''init exiting''
     else
       run (nonnull p s) (\<lambda>i s.
       run (for_each [0..<NOFILE] (exit_fd i) s) (\<lambda>_ s.
       run (begin_op s) (\<lambda>_ s.
       run (case cwd (procs s ! i) of None \<Rightarrow> Panic ''undefined behaviour'' | Some c \<Rightarrow> iput c s) (\<lambda>_ s.
       run (end_op s) (\<lambda>_ s.
       let s = upd_proc i (\<lambda>q. q\<lparr>cwd := None\<rparr>) s in
       run (acquire PtableLock s) (\<lambda>_ s.
       let s = wakeup1 (map_option ChanProc (parent (procs s ! i))) s;
           s = fold (reparent i) [0..<NPROC] s;
           s = upd_proc i (\<lambda>q. q\<lparr>pstate := ZOMBIE\<rparr>) s in
       run (sched s) (\<lambda>_ s. Panic ''zombie exit''))))))))"

text \<open>
  One turn of the loop of \<open>wait\<close>: the first zombie child is released, else the result
  depends on whether there is a child at all.
\<close>

definition wait_loop :: "nat \<Rightarrow> 'z kernel_scheme \<Rightarrow> ('z kernel_scheme, int) res" where
  "wait_loop i s =
     (case find_index (\<lambda>p. parent p = Some i \<and> pstate p = ZOMBIE) (procs s) of
        Some j \<Rightarrow>
          let pid0 = pid (procs s ! j) in
          run (kfree (kstack (procs s ! j)) s) (\<lambda>_ s.
          let s = upd_proc j (\<lambda>q. q\<lparr>kstack := 0\<rparr>) s in
          run (freevm (pgdir (procs s ! j)) s) (\<lambda>_ s.
          let s = upd_proc j (\<lambda>q. q\<lparr>pid := 0, parent := None, pname := '''', killed := False, pstate := UNUSED\<rparr>) s in
          run (release PtableLock s) (\<lambda>_ s. Ok pid0 s)))
      | None \<Rightarrow>
          if \<not> list_ex (\<lambda>p. parent p = Some i) (procs s) \<or> killed (procs s ! i) then
            run (release PtableLock s) (\<lambda>_ s. Ok (-1) s)
          else run (sleep (Some (ChanProc i)) (Some PtableLock) s) (\<lambda>_ s. Spin))"

definition wait :: "'z kernel_scheme \<Rightarrow> ('z kernel_scheme, int) res" where
  "wait s = run (curproc s) (\<lambda>i s. run (acquire PtableLock s) (\<lambda>_ s. wait_loop i s))"

definition wait_resume :: "nat \<Rightarrow> bool \<Rightarrow> 'z kernel_scheme \<Rightarrow> ('z kernel_scheme, int) res" where
  "wait_resume i saved s = run (sleep_resume i PtableLock saved s) (\<lambda>_ s. wait_loop i s)"

section \<open>Loading a program\<close>

function loaduvm_loop :: "u32 \<Rightarrow> u32 \<Rightarrow> nat \<Rightarrow> u32 \<Rightarrow> u32 \<Rightarrow> u32 \<Rightarrow> 'z kernel_scheme \<Rightarrow> ('z kernel_scheme, int) res" where
  "loaduvm_loop pd addr ip offset sz0 i s =
     (if i < sz0 then
        run (walkpgdir pd (addr + i) False s) (\<lambda>pte s.
        if pte = 0 then Panic ''loaduvm: address should exist''
        else
          let pa = PTE_ADDR (load32 (mem s) pte);
              n = (if sz0 - i < PGSIZE then sz0 - i else PGSIZE) in
          run (readi ip (offset + i) n s) (\<lambda>(r, dst) s.
          let s = s\<lparr>mem := store_bytes (P2V pa) dst (mem s)\<rparr> in
          if word_of_int r \<noteq> n then Ok (-1) s
          else if i + PGSIZE \<le> i then Spin
          else loaduvm_loop pd addr ip offset sz0 (i + PGSIZE) s))
      else Ok 0 s)"
  by pat_completeness auto
termination
  by (relation "measure (\<lambda>(pd, addr, ip, offset, sz0, i, s). unat sz0 - unat i)")
    (simp, simp only: in_measure prod.case, rule word_up_less)

declare loaduvm_loop.simps [simp del]

definition loaduvm :: "u32 \<Rightarrow> u32 \<Rightarrow> nat \<Rightarrow> u32 \<Rightarrow> u32 \<Rightarrow> 'z kernel_scheme \<Rightarrow> ('z kernel_scheme, int) res" where
  "loaduvm pd addr ip offset sz0 s =
     (if addr mod PGSIZE \<noteq> 0 then Panic ''loaduvm: addr must be page aligned''
      else loaduvm_loop pd addr ip offset sz0 0 s)"

text \<open>The fields of the two ELF structures that \<open>exec\<close> reads; the headers take 52 and 32 bytes.\<close>

record elfhdr =
  e_magic :: u32
  e_entry :: u32
  e_phoff :: u32
  e_phnum :: u16

definition elf_of :: "u8 list \<Rightarrow> elfhdr" where
  "elf_of d = \<lparr>e_magic = get32 d 0, e_entry = get32 d 24, e_phoff = get32 d 28, e_phnum = get16 d 44\<rparr>"

record proghdr =
  ph_type :: u32
  ph_off :: u32
  ph_vaddr :: u32
  ph_filesz :: u32
  ph_memsz :: u32

definition ph_of :: "u8 list \<Rightarrow> proghdr" where
  "ph_of d = \<lparr>ph_type = get32 d 0, ph_off = get32 d 4, ph_vaddr = get32 d 8, ph_filesz = get32 d 16,
     ph_memsz = get32 d 20\<rparr>"

text \<open>The loop over the program headers with \<open>k\<close> of them to go; \<open>None\<close> is \<open>goto bad\<close>.\<close>

fun exec_load :: "u32 \<Rightarrow> nat \<Rightarrow> nat \<Rightarrow> u32 \<Rightarrow> u32 \<Rightarrow> 'z kernel_scheme \<Rightarrow> ('z kernel_scheme, u32 option) res" where
  "exec_load pd ip 0 off sz0 s = Ok (Some sz0) s"
| "exec_load pd ip (Suc k) off sz0 s =
     run (readi ip off 32 s) (\<lambda>(r, d) s.
     let ph = ph_of d in
     if r \<noteq> 32 then Ok None s
     else if ph_type ph \<noteq> ELF_PROG_LOAD then exec_load pd ip k (off + 32) sz0 s
     else if ph_memsz ph < ph_filesz ph then Ok None s
     else if ph_vaddr ph + ph_memsz ph < ph_vaddr ph then Ok None s
     else
       run (allocuvm pd sz0 (ph_vaddr ph + ph_memsz ph) s) (\<lambda>sz0 s.
       if sz0 = 0 then Ok None s
       else if ph_vaddr ph mod PGSIZE \<noteq> 0 then Ok None s
       else
         run (loaduvm pd (ph_vaddr ph) ip (ph_off ph) (ph_filesz ph) s) (\<lambda>r s.
         if r < 0 then Ok None s else exec_load pd ip k (off + 32) sz0 s)))"

text \<open>The argument strings; the result is the stack pointer and the addresses pushed so far.\<close>

fun exec_args :: "u32 \<Rightarrow> u8 list list \<Rightarrow> u32 \<Rightarrow> u32 list \<Rightarrow> 'z kernel_scheme
    \<Rightarrow> ('z kernel_scheme, (u32 \<times> u32 list) option) res" where
  "exec_args pd [] sp us s = Ok (Some (sp, us)) s"
| "exec_args pd (a # as) sp us s =
     (if length us \<ge> MAXARG then Ok None s
      else
        let sp = (sp - (of_nat (length a) + 1)) AND NOT 3 in
        run (copyout pd sp (a @ [0]) (of_nat (length a) + 1) s) (\<lambda>r s.
        if r < 0 then Ok None s else exec_args pd as sp (us @ [sp]) s))"

definition exec_bad :: "u32 \<Rightarrow> nat option \<Rightarrow> 'z kernel_scheme \<Rightarrow> ('z kernel_scheme, int) res" where
  "exec_bad pd p s =
     run (if pd \<noteq> 0 then freevm pd s else Ok () s) (\<lambda>_ s.
     run (case p of None \<Rightarrow> Ok () s | Some ip \<Rightarrow> run (iunlockput ip s) (\<lambda>_ s. end_op s)) (\<lambda>_ s.
     Ok (-1) s))"

definition last_elem :: "u8 list \<Rightarrow> u8 list" where
  "last_elem path = rev (takeWhile (\<lambda>c. c \<noteq> slash) (rev path))"

definition exec_commit :: "nat \<Rightarrow> u8 list \<Rightarrow> u32 \<Rightarrow> u32 \<Rightarrow> u32 \<Rightarrow> u32 \<Rightarrow> 'z kernel_scheme \<Rightarrow> ('z kernel_scheme, int) res" where
  "exec_commit i path pd sz0 entry sp s =
     (let s = upd_proc i (\<lambda>q. q\<lparr>pname := map (\<lambda>c. char_of (unat c)) (take 15 (last_elem path))\<rparr>) s;
          oldpgdir = pgdir (procs s ! i);
          s = upd_proc i (\<lambda>q. q\<lparr>pgdir := pd, sz := sz0\<rparr>) s;
          s = s\<lparr>mem := store32 (tf (procs s ! i) + 56) entry (mem s)\<rparr>;
          s = s\<lparr>mem := store32 (tf (procs s ! i) + 68) sp (mem s)\<rparr> in
      run (switchuvm (Some i) s) (\<lambda>_ s.
      run (freevm oldpgdir s) (\<lambda>_ s. Ok 0 s)))"

definition exec_stack :: "nat \<Rightarrow> u8 list \<Rightarrow> u8 list list \<Rightarrow> u32 \<Rightarrow> u32 \<Rightarrow> u32 \<Rightarrow> 'z kernel_scheme \<Rightarrow> ('z kernel_scheme, int) res" where
  "exec_stack i path argv pd sz0 entry s =
     (let sz0 = PGROUNDUP sz0 in
      run (allocuvm pd sz0 (sz0 + 2 * PGSIZE) s) (\<lambda>sz0 s.
      if sz0 = 0 then exec_bad pd None s
      else
        run (clearpteu pd (sz0 - 2 * PGSIZE) s) (\<lambda>_ s.
        run (exec_args pd argv sz0 [] s) (\<lambda>r s.
        case r of None \<Rightarrow> exec_bad pd None s
        | Some (sp, us) \<Rightarrow>
          let argc = of_nat (length us);
              ustack = [0xffffffff, argc, sp - (argc + 1) * 4] @ us @ [0];
              sp = sp - (3 + argc + 1) * 4 in
          run (copyout pd sp (concat (map le_bytes ustack)) ((3 + argc + 1) * 4) s) (\<lambda>r s.
          if r < 0 then exec_bad pd None s else exec_commit i path pd sz0 entry sp s)))))"

definition exec :: "u8 list \<Rightarrow> u8 list list \<Rightarrow> 'z kernel_scheme \<Rightarrow> ('z kernel_scheme, int) res" where
  "exec path argv s =
     run (curproc s) (\<lambda>i s.
     run (begin_op s) (\<lambda>_ s.
     run (namei path s) (\<lambda>p s.
     case p of
       None \<Rightarrow>
         run (end_op s) (\<lambda>_ s.
         run (cprintf (''exec: fail'' @ [CHR 0x0A]) [] s) (\<lambda>_ s. Ok (-1) s))
     | Some ip \<Rightarrow>
         run (ilock p s) (\<lambda>_ s.
         run (readi ip 0 52 s) (\<lambda>(r, d) s.
         if r \<noteq> 52 then exec_bad 0 p s
         else if e_magic (elf_of d) \<noteq> ELF_MAGIC then exec_bad 0 p s
         else
           run (setupkvm s) (\<lambda>pd s.
           if pd = 0 then exec_bad 0 p s
           else
             run (exec_load pd ip (unat (e_phnum (elf_of d))) (e_phoff (elf_of d)) 0 s) (\<lambda>r s.
             case r of None \<Rightarrow> exec_bad pd p s
             | Some sz0 \<Rightarrow>
               run (iunlockput ip s) (\<lambda>_ s.
               run (end_op s) (\<lambda>_ s.
               exec_stack i path argv pd sz0 (e_entry (elf_of d)) s)))))))))"

end
