(* ===== verification/Syscall.thy ===== *)
theory Syscall
  imports ProcLife
begin

text \<open>
  System calls: the fetching of arguments in \<open>lab2/syscall.c\<close>, the calls of
  \<open>lab2/sysproc.c\<close> and \<open>lab2/sysfile.c\<close> and their dispatch.  An argument that is checked
  and handed on as a pointer to a string is the list of the bytes of the string; the memory
  of a process changes only while the process itself runs.
\<close>

abbreviation (input) O_RDONLY :: int where "O_RDONLY \<equiv> 0"
abbreviation (input) O_WRONLY :: u32 where "O_WRONLY \<equiv> 1"
abbreviation (input) O_RDWR :: u32 where "O_RDWR \<equiv> 2"
abbreviation (input) O_CREATE :: u32 where "O_CREATE \<equiv> 0x200"

section \<open>Arguments\<close>

definition fetchint :: "u32 \<Rightarrow> 'z kernel_scheme \<Rightarrow> ('z kernel_scheme, int option) res" where
  "fetchint addr s =
     run (curproc s) (\<lambda>i s.
     if addr \<ge> sz (procs s ! i) \<or> addr + 4 > sz (procs s ! i) then Ok None s
     else run (user_load addr 4 s) (\<lambda>bs s. Ok (Some (sint (get32 bs 0))) s))"

function fetchstr_loop :: "u32 \<Rightarrow> u32 \<Rightarrow> u8 list \<Rightarrow> 'z kernel_scheme \<Rightarrow> ('z kernel_scheme, u8 list option) res" where
  "fetchstr_loop a ep acc s =
     (if a < ep then
        run (user_load a 1 s) (\<lambda>bs s.
        if bs ! 0 = 0 then Ok (Some acc) s else fetchstr_loop (a + 1) ep (acc @ [bs ! 0]) s)
      else Ok None s)"
  by pat_completeness auto

lemma word_succ_less:
  fixes a n :: u32
  assumes "a < n"
  shows "unat n - unat (a + 1) < unat n - unat a"
proof -
  have "unat a < unat n" using assms by (simp add: word_less_nat_alt)
  moreover have "unat n < 2 ^ 32" using unsigned_less [of n, where 'a = nat] by simp
  ultimately have "unat (a + 1) = unat a + 1" by (simp add: unat_word_ariths)
  then show ?thesis using \<open>unat a < unat n\<close> by simp
qed

termination fetchstr_loop
  by (relation "measure (\<lambda>(a, ep, acc, s). unat ep - unat a)")
    (simp, simp only: in_measure prod.case, rule word_succ_less)

declare fetchstr_loop.simps [simp del]

definition fetchstr :: "u32 \<Rightarrow> 'z kernel_scheme \<Rightarrow> ('z kernel_scheme, u8 list option) res" where
  "fetchstr addr s =
     run (curproc s) (\<lambda>i s.
     if addr \<ge> sz (procs s ! i) then Ok None s
     else fetchstr_loop addr (sz (procs s ! i)) [] s)"

text \<open>The saved stack pointer is at offset 68 of the trap frame.\<close>

definition argint :: "nat \<Rightarrow> 'z kernel_scheme \<Rightarrow> ('z kernel_scheme, int option) res" where
  "argint n s =
     run (curproc s) (\<lambda>i s. fetchint (load32 (mem s) (tf (procs s ! i) + 68) + 4 + 4 * of_nat n) s)"

definition argptr :: "nat \<Rightarrow> int \<Rightarrow> 'z kernel_scheme \<Rightarrow> ('z kernel_scheme, u32 option) res" where
  "argptr n size0 s =
     run (curproc s) (\<lambda>p s.
     run (argint n s) (\<lambda>r s.
     case r of None \<Rightarrow> Ok None s
     | Some i \<Rightarrow>
       if size0 < 0 \<or> word_of_int i \<ge> sz (procs s ! p) \<or> word_of_int i + word_of_int size0 > sz (procs s ! p)
       then Ok None s else Ok (Some (word_of_int i)) s))"

definition argstr :: "nat \<Rightarrow> 'z kernel_scheme \<Rightarrow> ('z kernel_scheme, u8 list option) res" where
  "argstr n s = run (argint n s) (\<lambda>r s. case r of None \<Rightarrow> Ok None s | Some a \<Rightarrow> fetchstr (word_of_int a) s)"

text \<open>Going on with an argument that was found; a missing one makes the call return -1.\<close>

definition arg :: "('s, 'a option) res \<Rightarrow> ('a \<Rightarrow> 's \<Rightarrow> ('s, int) res) \<Rightarrow> ('s, int) res" where
  "arg m f = run m (\<lambda>r s. case r of None \<Rightarrow> Ok (-1) s | Some x \<Rightarrow> f x s)"

section \<open>Calls about processes\<close>

definition sys_fork :: "'z kernel_scheme \<Rightarrow> ('z kernel_scheme, int) res" where
  "sys_fork s = fork s"

definition sys_exit :: "'z kernel_scheme \<Rightarrow> ('z kernel_scheme, int) res" where
  "sys_exit s = run (exit s) (\<lambda>_ s. Ok 0 s)"

definition sys_wait :: "'z kernel_scheme \<Rightarrow> ('z kernel_scheme, int) res" where
  "sys_wait s = wait s"

definition sys_kill :: "'z kernel_scheme \<Rightarrow> ('z kernel_scheme, int) res" where
  "sys_kill s = arg (argint 0 s) (\<lambda>p s. kill p s)"

definition sys_getpid :: "'z kernel_scheme \<Rightarrow> ('z kernel_scheme, int) res" where
  "sys_getpid s = run (curproc s) (\<lambda>i s. Ok (pid (procs s ! i)) s)"

definition sys_sbrk :: "'z kernel_scheme \<Rightarrow> ('z kernel_scheme, int) res" where
  "sys_sbrk s =
     arg (argint 0 s) (\<lambda>n s.
     run (curproc s) (\<lambda>i s.
     let addr = sint (sz (procs s ! i)) in
     run (growproc n s) (\<lambda>r s. if r < 0 then Ok (-1) s else Ok addr s)))"

text \<open>
  The comparison in the loop of \<open>sys_sleep\<close> is one of unsigned numbers.  After \<open>sleep\<close> the
  loop goes on in \<open>sys_sleep_resume\<close>.
\<close>

definition sys_sleep_loop :: "int \<Rightarrow> u32 \<Rightarrow> 'z kernel_scheme \<Rightarrow> ('z kernel_scheme, int) res" where
  "sys_sleep_loop n ticks0 s =
     (if ticks s - ticks0 < word_of_int n then
        run (curproc s) (\<lambda>i s.
        if killed (procs s ! i) then run (release TicksLock s) (\<lambda>_ s. Ok (-1) s)
        else run (sleep (Some ChanTicks) (Some TicksLock) s) (\<lambda>_ s. Spin))
      else run (release TicksLock s) (\<lambda>_ s. Ok 0 s))"

definition sys_sleep :: "'z kernel_scheme \<Rightarrow> ('z kernel_scheme, int) res" where
  "sys_sleep s =
     arg (argint 0 s) (\<lambda>n s.
     run (acquire TicksLock s) (\<lambda>_ s.
     let ticks0 = ticks s in sys_sleep_loop n ticks0 s))"

definition sys_sleep_resume :: "int \<Rightarrow> u32 \<Rightarrow> nat \<Rightarrow> bool \<Rightarrow> 'z kernel_scheme \<Rightarrow> ('z kernel_scheme, int) res" where
  "sys_sleep_resume n ticks0 i saved s =
     run (sleep_resume i TicksLock saved s) (\<lambda>_ s. sys_sleep_loop n ticks0 s)"

definition sys_uptime :: "'z kernel_scheme \<Rightarrow> ('z kernel_scheme, int) res" where
  "sys_uptime s =
     run (acquire TicksLock s) (\<lambda>_ s.
     let xticks = ticks s in
     run (release TicksLock s) (\<lambda>_ s. Ok (sint xticks) s))"

definition sys_getpriority :: "'z kernel_scheme \<Rightarrow> ('z kernel_scheme, int) res" where
  "sys_getpriority s = arg (argint 0 s) (\<lambda>p s. getpriority p s)"

definition sys_setpriority :: "'z kernel_scheme \<Rightarrow> ('z kernel_scheme, int) res" where
  "sys_setpriority s = arg (argint 0 s) (\<lambda>p s. arg (argint 1 s) (\<lambda>prio s. setpriority p prio s))"

definition sys_settickets :: "'z kernel_scheme \<Rightarrow> ('z kernel_scheme, int) res" where
  "sys_settickets s = arg (argint 0 s) (\<lambda>n s. settickets n s)"

text \<open>The four arrays of \<open>struct pstat\<close> take 1024 bytes.\<close>

definition pstat_bytes :: "pstat \<Rightarrow> u8 list" where
  "pstat_bytes x = concat (map (\<lambda>v. le_bytes (word_of_int v)) (ps_inuse x @ ps_tickets x @ ps_pid x @ ps_ticks x))"

definition sys_getpinfo :: "'z kernel_scheme \<Rightarrow> ('z kernel_scheme, int) res" where
  "sys_getpinfo s =
     arg (argptr 0 1024 s) (\<lambda>p s.
     run (getpinfo s) (\<lambda>(info, r) s.
     run (user_store p (pstat_bytes info) s) (\<lambda>_ s. Ok r s)))"

section \<open>File descriptors\<close>

definition argfd :: "nat \<Rightarrow> 'z kernel_scheme \<Rightarrow> ('z kernel_scheme, (nat \<times> nat) option) res" where
  "argfd n s =
     run (argint n s) (\<lambda>r s.
     case r of None \<Rightarrow> Ok None s
     | Some fd \<Rightarrow>
       if fd < 0 \<or> fd \<ge> int NOFILE then Ok None s
       else run (curproc s) (\<lambda>i s.
         case ofile (procs s ! i) ! nat fd of
           None \<Rightarrow> Ok None s
         | Some f \<Rightarrow> Ok (Some (nat fd, f)) s))"

definition fdalloc :: "nat \<Rightarrow> 'z kernel_scheme \<Rightarrow> ('z kernel_scheme, nat option) res" where
  "fdalloc f s =
     run (curproc s) (\<lambda>i s.
     case find_index (\<lambda>x. x = None) (ofile (procs s ! i)) of
       None \<Rightarrow> Ok None s
     | Some fd \<Rightarrow> Ok (Some fd) (upd_proc i (\<lambda>q. q\<lparr>ofile := (ofile q)[fd := Some f]\<rparr>) s))"

definition sys_dup :: "'z kernel_scheme \<Rightarrow> ('z kernel_scheme, int) res" where
  "sys_dup s =
     arg (argfd 0 s) (\<lambda>(_, f) s.
     arg (fdalloc f s) (\<lambda>fd s.
     run (filedup f s) (\<lambda>_ s. Ok (int fd) s)))"

definition sys_read :: "'z kernel_scheme \<Rightarrow> ('z kernel_scheme, int) res" where
  "sys_read s =
     arg (argfd 0 s) (\<lambda>(_, f) s.
     arg (argint 2 s) (\<lambda>n s.
     arg (argptr 1 n s) (\<lambda>p s.
     run (fileread f n s) (\<lambda>(r, dst) s.
     run (user_store p dst s) (\<lambda>_ s. Ok r s)))))"

definition sys_write :: "'z kernel_scheme \<Rightarrow> ('z kernel_scheme, int) res" where
  "sys_write s =
     arg (argfd 0 s) (\<lambda>(_, f) s.
     arg (argint 2 s) (\<lambda>n s.
     arg (argptr 1 n s) (\<lambda>p s.
     run (user_load p (nat n) s) (\<lambda>src s.
     filewrite f src n s))))"

definition sys_close :: "'z kernel_scheme \<Rightarrow> ('z kernel_scheme, int) res" where
  "sys_close s =
     arg (argfd 0 s) (\<lambda>(fd, f) s.
     run (curproc s) (\<lambda>i s.
     let s = upd_proc i (\<lambda>q. q\<lparr>ofile := (ofile q)[fd := None]\<rparr>) s in
     run (fileclose f s) (\<lambda>_ s. Ok 0 s)))"

text \<open>\<open>struct stat\<close> takes 20 bytes; the two half words are followed by padding that is not written.\<close>

definition store_stat :: "u32 \<Rightarrow> stat \<Rightarrow> 'z kernel_scheme \<Rightarrow> ('z kernel_scheme, unit) res" where
  "store_stat p st s =
     run (user_store p [ucast (st_type st), ucast (drop_bit 8 (st_type st))] s) (\<lambda>_ s.
     run (user_store (p + 4) (le_bytes (st_dev st)) s) (\<lambda>_ s.
     run (user_store (p + 8) (le_bytes (st_ino st)) s) (\<lambda>_ s.
     run (user_store (p + 12) [ucast (st_nlink st), ucast (drop_bit 8 (st_nlink st))] s) (\<lambda>_ s.
     user_store (p + 16) (le_bytes (st_size st)) s))))"

definition sys_fstat :: "'z kernel_scheme \<Rightarrow> ('z kernel_scheme, int) res" where
  "sys_fstat s =
     arg (argfd 0 s) (\<lambda>(_, f) s.
     arg (argptr 1 20 s) (\<lambda>p s.
     arg (filestat f s) (\<lambda>st s.
     run (store_stat p st s) (\<lambda>_ s. Ok 0 s))))"

section \<open>Directories and links\<close>

definition link_bad :: "nat \<Rightarrow> 'z kernel_scheme \<Rightarrow> ('z kernel_scheme, int) res" where
  "link_bad ip s =
     run (ilock (Some ip) s) (\<lambda>_ s.
     let s = upd_inode ip (\<lambda>k. k\<lparr>i_nlink := i_nlink k - 1\<rparr>) s in
     run (iupdate ip s) (\<lambda>_ s.
     run (iunlockput ip s) (\<lambda>_ s.
     run (end_op s) (\<lambda>_ s. Ok (-1) s))))"

definition sys_link :: "'z kernel_scheme \<Rightarrow> ('z kernel_scheme, int) res" where
  "sys_link s =
     arg (argstr 0 s) (\<lambda>old s.
     arg (argstr 1 s) (\<lambda>new s.
     run (begin_op s) (\<lambda>_ s.
     run (namei old s) (\<lambda>p s.
     case p of None \<Rightarrow> run (end_op s) (\<lambda>_ s. Ok (-1) s)
     | Some ip \<Rightarrow>
       run (ilock p s) (\<lambda>_ s.
       if i_type (inodes s ! ip) = T_DIR then
         run (iunlockput ip s) (\<lambda>_ s. run (end_op s) (\<lambda>_ s. Ok (-1) s))
       else
         let s = upd_inode ip (\<lambda>k. k\<lparr>i_nlink := i_nlink k + 1\<rparr>) s in
         run (iupdate ip s) (\<lambda>_ s.
         run (iunlock p s) (\<lambda>_ s.
         run (nameiparent new s) (\<lambda>(d, name) s.
         case d of None \<Rightarrow> link_bad ip s
         | Some dp \<Rightarrow>
           run (ilock d s) (\<lambda>_ s.
           run (if i_dev (inodes s ! dp) \<noteq> i_dev (inodes s ! ip) then Ok (-1) s
                else dirlink dp name (i_inum (inodes s ! ip)) s) (\<lambda>r s.
           if r < 0 then run (iunlockput dp s) (\<lambda>_ s. link_bad ip s)
           else
             run (iunlockput dp s) (\<lambda>_ s.
             run (iput ip s) (\<lambda>_ s.
             run (end_op s) (\<lambda>_ s. Ok 0 s)))))))))))))"

function isdirempty_loop :: "nat \<Rightarrow> u32 \<Rightarrow> 'z kernel_scheme \<Rightarrow> ('z kernel_scheme, bool) res" where
  "isdirempty_loop dp off s =
     (if off < i_size (inodes s ! dp) then
        run (readi dp off 16 s) (\<lambda>(r, de) s.
        if r \<noteq> 16 then Panic ''isdirempty: readi''
        else if de_inum (get_dirent de) \<noteq> 0 then Ok False s
        else if off + 16 \<le> off then Spin
        else isdirempty_loop dp (off + 16) s)
      else Ok True s)"
  by pat_completeness auto
termination
  by (relation "measure (\<lambda>(dp, off, s). 2 ^ 32 - unat off)")
    (simp, simp only: in_measure prod.case, rule word_climb)

declare isdirempty_loop.simps [simp del]

definition isdirempty :: "nat \<Rightarrow> 'z kernel_scheme \<Rightarrow> ('z kernel_scheme, bool) res" where
  "isdirempty dp s = isdirempty_loop dp (2 * 16) s"

definition unlink_bad :: "nat \<Rightarrow> 'z kernel_scheme \<Rightarrow> ('z kernel_scheme, int) res" where
  "unlink_bad dp s = run (iunlockput dp s) (\<lambda>_ s. run (end_op s) (\<lambda>_ s. Ok (-1) s))"

definition sys_unlink :: "'z kernel_scheme \<Rightarrow> ('z kernel_scheme, int) res" where
  "sys_unlink s =
     arg (argstr 0 s) (\<lambda>path s.
     run (begin_op s) (\<lambda>_ s.
     run (nameiparent path s) (\<lambda>(d, name) s.
     case d of None \<Rightarrow> run (end_op s) (\<lambda>_ s. Ok (-1) s)
     | Some dp \<Rightarrow>
       run (ilock d s) (\<lambda>_ s.
       if namecmp name [0x2e] = 0 \<or> namecmp name [0x2e, 0x2e] = 0 then unlink_bad dp s
       else
         run (dirlookup dp name s) (\<lambda>r s.
         case r of None \<Rightarrow> unlink_bad dp s
         | Some (ip, off) \<Rightarrow>
           run (ilock (Some ip) s) (\<lambda>_ s.
           if sint (i_nlink (inodes s ! ip)) < 1 then Panic ''unlink: nlink < 1''
           else
             run (if i_type (inodes s ! ip) = T_DIR then isdirempty ip s else Ok True s) (\<lambda>e s.
             if i_type (inodes s ! ip) = T_DIR \<and> \<not> e then run (iunlockput ip s) (\<lambda>_ s. unlink_bad dp s)
             else
               run (writei dp (replicate 16 0) off 16 s) (\<lambda>r s.
               if r \<noteq> 16 then Panic ''unlink: writei''
               else
                 run (if i_type (inodes s ! ip) = T_DIR then
                        let s = upd_inode dp (\<lambda>k. k\<lparr>i_nlink := i_nlink k - 1\<rparr>) s in iupdate dp s
                      else Ok () s) (\<lambda>_ s.
                 run (iunlockput dp s) (\<lambda>_ s.
                 let s = upd_inode ip (\<lambda>k. k\<lparr>i_nlink := i_nlink k - 1\<rparr>) s in
                 run (iupdate ip s) (\<lambda>_ s.
                 run (iunlockput ip s) (\<lambda>_ s.
                 run (end_op s) (\<lambda>_ s. Ok 0 s)))))))))))))"

definition create_dots :: "nat \<Rightarrow> nat \<Rightarrow> 'z kernel_scheme \<Rightarrow> ('z kernel_scheme, unit) res" where
  "create_dots dp ip s =
     (let s = upd_inode dp (\<lambda>k. k\<lparr>i_nlink := i_nlink k + 1\<rparr>) s in
      run (iupdate dp s) (\<lambda>_ s.
      run (dirlink ip [0x2e] (i_inum (inodes s ! ip)) s) (\<lambda>r s.
      if r < 0 then Panic ''create dots''
      else run (dirlink ip [0x2e, 0x2e] (i_inum (inodes s ! dp)) s) (\<lambda>r s.
        if r < 0 then Panic ''create dots'' else Ok () s))))"

definition create :: "u8 list \<Rightarrow> u16 \<Rightarrow> u16 \<Rightarrow> u16 \<Rightarrow> 'z kernel_scheme \<Rightarrow> ('z kernel_scheme, nat option) res" where
  "create path type major minor s =
     run (nameiparent path s) (\<lambda>(d, name) s.
     case d of None \<Rightarrow> Ok None s
     | Some dp \<Rightarrow>
       run (ilock d s) (\<lambda>_ s.
       run (dirlookup dp name s) (\<lambda>r s.
       case r of
         Some (ip, _) \<Rightarrow>
           run (iunlockput dp s) (\<lambda>_ s.
           run (ilock (Some ip) s) (\<lambda>_ s.
           if type = T_FILE \<and> i_type (inodes s ! ip) = T_FILE then Ok (Some ip) s
           else run (iunlockput ip s) (\<lambda>_ s. Ok None s)))
       | None \<Rightarrow>
           run (ialloc (i_dev (inodes s ! dp)) type s) (\<lambda>ip s.
           run (ilock (Some ip) s) (\<lambda>_ s.
           let s = upd_inode ip (\<lambda>k. k\<lparr>i_major := major, i_minor := minor, i_nlink := 1\<rparr>) s in
           run (iupdate ip s) (\<lambda>_ s.
           run (if type = T_DIR then create_dots dp ip s else Ok () s) (\<lambda>_ s.
           run (dirlink dp name (i_inum (inodes s ! ip)) s) (\<lambda>r s.
           if r < 0 then Panic ''create: dirlink''
           else run (iunlockput dp s) (\<lambda>_ s. Ok (Some ip) s))))))))) "

section \<open>Opening files\<close>

definition open_fail :: "nat option \<Rightarrow> nat \<Rightarrow> 'z kernel_scheme \<Rightarrow> ('z kernel_scheme, int) res" where
  "open_fail f ip s =
     run (case f of Some f \<Rightarrow> fileclose f s | None \<Rightarrow> Ok () s) (\<lambda>_ s.
     run (iunlockput ip s) (\<lambda>_ s.
     run (end_op s) (\<lambda>_ s. Ok (-1) s)))"

definition open_finish :: "int \<Rightarrow> nat \<Rightarrow> 'z kernel_scheme \<Rightarrow> ('z kernel_scheme, int) res" where
  "open_finish omode ip s =
     run (filealloc s) (\<lambda>r s.
     case r of None \<Rightarrow> open_fail None ip s
     | Some f \<Rightarrow>
       run (fdalloc f s) (\<lambda>d s.
       case d of None \<Rightarrow> open_fail (Some f) ip s
       | Some fd \<Rightarrow>
         run (iunlock (Some ip) s) (\<lambda>_ s.
         run (end_op s) (\<lambda>_ s.
         let m = word_of_int omode;
             s = upd_file f (\<lambda>k. k\<lparr>f_type := FD_INODE, f_ip := Some ip, f_off := 0,
                   f_readable := (m AND O_WRONLY = 0),
                   f_writable := (m AND O_WRONLY \<noteq> 0 \<or> m AND O_RDWR \<noteq> 0)\<rparr>) s in
         Ok (int fd) s))))"

definition sys_open :: "'z kernel_scheme \<Rightarrow> ('z kernel_scheme, int) res" where
  "sys_open s =
     arg (argstr 0 s) (\<lambda>path s.
     arg (argint 1 s) (\<lambda>omode s.
     run (begin_op s) (\<lambda>_ s.
     if word_of_int omode AND O_CREATE \<noteq> 0 then
       run (create path T_FILE 0 0 s) (\<lambda>p s.
       case p of None \<Rightarrow> run (end_op s) (\<lambda>_ s. Ok (-1) s)
       | Some ip \<Rightarrow> open_finish omode ip s)
     else
       run (namei path s) (\<lambda>p s.
       case p of None \<Rightarrow> run (end_op s) (\<lambda>_ s. Ok (-1) s)
       | Some ip \<Rightarrow>
         run (ilock p s) (\<lambda>_ s.
         if i_type (inodes s ! ip) = T_DIR \<and> omode \<noteq> O_RDONLY then
           run (iunlockput ip s) (\<lambda>_ s. run (end_op s) (\<lambda>_ s. Ok (-1) s))
         else open_finish omode ip s)))))"

text \<open>The common end of \<open>sys_mkdir\<close> and \<open>sys_mknod\<close>.\<close>

definition made :: "('z kernel_scheme, nat option) res \<Rightarrow> ('z kernel_scheme, int) res" where
  "made m =
     run m (\<lambda>p s.
     case p of None \<Rightarrow> run (end_op s) (\<lambda>_ s. Ok (-1) s)
     | Some ip \<Rightarrow> run (iunlockput ip s) (\<lambda>_ s. run (end_op s) (\<lambda>_ s. Ok 0 s)))"

definition sys_mkdir :: "'z kernel_scheme \<Rightarrow> ('z kernel_scheme, int) res" where
  "sys_mkdir s =
     run (begin_op s) (\<lambda>_ s.
     made (run (argstr 0 s) (\<lambda>r s.
       case r of None \<Rightarrow> Ok None s | Some path \<Rightarrow> create path T_DIR 0 0 s)))"

definition sys_mknod :: "'z kernel_scheme \<Rightarrow> ('z kernel_scheme, int) res" where
  "sys_mknod s =
     run (begin_op s) (\<lambda>_ s.
     made (run (argstr 0 s) (\<lambda>r s.
       case r of None \<Rightarrow> Ok None s
       | Some path \<Rightarrow> run (argint 1 s) (\<lambda>r s.
         case r of None \<Rightarrow> Ok None s
         | Some major \<Rightarrow> run (argint 2 s) (\<lambda>r s.
           case r of None \<Rightarrow> Ok None s
           | Some minor \<Rightarrow> create path T_DEV (word_of_int major) (word_of_int minor) s)))))"

definition sys_chdir :: "'z kernel_scheme \<Rightarrow> ('z kernel_scheme, int) res" where
  "sys_chdir s =
     run (curproc s) (\<lambda>i s.
     run (begin_op s) (\<lambda>_ s.
     run (run (argstr 0 s) (\<lambda>r s. case r of None \<Rightarrow> Ok None s | Some path \<Rightarrow> namei path s)) (\<lambda>p s.
     case p of None \<Rightarrow> run (end_op s) (\<lambda>_ s. Ok (-1) s)
     | Some ip \<Rightarrow>
       run (ilock p s) (\<lambda>_ s.
       if i_type (inodes s ! ip) \<noteq> T_DIR then
         run (iunlockput ip s) (\<lambda>_ s. run (end_op s) (\<lambda>_ s. Ok (-1) s))
       else
         run (iunlock p s) (\<lambda>_ s.
         run (case cwd (procs s ! i) of None \<Rightarrow> Panic ''undefined behaviour'' | Some c \<Rightarrow> iput c s) (\<lambda>_ s.
         run (end_op s) (\<lambda>_ s.
         Ok 0 (upd_proc i (\<lambda>q. q\<lparr>cwd := Some ip\<rparr>) s))))))))"

text \<open>The loop of \<open>sys_exec\<close> with room for \<open>k\<close> more arguments.\<close>

fun exec_argv :: "u32 \<Rightarrow> nat \<Rightarrow> nat \<Rightarrow> u8 list list \<Rightarrow> 'z kernel_scheme \<Rightarrow> ('z kernel_scheme, u8 list list option) res" where
  "exec_argv uargv i 0 acc s = Ok None s"
| "exec_argv uargv i (Suc k) acc s =
     run (fetchint (uargv + 4 * of_nat i) s) (\<lambda>r s.
     case r of None \<Rightarrow> Ok None s
     | Some uarg \<Rightarrow>
       if uarg = 0 then Ok (Some acc) s
       else run (fetchstr (word_of_int uarg) s) (\<lambda>r s.
         case r of None \<Rightarrow> Ok None s
         | Some a \<Rightarrow> exec_argv uargv (i + 1) k (acc @ [a]) s))"

definition sys_exec :: "'z kernel_scheme \<Rightarrow> ('z kernel_scheme, int) res" where
  "sys_exec s =
     arg (argstr 0 s) (\<lambda>path s.
     arg (argint 1 s) (\<lambda>uargv s.
     arg (exec_argv (word_of_int uargv) 0 MAXARG [] s) (\<lambda>argv s.
     exec path argv s)))"

definition sys_pipe :: "'z kernel_scheme \<Rightarrow> ('z kernel_scheme, int) res" where
  "sys_pipe s =
     arg (argptr 0 8 s) (\<lambda>p s.
     arg (pipealloc s) (\<lambda>(rf, wf) s.
     run (fdalloc rf s) (\<lambda>a s.
     case a of
       None \<Rightarrow> run (fileclose rf s) (\<lambda>_ s. run (fileclose wf s) (\<lambda>_ s. Ok (-1) s))
     | Some fd0 \<Rightarrow>
       run (fdalloc wf s) (\<lambda>b s.
       case b of
         None \<Rightarrow>
           run (curproc s) (\<lambda>i s.
           let s = upd_proc i (\<lambda>q. q\<lparr>ofile := (ofile q)[fd0 := None]\<rparr>) s in
           run (fileclose rf s) (\<lambda>_ s. run (fileclose wf s) (\<lambda>_ s. Ok (-1) s)))
       | Some fd1 \<Rightarrow>
           run (user_store p (le_bytes (of_nat fd0) @ le_bytes (of_nat fd1)) s) (\<lambda>_ s. Ok 0 s)))))"

section \<open>Dispatch\<close>

definition syscalls :: "('z kernel_scheme \<Rightarrow> ('z kernel_scheme, int) res) option list" where
  "syscalls = None # map Some
     [sys_fork, sys_exit, sys_wait, sys_pipe, sys_read, sys_kill, sys_exec, sys_fstat, sys_chdir, sys_dup,
      sys_getpid, sys_sbrk, sys_sleep, sys_uptime, sys_open, sys_write, sys_mknod, sys_unlink, sys_link,
      sys_mkdir, sys_close, sys_setpriority, sys_getpriority, sys_settickets, sys_getpinfo]"

definition syscall :: "'z kernel_scheme \<Rightarrow> ('z kernel_scheme, unit) res" where
  "syscall s =
     run (curproc s) (\<lambda>i s.
     let num = sint (load32 (mem s) (tf (procs s ! i) + 28));
         f = (if num > 0 \<and> num < int (length (syscalls :: ('z kernel_scheme \<Rightarrow> ('z kernel_scheme, int) res) option list))
              then syscalls ! nat num else None) in
     case f of
       Some call \<Rightarrow>
         run (call s) (\<lambda>r s.
         Ok () (s\<lparr>mem := store32 (tf (procs s ! i) + 28) (word_of_int r) (mem s)\<rparr>))
     | None \<Rightarrow>
         run (cprintf (''%d %s: unknown sys call %d'' @ [CHR 0x0A])
           [Word (pid (procs s ! i)), Str (Some (pname (procs s ! i))), Word num] s) (\<lambda>_ s.
         Ok () (s\<lparr>mem := store32 (tf (procs s ! i) + 28) (- 1) (mem s)\<rparr>)))"

end
