(* ===== verification/Kbd.thy ===== *)
theory Kbd
  imports Prelude
begin

text \<open>
  The keyboard driver, \<open>lab2/kbd.c\<close> with the tables of \<open>lab2/kbd.h\<close>: from scan codes to
  characters.  The bytes waiting in the controller are a list; \<open>kbdgetc\<close> on the empty list
  answers -1.
\<close>

section \<open>The code\<close>

abbreviation (input) SHIFT :: u32 where "SHIFT \<equiv> 1"
abbreviation (input) CTL :: u32 where "CTL \<equiv> 2"
abbreviation (input) ALT :: u32 where "ALT \<equiv> 4"
abbreviation (input) CAPSLOCK :: u32 where "CAPSLOCK \<equiv> 8"
abbreviation (input) NUMLOCK :: u32 where "NUMLOCK \<equiv> 16"
abbreviation (input) SCROLLLOCK :: u32 where "SCROLLLOCK \<equiv> 32"
abbreviation (input) E0ESC :: u32 where "E0ESC \<equiv> 64"

text \<open>An array of 256 bytes from its first elements and some designated ones, the rest zero.\<close>

definition table :: "u8 list \<Rightarrow> (nat \<times> u8) list \<Rightarrow> u8 list" where
  "table xs ds = fold (\<lambda>(i, c) t. t[i := c]) ds (xs @ replicate (256 - length xs) 0)"

definition str :: "string \<Rightarrow> u8 list" where
  "str x = map of_char x"

definition shiftcode :: "u8 list" where
  "shiftcode = table [] [(0x1D, 2), (0x2A, 1), (0x36, 1), (0x38, 4), (0x9D, 2), (0xB8, 4)]"

definition togglecode :: "u8 list" where
  "togglecode = table [] [(0x3A, 8), (0x45, 16), (0x46, 32)]"

definition keypad :: "(nat \<times> u8) list" where
  "keypad = [(0xC8, 0xE2), (0xD0, 0xE3), (0xC9, 0xE6), (0xD1, 0xE7), (0xCB, 0xE4), (0xCD, 0xE5),
     (0x97, 0xE0), (0xCF, 0xE1), (0xD2, 0xE8), (0xD3, 0xE9)]"

definition normalmap :: "u8 list" where
  "normalmap = table
     ([0, 0x1B] @ str ''1234567890-='' @ [8, 9]
      @ str ''qwertyuiop[]'' @ [10, 0] @ str ''as''
      @ str ''dfghjkl;'' @ [0x27, 0x60, 0, 0x5C] @ str ''zxcv''
      @ str ''bnm,./'' @ [0] @ str ''*'' @ [0] @ str '' '' @ replicate 13 0 @ str ''7''
      @ str ''89-456+1'' @ str ''230.'' @ [0, 0, 0, 0])
     ([(0x9C, 10), (0xB5, of_char (CHR ''/''))] @ keypad)"

definition shiftmap :: "u8 list" where
  "shiftmap = table
     ([0, 0x1B] @ str ''!@#$%^&*()_+'' @ [8, 9]
      @ str ''QWERTYUIOP{}'' @ [10, 0] @ str ''AS''
      @ str ''DFGHJKL:'' @ [0x22, 0x7E, 0, 0x7C] @ str ''ZXCV''
      @ str ''BNM<>?'' @ [0] @ str ''*'' @ [0] @ str '' '' @ replicate 13 0 @ str ''7''
      @ str ''89-456+1'' @ str ''230.'' @ [0, 0, 0, 0])
     ([(0x9C, 10), (0xB5, of_char (CHR ''/''))] @ keypad)"

definition ctl :: "string \<Rightarrow> u8 list" where
  "ctl x = map (\<lambda>c. of_char c - 0x40) x"

definition ctlmap :: "u8 list" where
  "ctlmap = table
     (replicate 16 0
      @ ctl ''QWERTYUIOP'' @ [0, 0, 13, 0] @ ctl ''AS''
      @ ctl ''DFGHJKL'' @ [0, 0, 0, 0] @ [0x5C - 0x40] @ ctl ''ZXCV''
      @ ctl ''BNM'' @ [0, 0] @ ctl ''/'' @ [0, 0])
     ([(0x9C, 13), (0xB5, of_char (CHR ''/'') - 0x40)] @ keypad)"

definition charcode :: "u8 list list" where
  "charcode = [normalmap, shiftmap, ctlmap, ctlmap]"

text \<open>A byte that has arrived: the new value of the static variable \<open>shift\<close> and the result.\<close>

definition kbd_byte :: "u32 \<Rightarrow> u8 \<Rightarrow> u32 \<times> int" where
  "kbd_byte shift data =
     (if data = 0xE0 then (shift OR E0ESC, 0)
      else if data AND 0x80 \<noteq> 0 then
        let data = (if shift AND E0ESC \<noteq> 0 then data else data AND 0x7F) in
        (shift AND NOT (ucast (shiftcode ! unat data) OR E0ESC), 0)
      else
        let (data, shift) = (if shift AND E0ESC \<noteq> 0 then (data OR 0x80, shift AND NOT E0ESC) else (data, shift));
            shift = shift OR ucast (shiftcode ! unat data);
            shift = shift XOR ucast (togglecode ! unat data);
            c = uint (charcode ! unat (shift AND (CTL OR SHIFT)) ! unat data);
            c = (if shift AND CAPSLOCK \<noteq> 0 then
                   (if of_char (CHR ''a'') \<le> c \<and> c \<le> of_char (CHR ''z'') then c + of_char (CHR ''A'') - of_char (CHR ''a'')
                    else if of_char (CHR ''A'') \<le> c \<and> c \<le> of_char (CHR ''Z'') then c + of_char (CHR ''a'') - of_char (CHR ''A'')
                    else c)
                 else c) in
        (shift, c))"

fun kbdgetc :: "u8 list \<times> u32 \<Rightarrow> int \<times> u8 list \<times> u32" where
  "kbdgetc ([], shift) = (-1, [], shift)"
| "kbdgetc (data # rest, shift) = (let (shift, c) = kbd_byte shift data in (c, rest, shift))"

text \<open>The results of calling \<open>kbdgetc\<close> until it is negative, as \<open>consoleintr\<close> does.\<close>

fun kbd_drain :: "u8 list \<Rightarrow> u32 \<Rightarrow> int list \<times> u32" where
  "kbd_drain [] shift = ([], shift)"
| "kbd_drain (d # ds) shift =
     (let (shift, c) = kbd_byte shift d; (cs, shift) = kbd_drain ds shift in (c # cs, shift))"

end
