(* ===== verification/Trap.thy ===== *)
theory Trap
  imports Syscall Kbd
begin

text \<open>
  Interrupts and exceptions, \<open>lab2/trap.c\<close>, with the interrupt side of \<open>lab2/kbd.c\<close> and
  \<open>lab2/uart.c\<close>.  The bytes that wait in the keyboard controller and in the serial port,
  the fault address \<open>cr2\<close> and the handler entry points \<open>vectors\<close> are fields of the state.
  The acknowledgement \<open>lapiceoi\<close> writes a device register and nothing else.
\<close>

record gatedesc =
  off_15_0 :: u16
  g_cs :: u16
  g_args :: "5 word"
  g_rsv1 :: "3 word"
  g_type :: "4 word"
  g_s :: "1 word"
  g_dpl :: "2 word"
  g_p :: "1 word"
  off_31_16 :: u16

record traps = kernel +
  idt :: "gatedesc list"
  vectors :: "u32 list"
  kbd_data :: "u8 list"
  kbd_shift :: u32
  uart_in :: "u8 list"
  cr2 :: u32

abbreviation (input) T_SYSCALL :: u32 where "T_SYSCALL \<equiv> 64"
abbreviation (input) DPL_USER :: u16 where "DPL_USER \<equiv> 3"

section \<open>Gates\<close>

text \<open>\<open>STS_TG32\<close> is 15, \<open>STS_IG32\<close> is 14.\<close>

definition SETGATE :: "bool \<Rightarrow> u16 \<Rightarrow> u32 \<Rightarrow> 2 word \<Rightarrow> gatedesc" where
  "SETGATE istrap sel off d = \<lparr>off_15_0 = ucast (off AND 0xffff), g_cs = sel, g_args = 0, g_rsv1 = 0,
     g_type = (if istrap then 15 else 14), g_s = 0, g_dpl = d, g_p = 1, off_31_16 = ucast (drop_bit 16 off)\<rparr>"

definition tvinit :: "'z traps_scheme \<Rightarrow> 'z traps_scheme" where
  "tvinit s =
     (let s = s\<lparr>idt := map (\<lambda>i. SETGATE False (of_nat (8 * SEG_KCODE)) (vectors s ! i) 0) [0..<256]\<rparr>;
          s = s\<lparr>idt := (idt s)[64 := SETGATE True (of_nat (8 * SEG_KCODE)) (vectors s ! 64) 3]\<rparr> in
      initlock TicksLock ''time'' s)"

section \<open>Device interrupts\<close>

definition kbdintr :: "'z traps_scheme \<Rightarrow> ('z traps_scheme, unit) res" where
  "kbdintr s =
     (let (cs, sh) = kbd_drain (kbd_data s) (kbd_shift s) in
      consoleintr cs (s\<lparr>kbd_data := [], kbd_shift := sh\<rparr>))"

text \<open>What \<open>uartgetc\<close> delivers: nothing without a serial port.\<close>

definition uartintr :: "'z traps_scheme \<Rightarrow> ('z traps_scheme, unit) res" where
  "uartintr s =
     (if uart_on s then consoleintr (map uint (uart_in s)) (s\<lparr>uart_in := []\<rparr>) else consoleintr [] s)"

text \<open>The handler of the memory disk.\<close>

definition ideintr_mem :: "'z traps_scheme \<Rightarrow> ('z traps_scheme, unit) res" where
  "ideintr_mem s = Ok () s"

definition timer :: "'z traps_scheme \<Rightarrow> ('z traps_scheme, unit) res" where
  "timer s =
     run (cpuid s) (\<lambda>c s.
     if c = 0 then
       run (acquire TicksLock s) (\<lambda>_ s.
       let s = s\<lparr>ticks := ticks s + 1\<rparr> in
       run (wakeup (Some ChanTicks) s) (\<lambda>_ s.
       release TicksLock s))
     else Ok () s)"

section \<open>The handler\<close>

definition tf_trapno :: "u32 \<Rightarrow> 'z traps_scheme \<Rightarrow> u32" where
  "tf_trapno f s = load32 (mem s) (f + 48)"

definition tf_err :: "u32 \<Rightarrow> 'z traps_scheme \<Rightarrow> u32" where
  "tf_err f s = load32 (mem s) (f + 52)"

definition tf_eip :: "u32 \<Rightarrow> 'z traps_scheme \<Rightarrow> u32" where
  "tf_eip f s = load32 (mem s) (f + 56)"

definition tf_cs :: "u32 \<Rightarrow> 'z traps_scheme \<Rightarrow> u16" where
  "tf_cs f s = ucast (load32 (mem s) (f + 60))"

definition trap_syscall :: "u32 \<Rightarrow> 'z traps_scheme \<Rightarrow> ('z traps_scheme, unit) res" where
  "trap_syscall f s =
     run (curproc s) (\<lambda>i s.
     run (if killed (procs s ! i) then exit s else Ok () s) (\<lambda>_ s.
     let s = upd_proc i (\<lambda>q. q\<lparr>tf := f\<rparr>) s in
     run (syscall s) (\<lambda>_ s.
     run (curproc s) (\<lambda>i s.
     if killed (procs s ! i) then exit s else Ok () s))))"

definition trap_fault :: "u32 \<Rightarrow> 'z traps_scheme \<Rightarrow> ('z traps_scheme, unit) res" where
  "trap_fault f s =
     run (myproc s) (\<lambda>p s.
     case p of
       Some i \<Rightarrow>
         if tf_cs f s AND 3 = 0 then
           run (cpuid s) (\<lambda>c s.
           run (cprintf (''unexpected trap %d from cpu %d eip %x (cr2=0x%x)'' @ [CHR 0x0A])
             [Word (sint (tf_trapno f s)), Word (int c), Word (sint (tf_eip f s)), Word (sint (cr2 s))] s) (\<lambda>_ s.
           Panic ''trap''))
         else
           run (cpuid s) (\<lambda>c s.
           run (cprintf (''pid %d %s: trap %d err %d on cpu %d eip 0x%x addr 0x%x--kill proc'' @ [CHR 0x0A])
             [Word (pid (procs s ! i)), Str (Some (pname (procs s ! i))), Word (sint (tf_trapno f s)),
              Word (sint (tf_err f s)), Word (int c), Word (sint (tf_eip f s)), Word (sint (cr2 s))] s) (\<lambda>_ s.
           Ok () (upd_proc i (\<lambda>q. q\<lparr>killed := True\<rparr>) s)))
     | None \<Rightarrow>
         run (cpuid s) (\<lambda>c s.
         run (cprintf (''unexpected trap %d from cpu %d eip %x (cr2=0x%x)'' @ [CHR 0x0A])
           [Word (sint (tf_trapno f s)), Word (int c), Word (sint (tf_eip f s)), Word (sint (cr2 s))] s) (\<lambda>_ s.
         Panic ''trap'')))"

definition trap_device :: "u32 \<Rightarrow> 'z traps_scheme \<Rightarrow> ('z traps_scheme, unit) res" where
  "trap_device f s =
     (let n = tf_trapno f s in
      if n = 32 then timer s
      else if n = 32 + 14 then ideintr_mem s
      else if n = 32 + 15 then Ok () s
      else if n = 32 + 1 then kbdintr s
      else if n = 32 + 4 then uartintr s
      else if n = 32 + 7 \<or> n = 32 + 31 then
        run (cpuid s) (\<lambda>c s.
        cprintf (''cpu%d: spurious interrupt at %x:%x'' @ [CHR 0x0A])
          [Word (int c), Word (uint (tf_cs f s)), Word (sint (tf_eip f s))] s)
      else trap_fault f s)"

text \<open>Lines 100-101 and 110-111: a killed process that was in user space exits.\<close>

definition exit_if_killed :: "u32 \<Rightarrow> 'z traps_scheme \<Rightarrow> ('z traps_scheme, unit) res" where
  "exit_if_killed f s =
     run (myproc s) (\<lambda>p s.
     case p of None \<Rightarrow> Ok () s
     | Some i \<Rightarrow> if killed (procs s ! i) \<and> tf_cs f s AND 3 = DPL_USER then exit s else Ok () s)"

definition trap :: "u32 \<Rightarrow> 'z traps_scheme \<Rightarrow> ('z traps_scheme, unit) res" where
  "trap f s =
     (if tf_trapno f s = T_SYSCALL then trap_syscall f s
      else
        run (trap_device f s) (\<lambda>_ s.
        run (exit_if_killed f s) (\<lambda>_ s.
        run (myproc s) (\<lambda>p s.
        run (case p of None \<Rightarrow> Ok () s
             | Some i \<Rightarrow> if pstate (procs s ! i) = RUNNING \<and> tf_trapno f s = 32 then yield s else Ok () s) (\<lambda>_ s.
        exit_if_killed f s)))))"

text \<open>After \<open>yield\<close> the handler goes on here.\<close>

definition trap_resume :: "u32 \<Rightarrow> bool \<Rightarrow> 'z traps_scheme \<Rightarrow> ('z traps_scheme, unit) res" where
  "trap_resume f saved s = run (yield_resume saved s) (\<lambda>_ s. exit_if_killed f s)"

end
