(* ===== verification/Cache.thy ===== *)
theory Cache
  imports Bio
begin

text \<open>
  What the buffer cache promises: seen through it, the disk is an array of blocks.
  \<open>view s n\<close> is the content of block \<open>n\<close> as a reader finds it, in the cache or on the
  disk.  \<open>cache_ok H s\<close> is the invariant at the points between the operations of one process
  that has the buffers \<open>H\<close> locked and no spin lock.
\<close>

section \<open>The operations under free locks\<close>

definition idle :: "'z machine_scheme \<Rightarrow> bool" where
  "idle s \<longleftrightarrow> (\<forall>l. can_lock l s) \<and> cur s \<noteq> None"

lemma idle_lock: "idle s \<Longrightarrow> can_lock l s"
  by (simp add: idle_def)

lemma cur_balanced:
  assumes "balanced s t" "cpu_inv s"
  shows "cur t = cur s"
  using balanced_my_cpu [OF assms(1) me_less [OF assms(2)]] by (simp add: cur_def cpu_view_def)

lemma idle_balanced: "balanced s t \<Longrightarrow> idle s \<Longrightarrow> idle t"
  using cur_balanced [of s t] by (auto simp: idle_def can_lock_balanced) (simp add: can_lock_def)

lemma bcache_fields_locked [simp]:
  "sleeps (acquired l s) = sleeps s" "sleeps (released l s) = sleeps s" "sleeps (woken c s) = sleeps s"
  "bufs (acquired l s) = bufs s" "bufs (released l s) = bufs s" "bufs (woken c s) = bufs s"
  "b_next (acquired l s) = b_next s" "b_next (released l s) = b_next s" "b_next (woken c s) = b_next s"
  "b_prev (acquired l s) = b_prev s" "b_prev (released l s) = b_prev s" "b_prev (woken c s) = b_prev s"
  "disk (acquired l s) = disk s" "disk (released l s) = disk s" "disk (woken c s) = disk s"
  "disksize (acquired l s) = disksize s" "disksize (released l s) = disksize s" "disksize (woken c s) = disksize s"
  "disk_log (acquired l s) = disk_log s" "disk_log (released l s) = disk_log s" "disk_log (woken c s) = disk_log s"
  "bcache.more (acquired l s) = bcache.more s" "bcache.more (released l s) = bcache.more s"
  "bcache.more (woken c s) = bcache.more s"
  by (simp_all add: acquired_def released_def pushed_def popped_def upd_lock_def woken_def wakeup1_def)

lemma upd_buf_fields [simp]:
  "bufs (upd_buf b f s) = (bufs s)[b := f (bufs s ! b)]" "sleeps (upd_buf b f s) = sleeps s"
  "b_next (upd_buf b f s) = b_next s" "b_prev (upd_buf b f s) = b_prev s" "disk (upd_buf b f s) = disk s"
  "disksize (upd_buf b f s) = disksize s" "disk_log (upd_buf b f s) = disk_log s"
  "bcache.more (upd_buf b f s) = bcache.more s" "procs (upd_buf b f s) = procs s"
  by (simp_all add: upd_buf_def)

lemma upd_sleep_fields [simp]:
  "sleeps (upd_sleep l f s) = (sleeps s)(l := f (sleeps s l))" "bufs (upd_sleep l f s) = bufs s"
  "b_next (upd_sleep l f s) = b_next s" "b_prev (upd_sleep l f s) = b_prev s" "disk (upd_sleep l f s) = disk s"
  "disksize (upd_sleep l f s) = disksize s" "disk_log (upd_sleep l f s) = disk_log s"
  "bcache.more (upd_sleep l f s) = bcache.more s" "procs (upd_sleep l f s) = procs s"
  by (simp_all add: upd_sleep_def)

lemma to_front_fields [simp]:
  "sleeps (to_front b s) = sleeps s" "bufs (to_front b s) = bufs s" "disk (to_front b s) = disk s"
  "disksize (to_front b s) = disksize s" "disk_log (to_front b s) = disk_log s"
  "bcache.more (to_front b s) = bcache.more s" "procs (to_front b s) = procs s"
  by (simp_all add: to_front_def Let_def)

lemma balanced_bcache_upd [simp]:
  "balanced s (upd_buf b f t) = balanced s t" "balanced s (upd_sleep l g t) = balanced s t"
  "balanced s (to_front b t) = balanced s t" "balanced s (write_disk n d t) = balanced s t"
  by (simp_all add: balanced_def upd_buf_def upd_sleep_def to_front_def write_disk_def Let_def)

lemma write_disk_fields [simp]:
  "disk (write_disk n d s) = (disk s)(n := d)" "disk_log (write_disk n d s) = disk_log s @ [(n, d)]"
  "sleeps (write_disk n d s) = sleeps s" "bufs (write_disk n d s) = bufs s" "b_next (write_disk n d s) = b_next s"
  "b_prev (write_disk n d s) = b_prev s" "disksize (write_disk n d s) = disksize s"
  "bcache.more (write_disk n d s) = bcache.more s" "procs (write_disk n d s) = procs s"
  by (simp_all add: write_disk_def)

definition my_pid :: "'z ptable_scheme \<Rightarrow> int" where
  "my_pid s = pid (procs s ! the (cur s))"

lemma mypid_crit:
  assumes "in_crit l s" "cur s \<noteq> None"
  shows "mypid s = Ok (my_pid s) s"
  using assms(2) by (auto simp: mypid_def myproc_crit [OF assms(1)] nonnull_def my_pid_def)

text \<open>Taking and giving back a free sleep lock, and asking for it.\<close>

definition slept :: "sleepid \<Rightarrow> 'z bcache_scheme \<Rightarrow> 'z bcache_scheme" where
  "slept l s = released (SleepSpin l)
     (upd_sleep l (\<lambda>k. k\<lparr>sl_locked := True, sl_pid := my_pid s\<rparr>) (acquired (SleepSpin l) s))"

lemma cur_acquired_idle: "idle s \<Longrightarrow> cur (acquired l s) = cur s"
  using idle_lock [of s l] by (simp add: can_lock_def)

lemma my_pid_acquired: "idle s \<Longrightarrow> my_pid (acquired l s) = my_pid s"
  by (simp add: my_pid_def cur_acquired_idle)

lemma in_crit_upd_sleep [simp]: "in_crit l (upd_sleep k f s) = in_crit l s"
  by (simp add: in_crit_def cpu_inv_def me_def held_def upd_sleep_def)

lemma cur_upd_sleep [simp]: "cur (upd_sleep k f s) = cur s"
  by (simp add: cur_def me_def upd_sleep_def)

lemma my_pid_upd_sleep [simp]: "my_pid (upd_sleep k f s) = my_pid s"
  by (simp add: my_pid_def)

lemma acquiresleep_free:
  assumes "idle s" "\<not> sl_locked (sleeps s l)"
  shows "acquiresleep l s = Ok () (slept l s)" "balanced s (slept l s)"
proof -
  let ?a = "acquired (SleepSpin l) s"
  have c: "can_lock (SleepSpin l) s" using assms(1) by (rule idle_lock)
  have crit: "in_crit (SleepSpin l) ?a" by (rule in_crit_acquired [OF c])
  have m: "mypid (upd_sleep l f ?a) = Ok (my_pid s) (upd_sleep l f ?a)" for f
    using mypid_crit [of "SleepSpin l" "upd_sleep l f ?a"] crit assms(1)
    by (simp add: cur_acquired_idle my_pid_acquired) (simp add: idle_def)
  have two: "upd_sleep l g (upd_sleep l f ?a) = upd_sleep l (\<lambda>k. g (f k)) ?a" for f g
    by (simp add: upd_sleep_def)
  show "acquiresleep l s = Ok () (slept l s)"
    using assms(2) release_balanced(1) [OF c, of "upd_sleep l (\<lambda>k. k\<lparr>sl_locked := True, sl_pid := my_pid s\<rparr>) ?a"]
    by (simp add: acquiresleep_def acquiresleep_loop_def acquire_ok [OF c] Let_def m two slept_def)
  show "balanced s (slept l s)"
    unfolding slept_def by (rule release_balanced(2) [OF c]) simp
qed

definition unslept :: "sleepid \<Rightarrow> 'z bcache_scheme \<Rightarrow> 'z bcache_scheme" where
  "unslept l s = released (SleepSpin l) (woken (Some (ChanSleeplock l))
     (upd_sleep l (\<lambda>k. k\<lparr>sl_locked := False, sl_pid := 0\<rparr>) (acquired (SleepSpin l) s)))"

lemma can_lock_upd_sleep [simp]: "can_lock l (upd_sleep k f s) = can_lock l s"
  by (simp add: can_lock_def cpu_inv_def me_def upd_sleep_def)

lemma can_lock_acquired_other:
  "can_lock l s \<Longrightarrow> can_lock k s \<Longrightarrow> k \<noteq> l \<Longrightarrow> can_lock k (acquired l s)"
  by (simp add: can_lock_def)

lemma releasesleep_ok:
  assumes "idle s"
  shows "releasesleep l s = Ok () (unslept l s)" "balanced s (unslept l s)"
proof -
  let ?a = "acquired (SleepSpin l) s"
  let ?u = "upd_sleep l (\<lambda>k. k\<lparr>sl_locked := False, sl_pid := 0\<rparr>) ?a"
  have c: "can_lock (SleepSpin l) s" and p: "can_lock PtableLock s" using assms by (simp_all add: idle_lock)
  have pa: "can_lock PtableLock ?u" using can_lock_acquired_other [OF c p] by simp
  have b: "balanced ?a (woken (Some (ChanSleeplock l)) ?u)"
    using balanced_trans [OF _ wakeup_eq(2) [OF pa], of ?a] by simp
  show "releasesleep l s = Ok () (unslept l s)" "balanced s (unslept l s)"
    using release_balanced [OF c b] by (simp_all add: releasesleep_def acquire_ok [OF c] Let_def wakeup_eq [OF pa] unslept_def)
qed

definition asked :: "sleepid \<Rightarrow> 'z bcache_scheme \<Rightarrow> 'z bcache_scheme" where
  "asked l s = released (SleepSpin l) (acquired (SleepSpin l) s)"

lemma holdingsleep_ok:
  assumes "idle s"
  shows "holdingsleep l s = Ok (sl_locked (sleeps s l) \<and> sl_pid (sleeps s l) = my_pid s) (asked l s)"
    "balanced s (asked l s)"
proof -
  let ?a = "acquired (SleepSpin l) s"
  have c: "can_lock (SleepSpin l) s" using assms by (rule idle_lock)
  have crit: "in_crit (SleepSpin l) ?a" by (rule in_crit_acquired [OF c])
  have m: "mypid ?a = Ok (my_pid s) ?a"
    using mypid_crit [OF crit] assms by (simp add: cur_acquired_idle my_pid_acquired) (simp add: idle_def)
  show "holdingsleep l s = Ok (sl_locked (sleeps s l) \<and> sl_pid (sleeps s l) = my_pid s) (asked l s)"
    using release_balanced(1) [OF c, of ?a] by (simp add: holdingsleep_def acquire_ok [OF c] m asked_def)
  show "balanced s (asked l s)" unfolding asked_def by (rule release_balanced(2) [OF c]) simp
qed

lemma my_pid_balanced:
  assumes "balanced s t" "idle s" "map pid (procs t) = map pid (procs s)" "the (cur s) < length (procs s)"
  shows "my_pid t = my_pid s"
proof -
  have "cur t = cur s" using cur_balanced [OF assms(1)] idle_lock [OF assms(2)] by (simp add: can_lock_def)
  moreover have "length (procs t) = length (procs s)" using assms(3) by (metis length_map)
  ultimately show ?thesis using assms(3,4) by (metis my_pid_def nth_map)
qed

section \<open>The invariant\<close>

text \<open>
  A locked buffer is locked by the running process and has one reference, any other has
  none.  A dirty buffer is valid, and a valid buffer that is neither dirty nor locked agrees
  with the disk.  No block has two buffers.
\<close>

definition bkey :: "buf \<Rightarrow> u32 \<times> u32" where
  "bkey k = (b_dev k, b_blockno k)"

definition buf_ok :: "bool \<Rightarrow> int \<Rightarrow> (u32 \<Rightarrow> block) \<Rightarrow> sleeplock \<Rightarrow> buf \<Rightarrow> bool" where
  "buf_ok h p d l k \<longleftrightarrow> sl_locked l = h \<and> (h \<longrightarrow> sl_pid l = p) \<and> b_refcnt k = (if h then 1 else 0) \<and>
     (b_dirty k \<longrightarrow> b_valid k \<and> b_dev k = 1) \<and>
     (\<not> h \<and> b_valid k \<and> \<not> b_dirty k \<and> b_dev k = 1 \<longrightarrow> b_data k = d (b_blockno k))"

definition keys_ok :: "buf list \<Rightarrow> bool" where
  "keys_ok bs \<longleftrightarrow> (\<forall>i < length bs. \<forall>j < length bs. bkey (bs ! i) = bkey (bs ! j) \<longrightarrow> b_dev (bs ! i) = 1 \<longrightarrow> i = j)"

definition cache_ok :: "nat set \<Rightarrow> 'z bcache_scheme \<Rightarrow> bool" where
  "cache_ok H s \<longleftrightarrow> idle s \<and> the (cur s) < length (procs s) \<and> length (bufs s) = NBUF \<and> H \<subseteq> {..<NBUF} \<and>
     (\<exists>xs. buffers s xs \<and> set xs = {..<NBUF}) \<and> keys_ok (bufs s) \<and>
     (\<forall>i < NBUF. buf_ok (i \<in> H) (my_pid s) (disk s) (sleeps s (BufSleep i)) (bufs s ! i))"

definition lookup :: "'z bcache_scheme \<Rightarrow> u32 \<Rightarrow> nat option" where
  "lookup s n = find_index (\<lambda>k. bkey k = (1, n)) (bufs s)"

definition view :: "'z bcache_scheme \<Rightarrow> u32 \<Rightarrow> block" where
  "view s n = (case lookup s n of None \<Rightarrow> disk s n
     | Some i \<Rightarrow> if b_valid (bufs s ! i) then b_data (bufs s ! i) else disk s n)"

definition dirty :: "'z bcache_scheme \<Rightarrow> u32 set" where
  "dirty s = {n. \<exists>k \<in> set (bufs s). bkey k = (1, n) \<and> b_dirty k}"

text \<open>What no operation of the cache changes.\<close>

definition kept :: "'z bcache_scheme \<Rightarrow> 'z bcache_scheme \<Rightarrow> bool" where
  "kept s t \<longleftrightarrow> balanced s t \<and> disksize t = disksize s \<and> bcache.more t = bcache.more s"

lemma kept_refl [simp]: "kept s s"
  by (simp add: kept_def)

lemma kept_trans [trans]: "kept s t \<Longrightarrow> kept t u \<Longrightarrow> kept s u"
  by (auto simp: kept_def intro: balanced_trans)

lemma cache_okD:
  assumes "cache_ok H s"
  shows "idle s" "length (bufs s) = NBUF" "H \<subseteq> {..<NBUF}" "keys_ok (bufs s)" "the (cur s) < length (procs s)"
    "i < NBUF \<Longrightarrow> buf_ok (i \<in> H) (my_pid s) (disk s) (sleeps s (BufSleep i)) (bufs s ! i)"
  using assms by (simp_all add: cache_ok_def)

lemma keys_ok_update:
  assumes "keys_ok bs" "b_dev k = 1 \<Longrightarrow> \<forall>j < length bs. j \<noteq> b \<longrightarrow> bkey (bs ! j) \<noteq> bkey k"
  shows "keys_ok (bs[b := k])"
proof (unfold keys_ok_def, intro allI impI)
  fix i j
  assume ij: "i < length (bs[b := k])" "j < length (bs[b := k])" "bkey (bs[b := k] ! i) = bkey (bs[b := k] ! j)"
    "b_dev (bs[b := k] ! i) = 1"
  then have d: "b_dev (bs[b := k] ! j) = 1" by (simp add: bkey_def)
  show "i = j"
  proof (cases "i = b \<or> j = b")
    case True
    then show ?thesis using assms(2) ij d by (cases "i = b"; cases "j = b") (auto simp: nth_list_update)
  next
    case False
    then show ?thesis using assms(1) ij by (auto simp: keys_ok_def)
  qed
qed

lemma keys_ok_refresh: "keys_ok bs \<Longrightarrow> b < length bs \<Longrightarrow> bkey k = bkey (bs ! b) \<Longrightarrow> keys_ok (bs[b := k])"
  by (rule keys_ok_update) (auto simp: keys_ok_def bkey_def)

lemma cache_ok_step:
  assumes "cache_ok H s" "b < NBUF" "balanced s t" "map pid (procs t) = map pid (procs s)"
    and "bufs t = (bufs s)[b := k]" "\<And>i. i \<noteq> b \<Longrightarrow> sleeps t (BufSleep i) = sleeps s (BufSleep i)"
    and "\<exists>xs. buffers t xs \<and> set xs = {..<NBUF}" "keys_ok (bufs t)"
    and "\<And>i. i \<in> H' \<longleftrightarrow> (if i = b then h else i \<in> H)"
    and "\<And>i. i < NBUF \<Longrightarrow> i \<noteq> b \<Longrightarrow> b_dev (bufs s ! i) = 1 \<Longrightarrow> disk t (b_blockno (bufs s ! i)) = disk s (b_blockno (bufs s ! i))"
    and "buf_ok h (my_pid s) (disk t) (sleeps t (BufSleep b)) k"
  shows "cache_ok H' t"
proof -
  note c = cache_okD [OF assms(1)]
  have "cur t = cur s" using cur_balanced [OF assms(3)] idle_lock [OF c(1)] by (simp add: can_lock_def)
  moreover have "length (procs t) = length (procs s)" using assms(4) by (metis length_map)
  moreover have "my_pid t = my_pid s" by (rule my_pid_balanced [OF assms(3) c(1) assms(4) c(5)])
  moreover have "idle t" by (rule idle_balanced [OF assms(3) c(1)])
  moreover have "H' \<subseteq> {..<NBUF}" using c(3) assms(2,9) by (auto split: if_splits)
  moreover have "buf_ok (i \<in> H') (my_pid s) (disk t) (sleeps t (BufSleep i)) (bufs t ! i)" if "i < NBUF" for i
    using that c(6) [of i] assms(2,5,6,9,10,11) c(2) by (cases "i = b") (auto simp: buf_ok_def)
  ultimately show ?thesis using c assms(5,7,8) by (simp add: cache_ok_def)
qed

section \<open>Lookup and view\<close>

lemma lookup_eq:
  assumes "cache_ok H s" "i < NBUF" "bkey (bufs s ! i) = (1, n)"
  shows "lookup s n = Some i"
  unfolding lookup_def
proof (rule find_index_unique)
  show "i < length (bufs s)" using assms by (simp add: cache_okD)
  show "bkey (bufs s ! i) = (1, n)" by (rule assms(3))
  fix j
  assume "j < length (bufs s)" "bkey (bufs s ! j) = (1, n)"
  then show "j = i"
    using assms cache_okD(2,4) [OF assms(1)] by (auto simp: keys_ok_def bkey_def)
qed

lemma lookup_SomeD:
  assumes "lookup s n = Some i"
  shows "i < length (bufs s)" "bkey (bufs s ! i) = (1, n)"
  using find_index_SomeD [OF assms [unfolded lookup_def]] by simp_all

lemma lookup_NoneD: "lookup s n = None \<Longrightarrow> i < length (bufs s) \<Longrightarrow> bkey (bufs s ! i) \<noteq> (1, n)"
  by (auto simp: lookup_def find_index_None)

lemma lookup_other:
  assumes "b < length (bufs s)" "bufs t = (bufs s)[b := k]" "bkey (bufs s ! b) \<noteq> (1, n)" "bkey k \<noteq> (1, n)"
  shows "lookup t n = lookup s n"
proof -
  have "find_index P (xs[j := y]) = find_index P xs" if "P y = P (xs ! j)" for P j y and xs :: "buf list"
    using that by (induction xs arbitrary: j) (auto split: nat.splits)
  from this [of "\<lambda>k. bkey k = (1, n)" k "bufs s" b] assms show ?thesis by (simp add: lookup_def)
qed

lemma lookup_NoneI: "(\<And>i. i < length (bufs s) \<Longrightarrow> bkey (bufs s ! i) \<noteq> (1, n)) \<Longrightarrow> lookup s n = None"
  by (auto simp: lookup_def find_index_None in_set_conv_nth)

lemma keys_okD:
  "keys_ok bs \<Longrightarrow> i < length bs \<Longrightarrow> j < length bs \<Longrightarrow> bkey (bs ! i) = bkey (bs ! j) \<Longrightarrow> b_dev (bs ! i) = 1 \<Longrightarrow> i = j"
  by (simp add: keys_ok_def)

text \<open>How the view of a block changes when buffer \<open>b\<close> becomes \<open>k\<close>.\<close>

lemma view_new:
  assumes "cache_ok H t" "b < NBUF" "bufs t ! b = k" "bkey k = (1, n)"
  shows "view t n = (if b_valid k then b_data k else disk t n)"
  using lookup_eq [OF assms(1,2)] assms(3,4) by (simp add: view_def)

lemma view_other:
  assumes "b < length (bufs s)" "bufs t = (bufs s)[b := k]" "bkey (bufs s ! b) \<noteq> (1, n)" "bkey k \<noteq> (1, n)"
    "disk t n = disk s n"
  shows "view t n = view s n"
proof -
  have l: "lookup t n = lookup s n" by (rule lookup_other [OF assms(1-4)])
  show ?thesis
  proof (cases "lookup s n")
    case (Some i)
    then have "bkey (bufs s ! i) = (1, n)" by (rule lookup_SomeD)
    then have "i \<noteq> b" using assms(3) by auto
    then show ?thesis using Some l assms by (simp add: view_def)
  qed (use l assms in \<open>simp add: view_def\<close>)
qed

lemma dirty_iff: "n \<in> dirty s \<longleftrightarrow> (\<exists>i < length (bufs s). bkey (bufs s ! i) = (1, n) \<and> b_dirty (bufs s ! i))"
  by (auto simp: dirty_def set_conv_nth)

lemma dirty_step:
  assumes "b < length (bufs s)" "bufs t = (bufs s)[b := k]"
    and "\<And>n. bkey (bufs s ! b) = (1, n) \<Longrightarrow> b_dirty (bufs s ! b) \<Longrightarrow> bkey k = (1, n) \<and> b_dirty k"
    and "\<And>n. bkey k = (1, n) \<Longrightarrow> b_dirty k \<Longrightarrow> bkey (bufs s ! b) = (1, n) \<and> b_dirty (bufs s ! b)"
  shows "dirty t = dirty s"
proof (rule set_eqI)
  fix n
  have "bkey (bufs t ! i) = (1, n) \<and> b_dirty (bufs t ! i) \<longleftrightarrow> bkey (bufs s ! i) = (1, n) \<and> b_dirty (bufs s ! i)"
    if "i < length (bufs s)" for i
    using that assms(1,2) assms(3) [of n] assms(4) [of n] by (cases "i = b") auto
  moreover have "length (bufs t) = length (bufs s)" using assms(2) by simp
  ultimately show "n \<in> dirty t \<longleftrightarrow> n \<in> dirty s" unfolding dirty_iff by (intro ex_cong1) auto
qed

lemma free_buffer:
  assumes "cache_ok H s" "card H + card (dirty s) < NBUF"
  shows "\<exists>i < NBUF. i \<notin> H \<and> \<not> b_dirty (bufs s ! i)"
proof (rule ccontr)
  assume "\<not> ?thesis"
  then have all: "{..<NBUF} \<subseteq> H \<union> {i. i < NBUF \<and> b_dirty (bufs s ! i)}" by auto
  note c = cache_okD [OF assms(1)]
  let ?D = "{i. i < NBUF \<and> b_dirty (bufs s ! i)}"
  have k: "bkey (bufs s ! i) = (1, b_blockno (bufs s ! i))" if "i \<in> ?D" for i
    using c(6) [of i] that by (simp add: buf_ok_def bkey_def)
  have "inj_on (\<lambda>i. b_blockno (bufs s ! i)) ?D"
  proof (rule inj_onI)
    fix i j
    assume "i \<in> ?D" "j \<in> ?D" "b_blockno (bufs s ! i) = b_blockno (bufs s ! j)"
    then show "i = j" using k [of i] k [of j] c(2,4) by (auto simp: keys_ok_def bkey_def)
  qed
  moreover have "(\<lambda>i. b_blockno (bufs s ! i)) ` ?D \<subseteq> dirty s" 
  proof
    fix n
    assume "n \<in> (\<lambda>i. b_blockno (bufs s ! i)) ` ?D"
    then obtain i where "i \<in> ?D" "n = b_blockno (bufs s ! i)" by auto
    then show "n \<in> dirty s" using k [of i] c(2) by (auto simp: dirty_iff)
  qed
  moreover have "finite (dirty s)"
  proof (rule finite_subset)
    show "dirty s \<subseteq> b_blockno ` set (bufs s)" by (auto simp: dirty_def bkey_def)
  qed simp
  ultimately have "card ?D \<le> card (dirty s)" by (rule card_inj_on_le)
  moreover have "finite H" using c(3) by (rule finite_subset) simp
  then have "card {..<NBUF} \<le> card H + card ?D"
    using card_mono [OF _ all] card_Un_le [of H ?D] by auto
  ultimately show False using assms(2) by simp
qed

section \<open>What the operations promise\<close>

text \<open>The state after buffer \<open>b\<close>, changed by \<open>f\<close>, has been taken out of the cache.\<close>

definition taken :: "nat \<Rightarrow> (buf \<Rightarrow> buf) \<Rightarrow> 'z bcache_scheme \<Rightarrow> 'z bcache_scheme" where
  "taken b f s = slept (BufSleep b) (released BcacheLock (upd_buf b f (acquired BcacheLock s)))"

definition recycled :: "u32 \<Rightarrow> buf \<Rightarrow> buf" where
  "recycled n k = k\<lparr>b_dev := 1, b_blockno := n, b_valid := False, b_dirty := False, b_refcnt := 1\<rparr>"

lemma slept_fields [simp]:
  "bufs (slept l s) = bufs s" "b_next (slept l s) = b_next s" "b_prev (slept l s) = b_prev s"
  "disk (slept l s) = disk s" "disksize (slept l s) = disksize s" "disk_log (slept l s) = disk_log s"
  "bcache.more (slept l s) = bcache.more s" "procs (slept l s) = procs s"
  "sleeps (slept l s) = (sleeps s)(l := (sleeps s l)\<lparr>sl_locked := True, sl_pid := my_pid s\<rparr>)"
  by (simp_all add: slept_def)

lemma bcache_lock:
  assumes "idle s"
  shows "release BcacheLock (upd_buf b f (acquired BcacheLock s)) =
      Ok () (released BcacheLock (upd_buf b f (acquired BcacheLock s)))"
    "balanced s (released BcacheLock (upd_buf b f (acquired BcacheLock s)))"
  using release_balanced [OF idle_lock [OF assms], of BcacheLock "upd_buf b f (acquired BcacheLock s)"] by simp_all

lemma taken_ok:
  assumes "cache_ok H s" "b < NBUF" "b \<notin> H"
  shows "run (release BcacheLock (upd_buf b f (acquired BcacheLock s))) (\<lambda>_ s.
      run (acquiresleep (BufSleep b) s) (\<lambda>_ s. Ok b s)) = Ok b (taken b f s)"
    "balanced s (taken b f s)"
    "sleeps (taken b f s) = (sleeps s)(BufSleep b := (sleeps s (BufSleep b))\<lparr>sl_locked := True, sl_pid := my_pid s\<rparr>)"
proof -
  let ?r = "released BcacheLock (upd_buf b f (acquired BcacheLock s))"
  note c = cache_okD [OF assms(1)]
  have b: "balanced s ?r" by (rule bcache_lock(2) [OF c(1)])
  have i: "idle ?r" by (rule idle_balanced [OF b c(1)])
  have fr: "\<not> sl_locked (sleeps ?r (BufSleep b))" using c(6) [OF assms(2)] assms(3) by (simp add: buf_ok_def)
  have m: "my_pid ?r = my_pid s" by (rule my_pid_balanced [OF b c(1) _ c(5)]) simp
  show "run (release BcacheLock (upd_buf b f (acquired BcacheLock s))) (\<lambda>_ s.
      run (acquiresleep (BufSleep b) s) (\<lambda>_ s. Ok b s)) = Ok b (taken b f s)"
    by (simp add: bcache_lock(1) [OF c(1)] acquiresleep_free(1) [OF i fr] taken_def)
  show "balanced s (taken b f s)"
    unfolding taken_def by (rule balanced_trans [OF b acquiresleep_free(2) [OF i fr]])
  show "sleeps (taken b f s) = (sleeps s)(BufSleep b := (sleeps s (BufSleep b))\<lparr>sl_locked := True, sl_pid := my_pid s\<rparr>)"
    unfolding taken_def slept_fields m by simp
qed

lemma taken_fields [simp]:
  "bufs (taken b f s) = (bufs s)[b := f (bufs s ! b)]" "b_next (taken b f s) = b_next s"
  "b_prev (taken b f s) = b_prev s" "disk (taken b f s) = disk s" "disksize (taken b f s) = disksize s"
  "disk_log (taken b f s) = disk_log s" "bcache.more (taken b f s) = bcache.more s" "procs (taken b f s) = procs s"
  by (simp_all add: taken_def)

lemma find_below:
  assumes "set xs = {..<n}"
  shows "find P xs = None \<Longrightarrow> i < n \<Longrightarrow> \<not> P i" and "find P xs = Some b \<Longrightarrow> b < n \<and> P b"
  using assms by (auto simp: find_None_iff find_Some_iff)

lemma find_below_Some:
  assumes "set xs = {..<n}" "i < n" "P i"
  shows "\<exists>b. find P xs = Some b \<and> b < n \<and> P b"
  using find_below [OF assms(1), of P] assms(2,3) by (cases "find P xs") auto

lemma bget_search:
  assumes "cache_ok H s"
  shows "\<exists>xs. set xs = {..<NBUF} \<and> walk (b_next s) P NBUF (b_next s None) = Some (find P xs) \<and>
     walk (b_prev s) Q NBUF (b_prev s None) = Some (find Q (rev xs))"
proof -
  from assms obtain xs where x: "buffers s xs" "set xs = {..<NBUF}" by (auto simp: cache_ok_def)
  have "length xs = NBUF" using x distinct_card [of xs] by (simp add: dll_def)
  then show ?thesis using x by (auto simp: dll_def walk_find)
qed

lemma bget_hit:
  assumes "cache_ok H s" "lookup s n = Some b" "b \<notin> H"
  shows "bget 1 n s = Ok b (taken b (\<lambda>k. k\<lparr>b_refcnt := b_refcnt k + 1\<rparr>) s)"
proof -
  note c = cache_okD [OF assms(1)]
  have b: "b < NBUF" "bkey (bufs s ! b) = (1, n)" using lookup_SomeD [OF assms(2)] c(2) by simp_all
  let ?P = "\<lambda>i. b_dev (bufs s ! i) = 1 \<and> b_blockno (bufs s ! i) = n"
  obtain xs where xs: "set xs = {..<NBUF}" "walk (b_next s) ?P NBUF (b_next s None) = Some (find ?P xs)"
    using bget_search [OF assms(1)] by blast
  have u: "i = b" if "i < NBUF" "?P i" for i
    using lookup_eq [OF assms(1) that(1), of n] that(2) assms(2) by (simp add: bkey_def)
  obtain i where i: "find ?P xs = Some i" "i < NBUF" "?P i"
    using find_below_Some [OF xs(1) b(1), of ?P] b(2) by (auto simp: bkey_def)
  then have "find ?P xs = Some b" using u [OF i(2,3)] by simp
  then show ?thesis
    using xs(2) taken_ok(1) [OF assms(1) b(1) assms(3)]
    by (simp add: bget_def acquire_ok [OF idle_lock [OF c(1)]] Let_def)
qed

lemma bget_miss:
  assumes "cache_ok H s" "lookup s n = None" "card H + card (dirty s) < NBUF"
  shows "\<exists>b. b < NBUF \<and> b \<notin> H \<and> \<not> b_dirty (bufs s ! b) \<and> bget 1 n s = Ok b (taken b (recycled n) s)"
proof -
  note c = cache_okD [OF assms(1)]
  let ?P = "\<lambda>i. b_dev (bufs s ! i) = 1 \<and> b_blockno (bufs s ! i) = n"
  let ?Q = "\<lambda>i. b_refcnt (bufs s ! i) = 0 \<and> \<not> b_dirty (bufs s ! i)"
  obtain xs where xs: "set xs = {..<NBUF}" "walk (b_next s) ?P NBUF (b_next s None) = Some (find ?P xs)"
      "walk (b_prev s) ?Q NBUF (b_prev s None) = Some (find ?Q (rev xs))"
    using bget_search [OF assms(1), of ?P ?Q] by blast
  have p: "find ?P xs = None"
    using find_below(2) [OF xs(1), of ?P] lookup_NoneD [OF assms(2)] c(2) by (cases "find ?P xs") (auto simp: bkey_def)
  obtain i where "i < NBUF" "i \<notin> H" "\<not> b_dirty (bufs s ! i)" using free_buffer [OF assms(1,3)] by blast
  then have i: "i < NBUF" "?Q i" using c(6) [of i] by (simp_all add: buf_ok_def)
  obtain b where q: "find ?Q (rev xs) = Some b" and b: "b < NBUF" "?Q b"
    using find_below_Some [of "rev xs" NBUF i ?Q] xs(1) i by auto
  then have "b \<notin> H" using c(6) [of b] by (auto simp: buf_ok_def)
  moreover have "bget 1 n s = Ok b (taken b (recycled n) s)"
    using xs p q taken_ok(1) [OF assms(1) b(1) \<open>b \<notin> H\<close>]
    by (simp add: bget_def acquire_ok [OF idle_lock [OF c(1)]] Let_def recycled_def [abs_def])
  ultimately show ?thesis using b by blast
qed

text \<open>What an operation on buffer \<open>b\<close> that keeps the list of buffers leaves alone.\<close>

definition only_buf :: "nat \<Rightarrow> buf \<Rightarrow> 'z bcache_scheme \<Rightarrow> 'z bcache_scheme \<Rightarrow> bool" where
  "only_buf b k s t \<longleftrightarrow> kept s t \<and> bufs t = (bufs s)[b := k] \<and> map pid (procs t) = map pid (procs s) \<and>
     (\<forall>i. i \<noteq> b \<longrightarrow> sleeps t (BufSleep i) = sleeps s (BufSleep i)) \<and> b_next t = b_next s \<and> b_prev t = b_prev s"

lemma my_pid_same:
  "balanced s t \<Longrightarrow> idle s \<Longrightarrow> procs t = procs s \<Longrightarrow> my_pid t = my_pid s"
  using cur_balanced [of s t] idle_lock [of s PtableLock] by (simp add: my_pid_def can_lock_def)

lemma asked_fields [simp]:
  "bufs (asked l s) = bufs s" "b_next (asked l s) = b_next s" "b_prev (asked l s) = b_prev s"
  "disk (asked l s) = disk s" "disksize (asked l s) = disksize s" "disk_log (asked l s) = disk_log s"
  "bcache.more (asked l s) = bcache.more s" "procs (asked l s) = procs s" "sleeps (asked l s) = sleeps s"
  by (simp_all add: asked_def)

lemma iderw_ok:
  assumes "idle s" "b < length (bufs s)" "k = bufs s ! b" "b_dev k = 1" "b_blockno k < disksize s"
    and "sl_locked (sleeps s (BufSleep b))" "sl_pid (sleeps s (BufSleep b)) = my_pid s" "b_valid k \<Longrightarrow> b_dirty k"
  shows "\<exists>t. iderw b s = Ok () t \<and> sleeps t = sleeps s \<and>
     (if b_dirty k then only_buf b (k\<lparr>b_dirty := False, b_valid := True\<rparr>) s t \<and>
        disk t = (disk s)(b_blockno k := b_data k) \<and> disk_log t = disk_log s @ [(b_blockno k, b_data k)]
      else only_buf b (k\<lparr>b_data := disk s (b_blockno k), b_valid := True\<rparr>) s t \<and>
        disk t = disk s \<and> disk_log t = disk_log s)"
proof -
  have "holdingsleep (BufSleep b) s = Ok True (asked (BufSleep b) s)" "balanced s (asked (BufSleep b) s)"
    using holdingsleep_ok [OF assms(1), of "BufSleep b"] assms(6,7) by simp_all
  then show ?thesis
    using assms(2-5,8) by (auto simp: iderw_def Let_def only_buf_def kept_def)
qed

lemma bwrite_shape:
  assumes "cache_ok H s" "b \<in> H" "bkey (bufs s ! b) = (1, n)" "n < disksize s"
  shows "\<exists>t. bwrite b s = Ok () t \<and> sleeps t = sleeps s \<and>
     only_buf b ((bufs s ! b)\<lparr>b_dirty := False, b_valid := True\<rparr>) s t \<and>
     disk t = (disk s)(n := b_data (bufs s ! b)) \<and> disk_log t = disk_log s @ [(n, b_data (bufs s ! b))]"
proof -
  note c = cache_okD [OF assms(1)]
  have b: "b < NBUF" using assms(2) c(3) by auto
  have h: "sl_locked (sleeps s (BufSleep b))" "sl_pid (sleeps s (BufSleep b)) = my_pid s"
    using c(6) [OF b] assms(2) by (simp_all add: buf_ok_def)
  let ?a = "asked (BufSleep b) s"
  let ?u = "upd_buf b (\<lambda>k. k\<lparr>b_dirty := True\<rparr>) ?a"
  have e: "holdingsleep (BufSleep b) s = Ok True ?a" and bal: "balanced s ?a"
    using holdingsleep_ok [OF c(1), of "BufSleep b"] h by simp_all
  have bal': "balanced s ?u" using bal by simp
  have i: "idle ?u" by (rule idle_balanced [OF bal' c(1)])
  have m: "my_pid ?u = my_pid s" by (rule my_pid_same [OF bal' c(1)]) simp
  let ?k = "(bufs s ! b)\<lparr>b_dirty := True\<rparr>"
  have p: "b < length (bufs ?u)" "?k = bufs ?u ! b" "b_dev ?k = 1" "b_blockno ?k < disksize ?u"
      "sl_locked (sleeps ?u (BufSleep b))" "sl_pid (sleeps ?u (BufSleep b)) = my_pid ?u"
    using b c(2) h m assms(3,4) by (simp_all add: bkey_def)
  obtain t where t: "iderw b ?u = Ok () t" "sleeps t = sleeps ?u"
      "only_buf b (?k\<lparr>b_dirty := False, b_valid := True\<rparr>) ?u t"
      "disk t = (disk ?u)(b_blockno ?k := b_data ?k)" "disk_log t = disk_log ?u @ [(b_blockno ?k, b_data ?k)]"
    using iderw_ok [OF i p] by auto
  have "bwrite b s = Ok () t" using e t(1) by (simp add: bwrite_def)
  moreover have "kept s t" using t(3) balanced_trans [OF bal', of t] by (simp add: only_buf_def kept_def)
  ultimately show ?thesis using t assms(3) by (simp add: only_buf_def bkey_def)
qed

lemma only_buf_ok:
  assumes "cache_ok H s" "b < NBUF" "only_buf b k s t" "keys_ok (bufs t)"
    and "\<And>i. i \<in> H' \<longleftrightarrow> (if i = b then h else i \<in> H)"
    and "\<And>i. i < NBUF \<Longrightarrow> i \<noteq> b \<Longrightarrow> b_dev (bufs s ! i) = 1 \<Longrightarrow> disk t (b_blockno (bufs s ! i)) = disk s (b_blockno (bufs s ! i))"
    and "buf_ok h (my_pid s) (disk t) (sleeps t (BufSleep b)) k"
  shows "cache_ok H' t"
proof (rule cache_ok_step [OF assms(1,2) _ _ _ _ _ assms(4,5,6,7)])
  show "balanced s t" "map pid (procs t) = map pid (procs s)" "bufs t = (bufs s)[b := k]"
    using assms(3) by (simp_all add: only_buf_def kept_def)
  show "sleeps t (BufSleep i) = sleeps s (BufSleep i)" if "i \<noteq> b" for i
    using assms(3) that by (simp add: only_buf_def)
  show "\<exists>xs. buffers t xs \<and> set xs = {..<NBUF}"
    using assms(1,3) by (simp add: cache_ok_def only_buf_def)
qed

lemma bwrite_ok:
  assumes "cache_ok H s" "b \<in> H" "bkey (bufs s ! b) = (1, n)" "b_valid (bufs s ! b)" "n < disksize s"
  shows "\<exists>t. bwrite b s = Ok () t \<and> cache_ok H t \<and> kept s t \<and>
     bufs t = (bufs s)[b := (bufs s ! b)\<lparr>b_dirty := False\<rparr>] \<and> view t = view s \<and> dirty t = dirty s - {n} \<and>
     disk t = (disk s)(n := view s n) \<and> disk_log t = disk_log s @ [(n, view s n)]"
proof -
  note c = cache_okD [OF assms(1)]
  have b: "b < NBUF" using assms(2) c(3) by auto
  let ?k = "(bufs s ! b)\<lparr>b_dirty := False, b_valid := True\<rparr>"
  obtain t where t: "bwrite b s = Ok () t" "sleeps t = sleeps s" "only_buf b ?k s t"
      "disk t = (disk s)(n := b_data (bufs s ! b))" "disk_log t = disk_log s @ [(n, b_data (bufs s ! b))]"
    using bwrite_shape [OF assms(1-3,5)] by blast
  have k: "?k = (bufs s ! b)\<lparr>b_dirty := False\<rparr>" using assms(4) by simp
  have v: "view s n = b_data (bufs s ! b)" using view_new [OF assms(1) b refl assms(3)] assms(4) by simp
  have bt: "bufs t = (bufs s)[b := ?k]" using t(3) by (simp add: only_buf_def)
  have kt: "keys_ok (bufs t)" unfolding bt using c(2,4) b by (intro keys_ok_refresh) (simp_all add: bkey_def)
  have o: "b_blockno (bufs s ! i) \<noteq> n" if "i < NBUF" "i \<noteq> b" "b_dev (bufs s ! i) = 1" for i
    using that b assms(3) c(2,4) by (auto simp: keys_ok_def bkey_def)
  have ok: "cache_ok H t"
    by (rule only_buf_ok [OF assms(1) b t(3) kt, where h = True])
      (use assms(2) t(2,4) o c(6) [OF b] in \<open>auto simp: buf_ok_def\<close>)
  have "view t m = view s m" for m
  proof (cases "m = n")
    case True
    then show ?thesis using view_new [OF ok b, of ?k n] bt b c(2) assms(3) v by (simp add: bkey_def)
  next
    case False
    then show ?thesis
      using view_other [OF _ bt, of m] b c(2) assms(3) t(4) by (simp add: bkey_def)
  qed
  moreover have "dirty t = dirty s - {n}"
  proof (rule set_eqI)
    fix m
    have "bkey (bufs t ! i) = (1, m) \<and> b_dirty (bufs t ! i) \<longleftrightarrow> bkey (bufs s ! i) = (1, m) \<and> b_dirty (bufs s ! i) \<and> m \<noteq> n"
      if "i < NBUF" for i
      using that bt b c(2) assms(3) o [of i] by (cases "i = b") (auto simp: bkey_def)
    then show "m \<in> dirty t \<longleftrightarrow> m \<in> dirty s - {n}"
      using bt c(2) by (auto simp: dirty_iff)
  qed
  ultimately show ?thesis using t ok v bt k by (auto simp: only_buf_def)
qed

lemma taken_only:
  assumes "cache_ok H s" "b < NBUF" "b \<notin> H"
  shows "only_buf b (f (bufs s ! b)) s (taken b f s)"
  using taken_ok(2,3) [OF assms, of f] by (simp add: only_buf_def kept_def)

lemma only_buf_trans:
  assumes "only_buf b k s t" "only_buf b k' t u"
  shows "only_buf b k' s u"
  using assms kept_trans [of s t u] by (simp add: only_buf_def)

lemma fetch_ok:
  assumes "cache_ok H s" "b < NBUF" "b \<notin> H" "k = f (bufs s ! b)" "bkey k = (1, n)" "n < disksize s"
    and "\<not> b_valid k" "\<not> b_dirty k"
  shows "\<exists>t. iderw b (taken b f s) = Ok () t \<and> only_buf b (k\<lparr>b_data := disk s n, b_valid := True\<rparr>) s t \<and>
     disk t = disk s \<and> disk_log t = disk_log s \<and> sleeps t = sleeps (taken b f s)"
proof -
  let ?u = "taken b f s"
  note c = cache_okD [OF assms(1)] and k = taken_ok(2,3) [OF assms(1-3), of f]
  have i: "idle ?u" by (rule idle_balanced [OF k(1) c(1)])
  have m: "my_pid ?u = my_pid s" by (rule my_pid_same [OF k(1) c(1)]) simp
  have p: "b < length (bufs ?u)" "k = bufs ?u ! b" "b_dev k = 1" "b_blockno k < disksize ?u"
      "sl_locked (sleeps ?u (BufSleep b))" "sl_pid (sleeps ?u (BufSleep b)) = my_pid ?u"
    using assms c(2) k(2) m by (simp_all add: bkey_def)
  obtain t where t: "iderw b ?u = Ok () t" "sleeps t = sleeps ?u"
      "only_buf b (k\<lparr>b_data := disk ?u (b_blockno k), b_valid := True\<rparr>) ?u t"
      "disk t = disk ?u" "disk_log t = disk_log ?u"
    using iderw_ok [OF i p] assms(7,8) by auto
  have "only_buf b (k\<lparr>b_data := disk ?u (b_blockno k), b_valid := True\<rparr>) s t"
    by (rule only_buf_trans [OF taken_only [OF assms(1-3)] t(3)])
  then show ?thesis using t assms(5) by (simp add: bkey_def)
qed

lemma bread_shape:
  assumes "cache_ok H s" "n < disksize s" "\<forall>i \<in> H. bkey (bufs s ! i) \<noteq> (1, n)"
    and "lookup s n \<noteq> None \<or> card H + card (dirty s) < NBUF"
  shows "\<exists>b t k. bread 1 n s = Ok b t \<and> b < NBUF \<and> b \<notin> H \<and> only_buf b k s t \<and> bkey k = (1, n) \<and>
     b_valid k \<and> b_data k = view s n \<and> b_refcnt k = 1 \<and> disk t = disk s \<and> disk_log t = disk_log s \<and>
     sl_locked (sleeps t (BufSleep b)) \<and> sl_pid (sleeps t (BufSleep b)) = my_pid s \<and>
     b_dirty k = b_dirty (bufs s ! b) \<and> (lookup s n = Some b \<or> lookup s n = None \<and> \<not> b_dirty k)"
proof (cases "lookup s n")
  case (Some b)
  note c = cache_okD [OF assms(1)]
  have b: "b < NBUF" "bkey (bufs s ! b) = (1, n)" using lookup_SomeD [OF Some] c(2) by simp_all
  then have h: "b \<notin> H" using assms(3) by auto
  let ?f = "\<lambda>k. k\<lparr>b_refcnt := b_refcnt k + 1\<rparr>"
  have o: "b_refcnt (bufs s ! b) = 0" "b_dirty (bufs s ! b) \<Longrightarrow> b_valid (bufs s ! b)"
    using c(6) [OF b(1)] h by (simp_all add: buf_ok_def)
  show ?thesis
  proof (cases "b_valid (bufs s ! b)")
    case True
    then have "bread 1 n s = Ok b (taken b ?f s)"
      using bget_hit [OF assms(1) Some h] c(2) b by (simp add: bread_def)
    then show ?thesis
      using taken_only [OF assms(1) b(1) h, of ?f] taken_ok(3) [OF assms(1) b(1) h, of ?f] b h o Some True
      by (intro exI [of _ b] exI [of _ "taken b ?f s"] exI [of _ "?f (bufs s ! b)"])
        (simp add: view_def bkey_def)
  next
    case False
    then have d: "\<not> b_dirty (bufs s ! b)" using o(2) by blast
    obtain t where t: "iderw b (taken b ?f s) = Ok () t"
        "only_buf b ((?f (bufs s ! b))\<lparr>b_data := disk s n, b_valid := True\<rparr>) s t"
        "disk t = disk s" "disk_log t = disk_log s" "sleeps t = sleeps (taken b ?f s)"
      using fetch_ok [OF assms(1) b(1) h refl _ assms(2), of ?f] b False d by (auto simp: bkey_def)
    then have "bread 1 n s = Ok b t"
      using bget_hit [OF assms(1) Some h] c(2) b False by (simp add: bread_def)
    then show ?thesis
      using t taken_ok(3) [OF assms(1) b(1) h, of ?f] b h o Some False
      by (intro exI [of _ b] exI [of _ t] exI [of _ "(?f (bufs s ! b))\<lparr>b_data := disk s n, b_valid := True\<rparr>"])
        (simp add: view_def bkey_def)
  qed
next
  case None
  then obtain b where b: "b < NBUF" "b \<notin> H" "\<not> b_dirty (bufs s ! b)"
      "bget 1 n s = Ok b (taken b (recycled n) s)"
    using bget_miss [OF assms(1)] assms(4) by blast
  obtain t where t: "iderw b (taken b (recycled n) s) = Ok () t"
      "only_buf b ((recycled n (bufs s ! b))\<lparr>b_data := disk s n, b_valid := True\<rparr>) s t"
      "disk t = disk s" "disk_log t = disk_log s" "sleeps t = sleeps (taken b (recycled n) s)"
    using fetch_ok [OF assms(1) b(1,2) refl _ assms(2), of "recycled n"] by (auto simp: bkey_def recycled_def)
  have "bread 1 n s = Ok b t"
    using b t(1) cache_okD(2) [OF assms(1)] by (simp add: bread_def recycled_def)
  then show ?thesis
    using t taken_ok(3) [OF assms(1) b(1,2), of "recycled n"] b None
    by (intro exI [of _ b] exI [of _ t] exI [of _ "(recycled n (bufs s ! b))\<lparr>b_data := disk s n, b_valid := True\<rparr>"])
      (simp add: view_def bkey_def recycled_def)
qed

lemma bread_ok:
  assumes "cache_ok H s" "n < disksize s" "\<forall>i \<in> H. bkey (bufs s ! i) \<noteq> (1, n)"
    and "lookup s n \<noteq> None \<or> card H + card (dirty s) < NBUF"
  shows "\<exists>b t. bread 1 n s = Ok b t \<and> b < NBUF \<and> b \<notin> H \<and> cache_ok (insert b H) t \<and> kept s t \<and>
     bkey (bufs t ! b) = (1, n) \<and> b_valid (bufs t ! b) \<and> b_data (bufs t ! b) = view s n \<and>
     view t = view s \<and> dirty t = dirty s \<and> disk t = disk s \<and> disk_log t = disk_log s \<and>
     (\<forall>i < NBUF. i \<noteq> b \<longrightarrow> bufs t ! i = bufs s ! i)"
proof -
  note c = cache_okD [OF assms(1)]
  obtain b t k where t: "bread 1 n s = Ok b t" "b < NBUF" "b \<notin> H" "only_buf b k s t" "bkey k = (1, n)"
      "b_valid k" "b_data k = view s n" "b_refcnt k = 1" "disk t = disk s" "disk_log t = disk_log s"
      "sl_locked (sleeps t (BufSleep b))" "sl_pid (sleeps t (BufSleep b)) = my_pid s" "b_dirty k = b_dirty (bufs s ! b)"
      "lookup s n = Some b \<or> lookup s n = None \<and> \<not> b_dirty k"
    using bread_shape [OF assms] by blast
  have bt: "bufs t = (bufs s)[b := k]" using t(4) by (simp add: only_buf_def)
  have hit: "bkey (bufs s ! b) = (1, n)" if "lookup s n = Some b" using lookup_SomeD(2) [OF that] .
  have kt: "keys_ok (bufs t)"
  proof (cases "lookup s n = None")
    case True
    then show ?thesis
      unfolding bt using lookup_NoneD [OF True] t(5) c(2) by (intro keys_ok_update [OF c(4)]) auto
  next
    case False
    then show ?thesis
      unfolding bt using t(2,5,14) hit c(2) by (intro keys_ok_refresh [OF c(4)]) auto
  qed
  have dd: "b_dirty k \<Longrightarrow> b_dev k = 1" using t(5) by (simp add: bkey_def)
  have ok: "cache_ok (insert b H) t"
    by (rule only_buf_ok [OF assms(1) t(2,4) kt, where h = True])
      (use t(6,8,9,11,12) dd in \<open>auto simp: buf_ok_def\<close>)
  have bl: "b < length (bufs s)" using t(2) c(2) by simp
  have "view t m = view s m" for m
  proof (cases "m = n")
    case True
    then show ?thesis using view_new [OF ok t(2), of k n] bt bl t(5,6,7) by simp
  next
    case ne: False
    show ?thesis
    proof (cases "bkey (bufs s ! b) = (1, m)")
      case False
      then show ?thesis using view_other [OF bl bt False] t(5,9) ne by simp
    next
      case True
      then have miss: "lookup s n = None" "\<not> b_dirty k" using hit t(14) ne by auto
      have "lookup t m = None"

      proof (rule lookup_NoneI)
        fix i
        assume i: "i < length (bufs t)"
        show "bkey (bufs t ! i) \<noteq> (1, m)"
        proof (cases "i = b")
          case True
          then show ?thesis using bt bl t(5) ne by simp
        next
          case False
          then show ?thesis using keys_okD [OF c(4), of i b] True bt i bl by (auto simp: bkey_def)
        qed
      qed
      moreover have "view s m = disk s m"
        using lookup_eq [OF assms(1) t(2) True] c(6) [OF t(2)] t(3,13) miss True
        by (auto simp: view_def buf_ok_def bkey_def)
      ultimately show ?thesis using t(9) by (simp add: view_def)
    qed
  qed
  moreover have "dirty t = dirty s"
    by (rule dirty_step [OF bl bt]) (use t(5,13,14) hit in auto)
  ultimately show ?thesis using t ok bt bl c(2) by (intro exI [of _ b] exI [of _ t]) (auto simp: only_buf_def)
qed

lemma set_data_ok:
  assumes "cache_ok H s" "b \<in> H" "bkey (bufs s ! b) = (1, n)" "b_valid (bufs s ! b)"
    and "t = upd_buf b (\<lambda>k. k\<lparr>b_data := f k\<rparr>) s"
  shows "cache_ok H t" "kept s t" "view t = (view s)(n := f (bufs s ! b))" "dirty t = dirty s"
    "bufs t = (bufs s)[b := (bufs s ! b)\<lparr>b_data := f (bufs s ! b)\<rparr>]"
proof -
  note c = cache_okD [OF assms(1)]
  have b: "b < NBUF" using assms(2) c(3) by auto
  let ?k = "(bufs s ! b)\<lparr>b_data := f (bufs s ! b)\<rparr>"
  show bt: "bufs t = (bufs s)[b := ?k]" and "kept s t" using assms(5) by (simp_all add: kept_def)
  have o: "only_buf b ?k s t" using assms(5) by (simp add: only_buf_def kept_def)
  have kt: "keys_ok (bufs t)" unfolding bt using c(2,4) b by (intro keys_ok_refresh) (simp_all add: bkey_def)
  show ok: "cache_ok H t"
    by (rule only_buf_ok [OF assms(1) b o kt, where h = True])
      (use assms(2,5) c(6) [OF b] in \<open>auto simp: buf_ok_def\<close>)
  show "view t = (view s)(n := f (bufs s ! b))"
  proof
    fix m
    show "view t m = ((view s)(n := f (bufs s ! b))) m"
    proof (cases "m = n")
      case True
      then show ?thesis using view_new [OF ok b, of ?k n] bt b c(2) assms(3,4) by (simp add: bkey_def)
    next
      case False
      then show ?thesis using view_other [OF _ bt, of m] b c(2) assms(3,5) by (simp add: bkey_def)
    qed
  qed
  show "dirty t = dirty s" by (rule dirty_step [OF _ bt]) (use b c(2) in \<open>auto simp: bkey_def\<close>)
qed

lemma unslept_fields [simp]:
  "bufs (unslept l s) = bufs s" "b_next (unslept l s) = b_next s" "b_prev (unslept l s) = b_prev s"
  "disk (unslept l s) = disk s" "disksize (unslept l s) = disksize s" "disk_log (unslept l s) = disk_log s"
  "bcache.more (unslept l s) = bcache.more s" "map pid (procs (unslept l s)) = map pid (procs s)"
  "sleeps (unslept l s) = (sleeps s)(l := (sleeps s l)\<lparr>sl_locked := False, sl_pid := 0\<rparr>)"
  by (simp_all add: unslept_def wakeup1_def)

lemma buffers_to_front:
  assumes "cache_ok H s" "b < NBUF" "b_next t = b_next s" "b_prev t = b_prev s"
  shows "\<exists>xs. buffers (to_front b t) xs \<and> set xs = {..<NBUF}"
proof -
  from assms(1) obtain xs where x: "buffers s xs" "set xs = {..<NBUF}" by (auto simp: cache_ok_def)
  then obtain as bs where s: "xs = as @ b # bs" using assms(2) by (metis in_set_conv_decomp lessThan_iff)
  then have "buffers (to_front b t) (b # as @ bs)" using x assms(3,4) by (intro to_front_list) simp
  then show ?thesis using x(2) s by (intro exI [of _ "b # as @ bs"]) auto
qed

lemma brelse_ok:
  assumes "cache_ok H s" "b \<in> H" "bkey (bufs s ! b) = (1, n)" "b_valid (bufs s ! b)"
    and "n \<in> dirty s \<or> view s n = disk s n"
  shows "\<exists>t. brelse b s = Ok () t \<and> cache_ok (H - {b}) t \<and> kept s t \<and> view t = view s \<and> dirty t = dirty s \<and>
     disk t = disk s \<and> disk_log t = disk_log s \<and> bufs t = (bufs s)[b := (bufs s ! b)\<lparr>b_refcnt := 0\<rparr>]"
proof -
  note c = cache_okD [OF assms(1)]
  have b: "b < NBUF" using assms(2) c(3) by auto
  have k: "sl_locked (sleeps s (BufSleep b))" "sl_pid (sleeps s (BufSleep b)) = my_pid s" "b_refcnt (bufs s ! b) = 1"
    using c(6) [OF b] assms(2) by (simp_all add: buf_ok_def)
  let ?a = "asked (BufSleep b) s"
  let ?u = "unslept (BufSleep b) ?a"
  let ?f = "upd_buf b (\<lambda>k. k\<lparr>b_refcnt := b_refcnt k - 1\<rparr>) (acquired BcacheLock ?u)"
  let ?t = "released BcacheLock (to_front b ?f)"
  let ?k = "(bufs s ! b)\<lparr>b_refcnt := 0\<rparr>"
  have a: "holdingsleep (BufSleep b) s = Ok True ?a" "balanced s ?a"
    using holdingsleep_ok [OF c(1), of "BufSleep b"] k by simp_all
  have ia: "idle ?a" by (rule idle_balanced [OF a(2) c(1)])
  have u: "balanced s ?u" by (rule balanced_trans [OF a(2) releasesleep_ok(2) [OF ia]])
  have iu: "idle ?u" by (rule idle_balanced [OF u c(1)])
  have r: "release BcacheLock (to_front b ?f) = Ok () ?t" "balanced ?u ?t"
    using release_balanced [OF idle_lock [OF iu], of BcacheLock "to_front b ?f"] by simp_all
  have bt: "bufs ?t = (bufs s)[b := ?k]" using k(3) by simp
  have e: "brelse b s = Ok () ?t"
    using a r(1) k(3) b c(2) by (simp add: brelse_def releasesleep_ok [OF ia] acquire_ok [OF idle_lock [OF iu]] Let_def)
  have kt: "keys_ok (bufs ?t)" unfolding bt using c(2,4) b by (intro keys_ok_refresh) (simp_all add: bkey_def)
  have cl: "b_data (bufs s ! b) = disk s n" if "\<not> b_dirty (bufs s ! b)"
  proof -
    have "n \<notin> dirty s"
    proof
      assume "n \<in> dirty s"
      then obtain i where "i < NBUF" "bkey (bufs s ! i) = (1, n)" "b_dirty (bufs s ! i)"
        using c(2) by (auto simp: dirty_iff)
      then show False using keys_okD [OF c(4), of i b] b assms(3) c(2) that by (auto simp: bkey_def)
    qed
    then show ?thesis using assms(4,5) view_new [OF assms(1) b refl assms(3)] by simp
  qed
  have bal: "balanced s ?t" by (rule balanced_trans [OF u r(2)])
  have ok: "cache_ok (H - {b}) ?t"
  proof (rule cache_ok_step [OF assms(1) b bal _ bt _ _ kt, where h = False])
    show "map pid (procs ?t) = map pid (procs s)" by simp
    show "\<exists>xs. buffers ?t xs \<and> set xs = {..<NBUF}"
      using buffers_to_front [OF assms(1) b, of ?f] by simp
    show "buf_ok False (my_pid s) (disk ?t) (sleeps ?t (BufSleep b)) ?k"
      using c(6) [OF b] cl assms(3) by (auto simp: buf_ok_def bkey_def)
  qed (use assms(2) in auto)
  have "view ?t m = view s m" for m
  proof (cases "m = n")
    case True
    then show ?thesis
      using view_new [OF ok b, of ?k n] view_new [OF assms(1) b refl assms(3)] k(3) b c(2) assms(3,4) by (simp add: bkey_def)
  next
    case False
    then show ?thesis using view_other [OF _ bt, of m] b c(2) assms(3) by (simp add: bkey_def)
  qed
  moreover have "dirty ?t = dirty s" by (rule dirty_step [OF _ bt]) (use b c(2) in \<open>auto simp: bkey_def\<close>)
  ultimately show ?thesis using e ok bal bt by (intro exI [of _ ?t]) (auto simp: kept_def)
qed

lemma kept_size: "kept s t \<Longrightarrow> disksize t = disksize s"
  by (simp add: kept_def)

lemma dirty_lookup: "n \<in> dirty s \<Longrightarrow> lookup s n \<noteq> None"
  by (auto simp: dirty_def lookup_def find_index_None)

text \<open>A block that is not dirty is seen as it is on the disk.\<close>

lemma view_clean:
  assumes "cache_ok {} s" "n \<notin> dirty s"
  shows "view s n = disk s n"
proof (cases "lookup s n")
  case (Some i)
  note l = lookup_SomeD [OF Some] and c = cache_okD [OF assms(1)]
  have i: "i < NBUF" using l(1) c(2) by simp
  have "\<not> b_dirty (bufs s ! i)" using assms(2) l by (auto simp: dirty_iff)
  then show ?thesis using c(6) [OF i] Some l(2) by (auto simp: view_def buf_ok_def bkey_def)
qed (simp add: view_def)

section \<open>The interface\<close>

text \<open>
  What a user of blocks relies on: reading gives the block, writing changes it alone, and
  both return.
\<close>

locale block_device =
  fixes ok :: "'s \<Rightarrow> bool" and limit :: "'s \<Rightarrow> u32" and blocks :: "'s \<Rightarrow> u32 \<Rightarrow> block"
    and get :: "u32 \<Rightarrow> 's \<Rightarrow> ('s, block) res" and put :: "u32 \<Rightarrow> block \<Rightarrow> 's \<Rightarrow> ('s, unit) res"
  assumes read_law: "ok s \<Longrightarrow> n < limit s \<Longrightarrow>
      returns (get n s) (\<lambda>d t. d = blocks s n \<and> ok t \<and> limit t = limit s \<and> blocks t = blocks s)"
    and write_law: "ok s \<Longrightarrow> n < limit s \<Longrightarrow>
      returns (put n d s) (\<lambda>_ t. ok t \<and> limit t = limit s \<and> blocks t = (blocks s)(n := d))"
begin

lemma write_read:
  assumes "ok s" "n < limit s" "m < limit s"
  shows "returns (run (put n d s) (\<lambda>_ s. run (put m e s) (\<lambda>_ s. get n s)))
     (\<lambda>x t. ok t \<and> x = (if m = n then e else d) \<and> blocks t = (blocks s)(n := d, m := e))"
proof -
  obtain t where t: "put n d s = Ok () t" "ok t" "limit t = limit s" "blocks t = (blocks s)(n := d)"
    using write_law [OF assms(1,2), of d] by (auto simp: returns_iff)
  have mt: "m < limit t" using assms(3) t(3) by simp
  obtain u where u: "put m e t = Ok () u" "ok u" "limit u = limit t" "blocks u = (blocks t)(m := e)"
    using write_law [OF t(2) mt, of e] by (auto simp: returns_iff)
  have "n < limit u" using assms(2) t(3) u(3) by simp
  then have "returns (get n u) (\<lambda>x v. x = blocks u n \<and> ok v \<and> limit v = limit u \<and> blocks v = blocks u)"
    by (rule read_law [OF u(2)])
  then show ?thesis using t u by (auto elim: returns_mono)
qed

lemma copy_block:
  assumes "ok s" "n < limit s" "m < limit s"
  shows "returns (run (get n s) (\<lambda>d s. put m d s)) (\<lambda>_ t. ok t \<and> blocks t = (blocks s)(m := blocks s n))"
proof -
  obtain t where t: "get n s = Ok (blocks s n) t" "ok t" "limit t = limit s" "blocks t = blocks s"
    using read_law [OF assms(1,2)] by (auto simp: returns_iff)
  then show ?thesis using write_law [OF t(2), of m "blocks s n"] assms(3) by (auto simp: returns_iff)
qed

end

text \<open>
  The two ways in which the callers of the cache use it: read a block and let it go, as
  \<open>readsb\<close> and \<open>read_head\<close> do, and replace its content and write it through, as
  \<open>write_head\<close> and \<open>install_trans\<close> do.
\<close>

definition read_block :: "u32 \<Rightarrow> 'z bcache_scheme \<Rightarrow> ('z bcache_scheme, block) res" where
  "read_block n s =
     run (bread 1 n s) (\<lambda>b s.
     let d = b_data (bufs s ! b) in
     run (brelse b s) (\<lambda>_ s. Ok d s))"

definition write_block :: "u32 \<Rightarrow> block \<Rightarrow> 'z bcache_scheme \<Rightarrow> ('z bcache_scheme, unit) res" where
  "write_block n d s =
     run (bread 1 n s) (\<lambda>b s.
     let s = upd_buf b (\<lambda>k. k\<lparr>b_data := d\<rparr>) s in
     run (bwrite b s) (\<lambda>_ s.
     brelse b s))"

definition room :: "'z bcache_scheme \<Rightarrow> bool" where
  "room s \<longleftrightarrow> cache_ok {} s \<and> card (dirty s) < NBUF"

lemma finite_dirty: "finite (dirty s)"
proof -
  have "dirty s \<subseteq> b_blockno ` set (bufs s)" by (auto simp: dirty_def bkey_def)
  then show ?thesis by (rule finite_subset) simp
qed

lemma bread_brelse:
  assumes "room s" "n < disksize s"
  obtains b t u where "bread 1 n s = Ok b t" "b_data (bufs t ! b) = view s n" "brelse b t = Ok () u" "room u" "kept s u"
    "bcache.more t = bcache.more s" "view u = view s" "disk u = disk s" "disk_log u = disk_log s" "dirty u = dirty s"
proof -
  have c: "cache_ok {} s" "card (dirty s) < NBUF" using assms(1) by (simp_all add: room_def)
  obtain b t1 where 1: "bread 1 n s = Ok b t1" "b < NBUF" "cache_ok {b} t1" "kept s t1"
      "bkey (bufs t1 ! b) = (1, n)" "b_valid (bufs t1 ! b)" "b_data (bufs t1 ! b) = view s n" "view t1 = view s"
      "dirty t1 = dirty s" "disk t1 = disk s" "disk_log t1 = disk_log s"
    using bread_ok [OF c(1) assms(2)] c(2) by auto
  have "n \<in> dirty t1 \<or> view t1 n = disk t1 n" using view_clean [OF c(1), of n] 1(8-10) by auto
  then obtain t2 where 2: "brelse b t1 = Ok () t2" "cache_ok {} t2" "kept t1 t2" "view t2 = view t1" "dirty t2 = dirty t1"
      "disk t2 = disk t1" "disk_log t2 = disk_log t1"
    using brelse_ok [OF 1(3) _ 1(5,6)] by auto
  have "bcache.more t1 = bcache.more s" using 1(4) by (simp add: kept_def)
  then show ?thesis using that 1 2 c(2) kept_trans [OF 1(4) 2(3)] by (simp add: room_def)
qed

lemma read_block_ok:
  assumes "room s" "n < disksize s"
  shows "returns (read_block n s) (\<lambda>d t. d = view s n \<and> room t \<and> kept s t \<and> view t = view s \<and>
     disk t = disk s \<and> disk_log t = disk_log s)"
  by (rule bread_brelse [OF assms]) (simp add: read_block_def)

lemma write_block_ok:
  assumes "room s" "n < disksize s"
  shows "returns (write_block n d s) (\<lambda>_ t. room t \<and> disksize t = disksize s \<and> view t = (view s)(n := d) \<and>
     disk t = (disk s)(n := d) \<and> disk_log t = disk_log s @ [(n, d)])"
proof -
  have c: "cache_ok {} s" "card (dirty s) < NBUF" using assms(1) by (simp_all add: room_def)
  obtain b t1 where 1: "bread 1 n s = Ok b t1" "b < NBUF" "cache_ok {b} t1" "kept s t1"
      "bkey (bufs t1 ! b) = (1, n)" "b_valid (bufs t1 ! b)" "view t1 = view s"
      "dirty t1 = dirty s" "disk t1 = disk s" "disk_log t1 = disk_log s"
    using bread_ok [OF c(1) assms(2)] c(2) by auto
  let ?t2 = "upd_buf b (\<lambda>k. k\<lparr>b_data := d\<rparr>) t1"
  note 2 = set_data_ok [OF 1(3) _ 1(5,6), of ?t2 "\<lambda>_. d", simplified]
  have l: "b < length (bufs t1)" using cache_okD(2) [OF 1(3)] 1(2) by simp
  have b2: "bkey (bufs ?t2 ! b) = (1, n)" "b_valid (bufs ?t2 ! b)" using 1(5,6) l by (simp_all add: bkey_def)
  have n2: "n < disksize ?t2" using kept_size [OF 1(4)] assms(2) by simp
  obtain t3 where 3: "bwrite b ?t2 = Ok () t3" "cache_ok {b} t3" "kept ?t2 t3"
      "bufs t3 = (bufs ?t2)[b := (bufs ?t2 ! b)\<lparr>b_dirty := False\<rparr>]" "view t3 = view ?t2" "dirty t3 = dirty ?t2 - {n}"
      "disk t3 = (disk ?t2)(n := view ?t2 n)" "disk_log t3 = disk_log ?t2 @ [(n, view ?t2 n)]"
    using bwrite_ok [OF 2(1) _ b2 n2] by auto
  have b3: "bkey (bufs t3 ! b) = (1, n)" "b_valid (bufs t3 ! b)" using 3(4) b2 l by (simp_all add: bkey_def)
  have e3: "view t3 n = disk t3 n" using 3(5,7) by simp
  obtain t4 where 4: "brelse b t3 = Ok () t4" "cache_ok {} t4" "kept t3 t4" "view t4 = view t3" "dirty t4 = dirty t3"
      "disk t4 = disk t3" "disk_log t4 = disk_log t3"
    using brelse_ok [OF 3(2) _ b3] e3 by auto
  have "card (dirty t4) < NBUF"
    using card_Diff1_le [of "dirty s" n] 4(5) 3(6) 2(4) 1(8) c(2) by simp
  moreover have "disksize t4 = disksize s"
    using kept_size [OF 1(4)] kept_size [OF 3(3)] kept_size [OF 4(3)] by simp
  ultimately show ?thesis
    using 4 3 2(3) 1 by (simp add: write_block_def room_def)
qed

interpretation bc: block_device room disksize view read_block write_block
proof
  show "returns (read_block n s) (\<lambda>d t. d = view s n \<and> room t \<and> disksize t = disksize s \<and> view t = view s)"
    if "room s" "n < disksize s" for n and s :: "'a bcache_scheme"
    by (rule returns_mono [OF read_block_ok [OF that]]) (simp add: kept_size)
  show "returns (write_block n d s) (\<lambda>_ t. room t \<and> disksize t = disksize s \<and> view t = (view s)(n := d))"
    if "room s" "n < disksize s" for n d and s :: "'a bcache_scheme"
    by (rule returns_mono [OF write_block_ok [OF that]]) simp
qed

section \<open>The cache at boot\<close>

lemma binit_one_fields [simp]:
  "bufs (binit_one b s) = bufs s" "disk (binit_one b s) = disk s" "disksize (binit_one b s) = disksize s"
  "disk_log (binit_one b s) = disk_log s" "procs (binit_one b s) = procs s" "cpus (binit_one b s) = cpus s"
  "lapic_id (binit_one b s) = lapic_id s" "intr (binit_one b s) = intr s"
  "bcache.more (binit_one b s) = bcache.more s"
  by (simp_all add: binit_one_def initsleeplock_def upd_sleep_def initlock_def upd_lock_def Let_def)

lemma fold_binit_fields:
  "bufs (fold binit_one bs s) = bufs s" "disk (fold binit_one bs s) = disk s" "disksize (fold binit_one bs s) = disksize s"
  "disk_log (fold binit_one bs s) = disk_log s" "procs (fold binit_one bs s) = procs s" "cpus (fold binit_one bs s) = cpus s"
  "lapic_id (fold binit_one bs s) = lapic_id s" "intr (fold binit_one bs s) = intr s"
  "bcache.more (fold binit_one bs s) = bcache.more s"
  by (induction bs arbitrary: s) simp_all

lemma binit_fields [simp]:
  "bufs (binit s) = bufs s" "disk (binit s) = disk s" "disksize (binit s) = disksize s"
  "disk_log (binit s) = disk_log s" "procs (binit s) = procs s" "cpus (binit s) = cpus s"
  "lapic_id (binit s) = lapic_id s" "intr (binit s) = intr s" "bcache.more (binit s) = bcache.more s"
  by (simp_all add: binit_def Let_def fold_binit_fields initlock_def upd_lock_def)

lemma binit_one_locks:
  "\<forall>l. locked (locks s l) = 0 \<Longrightarrow> \<forall>l. locked (locks (binit_one b s) l) = 0"
  "\<not> sl_locked (sleeps (binit_one b s) (BufSleep b))"
  "i \<noteq> b \<Longrightarrow> sleeps (binit_one b s) (BufSleep i) = sleeps s (BufSleep i)"
  by (simp_all add: binit_one_def initsleeplock_def upd_sleep_def initlock_def upd_lock_def Let_def)

lemma binit_locks:
  assumes "\<forall>l. locked (locks s l) = 0"
  shows "locked (locks (binit s) l) = 0" "i < NBUF \<Longrightarrow> \<not> sl_locked (sleeps (binit s) (BufSleep i))"
proof -
  have "\<forall>l. locked (locks (fold binit_one [0..<n] t) l) = 0" if "\<forall>l. locked (locks t l) = 0" for n and t :: "'a bcache_scheme"
    using that by (induction n) (simp_all add: binit_one_locks)
  moreover have "\<forall>i < n. \<not> sl_locked (sleeps (fold binit_one [0..<n] t) (BufSleep i))" for n and t :: "'a bcache_scheme"
  proof (induction n)
    case (Suc n)
    then show ?case by (auto simp: less_Suc_eq binit_one_locks(2,3))
  qed simp
  ultimately show "locked (locks (binit s) l) = 0" "i < NBUF \<Longrightarrow> \<not> sl_locked (sleeps (binit s) (BufSleep i))"
    using assms by (simp_all add: binit_def Let_def initlock_def upd_lock_def)
qed

lemma binit_ok:
  assumes "idle s" "the (cur s) < length (procs s)" "length (bufs s) = NBUF" "keys_ok (bufs s)"
    and "\<forall>k \<in> set (bufs s). b_refcnt k = 0 \<and> (b_dirty k \<longrightarrow> b_valid k \<and> b_dev k = 1) \<and>
      (b_valid k \<and> \<not> b_dirty k \<and> b_dev k = 1 \<longrightarrow> b_data k = disk s (b_blockno k))"
  shows "cache_ok {} (binit s)"
proof -
  have f: "\<forall>l. locked (locks s l) = 0" using assms(1) by (simp add: idle_def can_lock_def)
  note l = binit_locks [OF f]
  have m: "me (binit s) = me s" "cur (binit s) = cur s" by (simp_all add: me_def cur_def)
  have "idle (binit s)"
    using assms(1) l(1) m by (simp add: idle_def can_lock_def cpu_inv_def)
  moreover have "\<exists>xs. buffers (binit s) xs \<and> set xs = {..<NBUF}"
    using binit_list [of s] by (intro exI [of _ "rev [0..<NBUF]"]) (simp add: atLeast0LessThan del: upt_rec_numeral)
  moreover have "bufs s ! i \<in> set (bufs s)" if "i < NBUF" for i using assms(3) that by simp
  ultimately show ?thesis
    using assms(2-5) l(2) m by (simp add: cache_ok_def buf_ok_def)
qed

text \<open>Sample states: an empty cache over a disk of zeros, and one that holds a dirty block 50.\<close>

definition buf0 :: buf where
  "buf0 = \<lparr>b_valid = False, b_dirty = False, b_dev = 0, b_blockno = 0, b_refcnt = 0, b_data = replicate BSIZE 0\<rparr>"

definition bcache_at :: "buf list \<Rightarrow> (u32 \<Rightarrow> block) \<Rightarrow> bcache" where
  "bcache_at bs D = vm.extend vmstate0 (bcache.fields (\<lambda>_. \<lparr>sl_locked = False, sl_name = [], sl_pid = 0\<rparr>)
     bs (\<lambda>_. None) (\<lambda>_. None) D 1000 [])"

definition bcache0 :: bcache where
  "bcache0 = binit (bcache_at (replicate NBUF buf0) (\<lambda>_. replicate BSIZE 0))"

lemma bcache_at_fields:
  "bufs (bcache_at bs D) = bs" "disk (bcache_at bs D) = D" "disksize (bcache_at bs D) = 1000" "disk_log (bcache_at bs D) = []"
  "procs (bcache_at bs D) = procs ptable0" "machine.truncate (bcache_at bs D) = machine.truncate ptable0"
  by (simp_all add: bcache_at_def vmstate0_def ptable.extend_def vm.fields_def vm.extend_def bcache.fields_def machine.truncate_def)

lemma idle_at:
  assumes "machine.truncate s = machine.truncate ptable0"
  shows "idle s" "the (cur s) = 0"
  using machine_view [OF assms] ptable0_free ptable0_cpu(3) by (simp_all add: idle_def)

lemma keys_ok_Cons0: "keys_ok (k # replicate n buf0)"
  by (auto simp: keys_ok_def bkey_def buf0_def nth_Cons split: nat.splits)

lemma bcache0_ok: "cache_ok {} bcache0"
  unfolding bcache0_def
  using idle_at [OF bcache_at_fields(6)] keys_ok_Cons0 [of buf0 29]
  by (intro binit_ok) (simp_all add: bcache_at_fields ptable0_fields buf0_def numeral_eq_Suc)

section \<open>Properties\<close>

lemma bcache0_room: "room bcache0" "disksize bcache0 = 1000"
proof -
  have "dirty bcache0 = {}" by (auto simp: dirty_def bcache0_def bcache_at_fields buf0_def)
  then show "room bcache0" "disksize bcache0 = 1000"
    using bcache0_ok by (simp_all add: room_def) (simp add: bcache0_def bcache_at_fields)
qed

text \<open>
  C3: seen through \<open>bread\<close>, \<open>bwrite\<close> and \<open>brelse\<close> the disk is an array of blocks.  Reading
  block \<open>n\<close> returns its content, whether it comes from the cache or from the disk, and changes
  nothing that a later reader sees; writing it through changes this one block, in the cache
  and on the disk, with exactly one write.
\<close>

theorem cache_refines_array:
  assumes "room s" "n < disksize s"
  shows "returns (run (bread 1 n s) (\<lambda>b s.
       let d = b_data (bufs s ! b) in run (brelse b s) (\<lambda>_ s. Ok d s)))
       (\<lambda>d t. d = view s n \<and> room t \<and> view t = view s \<and> disk t = disk s) \<and>
     returns (run (bread 1 n s) (\<lambda>b s. run (bwrite b (upd_buf b (\<lambda>k. k\<lparr>b_data := d\<rparr>) s)) (\<lambda>_ s. brelse b s)))
       (\<lambda>_ t. room t \<and> view t = (view s)(n := d) \<and> disk t = (disk s)(n := d) \<and> disk_log t = disk_log s @ [(n, d)])"
proof
  note r = read_block_ok [OF assms, unfolded read_block_def]
    and w = write_block_ok [OF assms, of d, unfolded write_block_def Let_def]
  show "returns (run (bread 1 n s) (\<lambda>b s.
       let d = b_data (bufs s ! b) in run (brelse b s) (\<lambda>_ s. Ok d s)))
       (\<lambda>d t. d = view s n \<and> room t \<and> view t = view s \<and> disk t = disk s)"
    by (rule returns_mono [OF r]) simp
  show "returns (run (bread 1 n s) (\<lambda>b s. run (bwrite b (upd_buf b (\<lambda>k. k\<lparr>b_data := d\<rparr>) s)) (\<lambda>_ s. brelse b s)))
       (\<lambda>_ t. room t \<and> view t = (view s)(n := d) \<and> disk t = (disk s)(n := d) \<and> disk_log t = disk_log s @ [(n, d)])"
    by (rule returns_mono [OF w]) simp
qed

theorem cache_refines_array_witness:
  "returns (run (bread 1 7 bcache0) (\<lambda>b s.
       let d = b_data (bufs s ! b) in run (brelse b s) (\<lambda>_ s. Ok d s)))
       (\<lambda>d t. d = view bcache0 7 \<and> room t \<and> view t = view bcache0 \<and> disk t = disk bcache0)"
  using conjunct1 [OF cache_refines_array [of bcache0 7]] bcache0_room by simp

text \<open>
  C4: what was written to a block is what is read from it, whatever is written to another
  block in between.
\<close>

theorem cache_write_read:
  assumes "room s" "n < disksize s" "m < disksize s"
  shows "returns (run (write_block n d s) (\<lambda>_ s. run (write_block m e s) (\<lambda>_ s. read_block n s)))
     (\<lambda>x t. room t \<and> x = (if m = n then e else d) \<and> view t = (view s)(n := d, m := e))"
  by (rule bc.write_read [OF assms])

theorem cache_write_read_witness:
  "returns (run (write_block 7 [1] bcache0) (\<lambda>_ s. run (write_block 8 [2] s) (\<lambda>_ s. read_block 7 s)))
     (\<lambda>x t. room t \<and> x = (if 8 = (7 :: u32) then [2] else [1]) \<and> view t = (view bcache0)(7 := [1], 8 := [2]))"
  by (rule cache_write_read) (simp_all add: bcache0_room)

end
