(* ===== verification/Samples.thy ===== *)
theory Samples
  imports Trap Cache
begin

text \<open>
  A sample state of the whole kernel, on which the properties of the upper layers are
  evaluated: process 1 runs, a second one sleeps on the clock, the caches are empty, and the
  disk holds zeros.
\<close>

definition pipe0 :: pipe where
  "pipe0 = \<lparr>p_data = replicate PIPESIZE 0, nread = 0, nwrite = 0, readopen = True, writeopen = True\<rparr>"

definition file0 :: file_t where
  "file0 = \<lparr>f_type = FD_NONE, f_ref = 0, f_readable = False, f_writable = False, f_pipe = 0, f_ip = None, f_off = 0\<rparr>"

definition inode0 :: inode where
  "inode0 = \<lparr>i_dev = 0, i_inum = 0, i_ref = 0, i_valid = False, i_type = 0, i_major = 0, i_minor = 0, i_nlink = 0,
     i_size = 0, i_addrs = replicate 13 0\<rparr>"

definition sb0 :: superblock where
  "sb0 = \<lparr>sb_size = 1000, sb_nblocks = 941, sb_ninodes = 200, sb_nlog = 30, sb_logstart = 2, sb_inodestart = 32, sb_bmapstart = 58\<rparr>"

definition kern_at :: traps where
  "kern_at = kernel.extend (ftable.extend (consdev.extend (icache.extend (logrec.extend (bcache.extend
       (bcache_at (replicate NBUF buf0) (\<lambda>_. replicate BSIZE 0))
       (logrec.fields 2 30 0 False 1 0 (replicate 30 0)))
       (icache.fields (replicate 50 inode0) sb0))
       (consdev.fields (replicate 128 0) 0 0 0 (replicate 10 \<lparr>dev_read = None, dev_write = None\<rparr>) 0 (\<lambda>_. 0) 0))
       (ftable.fields (replicate NFILE file0) (\<lambda>_. pipe0)))
       (kernel.fields True 0 0))
       (traps.fields [] [] [] 0 [] 0)"

definition kern0 :: traps where
  "kern0 = binit kern_at"

lemmas extend_defs = kernel.extend_def ftable.extend_def consdev.extend_def icache.extend_def logrec.extend_def
  bcache.extend_def kernel.fields_def ftable.fields_def consdev.fields_def icache.fields_def logrec.fields_def
  traps.fields_def

lemma kern_at_fields:
  "bufs kern_at = replicate NBUF buf0" "procs kern_at = procs ptable0"
  "machine.truncate kern_at = machine.truncate ptable0" "disk kern_at = (\<lambda>_. replicate BSIZE 0)" "disksize kern_at = 1000"
  "files kern_at = replicate NFILE file0" "pipes kern_at = (\<lambda>_. pipe0)" "inodes kern_at = replicate 50 inode0"
  "input_buf kern_at = replicate 128 0" "input_r kern_at = 0" "input_w kern_at = 0" "input_e kern_at = 0"
  "lh_n kern_at = 0" "outstanding kern_at = 0" "log_size kern_at = 30" "lh_block kern_at = replicate 30 0" "\<not> committing kern_at"
  using bcache_at_fields [of "replicate NBUF buf0" "\<lambda>_. replicate BSIZE 0"]
  by (simp_all add: kern_at_def extend_defs machine.truncate_def)

lemma kern0_more: "bcache.more kern0 = bcache.more kern_at"
  by (simp add: kern0_def)

lemma more_ftable:
  "bcache.more t = bcache.more s \<Longrightarrow> files t = files s \<and> pipes t = pipes s \<and> inodes t = inodes s \<and>
     input_buf t = input_buf s \<and> input_r t = input_r s \<and> input_w t = input_w s \<and> input_e t = input_e s \<and>
     lh_n t = lh_n s \<and> outstanding t = outstanding s \<and> log_size t = log_size s \<and> lh_block t = lh_block s \<and>
     committing t = committing s"
  for s t :: "'z ftable_scheme"
  by (cases s, cases t) simp

lemma kern0_fields:
  "procs kern0 = procs ptable0" "bufs kern0 = replicate NBUF buf0" "disk kern0 = (\<lambda>_. replicate BSIZE 0)" "disksize kern0 = 1000"
  "files kern0 = replicate NFILE file0" "pipes kern0 = (\<lambda>_. pipe0)" "inodes kern0 = replicate 50 inode0"
  "input_buf kern0 = replicate 128 0" "input_r kern0 = 0" "input_w kern0 = 0" "input_e kern0 = 0"
  "lh_n kern0 = 0" "outstanding kern0 = 0" "log_size kern0 = 30" "lh_block kern0 = replicate 30 0" "\<not> committing kern0"
  using more_ftable [OF kern0_more] kern_at_fields by (simp_all add: kern0_def)

lemma kern0_cache: "cache_ok {} kern0"
proof -
  have "keys_ok (replicate NBUF buf0)" using keys_ok_Cons0 [of buf0 29] by (simp add: numeral_eq_Suc)
  then show ?thesis
    unfolding kern0_def using idle_at [OF kern_at_fields(3)]
    by (intro binit_ok) (simp_all add: kern_at_fields ptable0_fields buf0_def)
qed

lemma kern0_idle: "idle kern0"
  using kern0_cache by (rule cache_okD)

lemma kern0_cpu: "cur kern0 = Some 0" "ncli (my_cpu kern0) = 0"
proof -
  have m: "me (binit s) = me s" for s :: traps by (simp add: me_def)
  show "cur kern0 = Some 0" "ncli (my_cpu kern0) = 0"
    using machine_view [OF kern_at_fields(3)] ptable0_cpu m [of kern_at] by (simp_all add: kern0_def cur_def)
qed

end
