(* ===== verification/Commit.thy ===== *)
theory Commit
  imports Log Cache
begin

text \<open>
  Crash safety of the write-ahead log.  \<open>disk_log\<close> lists the writes that reach the disk; a
  crash in the middle of \<open>commit\<close> leaves the disk that a prefix of them produces, and
  \<open>recover_from_log\<close>, run at the next boot with an empty cache, makes of it either the disk
  before the transaction or the disk with all of its blocks installed.
\<close>

section \<open>Copying blocks\<close>

lemma more_log:
  "bcache.more t = bcache.more s \<Longrightarrow> log_start t = log_start s \<and> log_size t = log_size s \<and>
     outstanding t = outstanding s \<and> committing t = committing s \<and> log_dev t = log_dev s \<and>
     lh_n t = lh_n s \<and> lh_block t = lh_block s"
  for s t :: "'z logrec_scheme"
  by (cases s, cases t) simp

lemmas kept_log = more_log [OF kept_def [THEN iffD1, THEN conjunct2, THEN conjunct2]]

lemma write_log_one_ok:
  assumes "cache_ok {} s" "log_dev s = 1" "x = blk (log_start s + int i + 1)" "y = blk (lh_block s ! i)"
    and "x \<noteq> y" "x < disksize s" "y < disksize s" "y \<in> dirty s" "x \<notin> dirty s" "card (dirty s) < NBUF"
  shows "returns (write_log_one i s) (\<lambda>_ t. cache_ok {} t \<and> kept s t \<and> disk t = (disk s)(x := view s y) \<and>
     view t = (view s)(x := view s y) \<and> dirty t = dirty s \<and> disk_log t = disk_log s @ [(x, view s y)])"
proof -
  obtain b t1 where 1: "bread 1 x s = Ok b t1" "b < NBUF" "cache_ok {b} t1" "kept s t1"
      "bkey (bufs t1 ! b) = (1, x)" "b_valid (bufs t1 ! b)" "view t1 = view s" "dirty t1 = dirty s"
      "disk t1 = disk s" "disk_log t1 = disk_log s"
    using bread_ok [OF assms(1,6)] assms(10) by auto
  have y1: "y < disksize t1" using 1(4) assms(7) by (simp add: kept_size)
  have "lookup t1 y \<noteq> None" using dirty_lookup [of y t1] assms(8) 1(8) by simp
  then obtain c t2 where 2: "bread 1 y t1 = Ok c t2" "c < NBUF" "c \<noteq> b" "cache_ok {c, b} t2" "kept t1 t2"
      "bkey (bufs t2 ! c) = (1, y)" "b_valid (bufs t2 ! c)" "b_data (bufs t2 ! c) = view s y"
      "view t2 = view s" "dirty t2 = dirty s" "disk t2 = disk s" "disk_log t2 = disk_log s"
      "bufs t2 ! b = bufs t1 ! b"
    using bread_ok [OF 1(3) y1] 1 assms(5) by auto
  let ?t3 = "upd_buf b (\<lambda>k. k\<lparr>b_data := b_data (bufs t2 ! c)\<rparr>) t2"
  have b2: "bkey (bufs t2 ! b) = (1, x)" "b_valid (bufs t2 ! b)" using 2(13) 1(5,6) by simp_all
  note 3 = set_data_ok [OF 2(4) _ b2, of ?t3 "\<lambda>_. b_data (bufs t2 ! c)", simplified]
  have l: "b < length (bufs t2)" "c < length (bufs t2)" using cache_okD(2) [OF 2(4)] 1(2) 2(2) by simp_all
  have x3: "x < disksize ?t3" using 1(4) 2(5) assms(6) by (simp add: kept_size)
  have b3: "bkey (bufs ?t3 ! b) = (1, x)" "b_valid (bufs ?t3 ! b)" using b2 l by (simp_all add: bkey_def)
  obtain t4 where 4: "bwrite b ?t3 = Ok () t4" "cache_ok {c, b} t4" "kept ?t3 t4"
      "bufs t4 = (bufs ?t3)[b := (bufs ?t3 ! b)\<lparr>b_dirty := False\<rparr>]" "view t4 = view ?t3" "dirty t4 = dirty ?t3 - {x}"
      "disk t4 = (disk ?t3)(x := view ?t3 x)" "disk_log t4 = disk_log ?t3 @ [(x, view ?t3 x)]"
    using bwrite_ok [OF 3(1) _ b3 x3] by auto
  have c4: "bkey (bufs t4 ! c) = (1, y)" "b_valid (bufs t4 ! c)" using 4(4) 2(3,6,7) l by simp_all
  have d4: "dirty t4 = dirty s" using 4(6) 3(4) 2(10) assms(9) by auto
  have v4: "view t4 = (view s)(x := view s y)" using 4(5) 3(3) 2(8,9) by simp
  obtain t5 where 5: "brelse c t4 = Ok () t5" "cache_ok {b} t5" "kept t4 t5" "view t5 = view t4" "dirty t5 = dirty t4"
      "disk t5 = disk t4" "disk_log t5 = disk_log t4" "bufs t5 = (bufs t4)[c := (bufs t4 ! c)\<lparr>b_refcnt := 0\<rparr>]"
    using brelse_ok [OF 4(2) _ c4] d4 assms(8) 2(3) by auto
  have b5: "bkey (bufs t5 ! b) = (1, x)" "b_valid (bufs t5 ! b)"
    using 5(8) 4(4) b3 2(3) l by (simp_all add: bkey_def)
  have e5: "view t5 x = disk t5 x" using 5(4,6) 4(5,7) by simp
  obtain t6 where 6: "brelse b t5 = Ok () t6" "cache_ok {} t6" "kept t5 t6" "view t6 = view t5" "dirty t6 = dirty t5"
      "disk t6 = disk t5" "disk_log t6 = disk_log t5"
    using brelse_ok [OF 5(2) _ b5] e5 by auto
  have k: "kept s t6"
    using kept_trans [OF kept_trans [OF kept_trans [OF kept_trans [OF kept_trans [OF 1(4) 2(5)] 3(2)] 4(3)] 5(3)] 6(3)] .
  have g: "log_dev t1 = 1" "lh_block t1 = lh_block s" using kept_log [OF 1(4)] assms(2) by simp_all
  have "write_log_one i s = Ok () t6"
    using 1(1) 2(1) 4(1) 5(1) 6(1) assms(2-4) g by (simp add: write_log_one_def Let_def)
  then show ?thesis
    using 6 k v4 d4 5 4 3(3) 2(8,9,11,12) by simp
qed

lemma install_one_ok:
  assumes "cache_ok {} s" "log_dev s = 1" "x = blk (log_start s + int i + 1)" "y = blk (lh_block s ! i)"
    and "x \<noteq> y" "x < disksize s" "y < disksize s" "x \<notin> dirty s" "card (dirty s) < NBUF"
    and "y \<in> dirty s \<or> 1 + card (dirty s) < NBUF"
  shows "returns (install_one i s) (\<lambda>_ t. cache_ok {} t \<and> kept s t \<and> disk t = (disk s)(y := view s x) \<and>
     view t = (view s)(y := view s x) \<and> dirty t = dirty s - {y} \<and> disk_log t = disk_log s @ [(y, view s x)])"
proof -
  obtain b t1 where 1: "bread 1 x s = Ok b t1" "b < NBUF" "cache_ok {b} t1" "kept s t1"
      "bkey (bufs t1 ! b) = (1, x)" "b_valid (bufs t1 ! b)" "b_data (bufs t1 ! b) = view s x" "view t1 = view s"
      "dirty t1 = dirty s" "disk t1 = disk s" "disk_log t1 = disk_log s"
    using bread_ok [OF assms(1,6)] assms(9) by auto
  have y1: "y < disksize t1" using 1(4) assms(7) by (simp add: kept_size)
  have "lookup t1 y \<noteq> None \<or> card {b} + card (dirty t1) < NBUF"
    using dirty_lookup [of y t1] assms(10) 1(9) by auto
  then obtain c t2 where 2: "bread 1 y t1 = Ok c t2" "c < NBUF" "c \<noteq> b" "cache_ok {c, b} t2" "kept t1 t2"
      "bkey (bufs t2 ! c) = (1, y)" "b_valid (bufs t2 ! c)"
      "view t2 = view s" "dirty t2 = dirty s" "disk t2 = disk s" "disk_log t2 = disk_log s"
      "bufs t2 ! b = bufs t1 ! b"
    using bread_ok [OF 1(3) y1] 1 assms(5) by auto
  let ?t3 = "upd_buf c (\<lambda>k. k\<lparr>b_data := b_data (bufs t2 ! b)\<rparr>) t2"
  note 3 = set_data_ok [OF 2(4) _ 2(6,7), of ?t3 "\<lambda>_. b_data (bufs t2 ! b)", simplified]
  have l: "b < length (bufs t2)" "c < length (bufs t2)" using cache_okD(2) [OF 2(4)] 1(2) 2(2) by simp_all
  have y3: "y < disksize ?t3" using 1(4) 2(5) assms(7) by (simp add: kept_size)
  have c3: "bkey (bufs ?t3 ! c) = (1, y)" "b_valid (bufs ?t3 ! c)" using 2(6,7) l by (simp_all add: bkey_def)
  obtain t4 where 4: "bwrite c ?t3 = Ok () t4" "cache_ok {c, b} t4" "kept ?t3 t4"
      "bufs t4 = (bufs ?t3)[c := (bufs ?t3 ! c)\<lparr>b_dirty := False\<rparr>]" "view t4 = view ?t3" "dirty t4 = dirty ?t3 - {y}"
      "disk t4 = (disk ?t3)(y := view ?t3 y)" "disk_log t4 = disk_log ?t3 @ [(y, view ?t3 y)]"
    using bwrite_ok [OF 3(1) _ c3 y3] by auto
  have b4: "bkey (bufs t4 ! b) = (1, x)" "b_valid (bufs t4 ! b)" using 4(4) 2(3,12) 1(5,6) l by simp_all
  have v4: "view t4 = (view s)(y := view s x)" using 4(5) 3(3) 2(8,12) 1(7) by simp
  have d4: "disk t4 = (disk s)(y := view s x)" using 4(7) 3(3) 2(10,12) 1(7) by simp
  have x4: "view t4 x = disk t4 x"
    using v4 d4 assms(1,5,8) by (simp add: view_clean)
  obtain t5 where 5: "brelse b t4 = Ok () t5" "cache_ok {c} t5" "kept t4 t5" "view t5 = view t4" "dirty t5 = dirty t4"
      "disk t5 = disk t4" "disk_log t5 = disk_log t4" "bufs t5 = (bufs t4)[b := (bufs t4 ! b)\<lparr>b_refcnt := 0\<rparr>]"
    using brelse_ok [OF 4(2) _ b4] x4 2(3) by (auto simp: insert_Diff_if)
  have c5: "bkey (bufs t5 ! c) = (1, y)" "b_valid (bufs t5 ! c)"
    using 5(8) 4(4) c3 2(3) l by (simp_all add: bkey_def)
  have e5: "view t5 y = disk t5 y" using 5(4,6) v4 d4 by simp
  obtain t6 where 6: "brelse c t5 = Ok () t6" "cache_ok {} t6" "kept t5 t6" "view t6 = view t5" "dirty t6 = dirty t5"
      "disk t6 = disk t5" "disk_log t6 = disk_log t5"
    using brelse_ok [OF 5(2) _ c5] e5 by auto
  have k: "kept s t6"
    using kept_trans [OF kept_trans [OF kept_trans [OF kept_trans [OF kept_trans [OF 1(4) 2(5)] 3(2)] 4(3)] 5(3)] 6(3)] .
  have g: "log_dev t1 = 1" "lh_block t1 = lh_block s" using kept_log [OF 1(4)] assms(2) by simp_all
  have "install_one i s = Ok () t6"
    using 1(1) 2(1) 4(1) 5(1) 6(1) assms(2-4) g by (simp add: install_one_def Let_def)
  then show ?thesis
    using 6 k v4 d4 5 4 3(3,4) 2(8,9,10,11,12) 1(7) by simp
qed

section \<open>The header\<close>

definition header :: "int \<Rightarrow> int list \<Rightarrow> block \<Rightarrow> block" where
  "header n bs d = put32s (put32 d 0 (blk n)) 4 (map blk (take (nat n) bs))"

lemma write_head_ok:
  assumes "cache_ok {} s" "log_dev s = 1" "x = blk (log_start s)" "x < disksize s" "x \<notin> dirty s"
    and "card (dirty s) < NBUF" "h = header (lh_n s) (lh_block s) (disk s x)"
  shows "returns (write_head s) (\<lambda>_ t. cache_ok {} t \<and> kept s t \<and> disk t = (disk s)(x := h) \<and>
     view t = (view s)(x := h) \<and> dirty t = dirty s \<and> disk_log t = disk_log s @ [(x, h)])"
proof -
  obtain b t1 where 1: "bread 1 x s = Ok b t1" "b < NBUF" "cache_ok {b} t1" "kept s t1"
      "bkey (bufs t1 ! b) = (1, x)" "b_valid (bufs t1 ! b)" "b_data (bufs t1 ! b) = view s x" "view t1 = view s"
      "dirty t1 = dirty s" "disk t1 = disk s" "disk_log t1 = disk_log s"
    using bread_ok [OF assms(1,4)] assms(6) by auto
  have g: "lh_n t1 = lh_n s" "lh_block t1 = lh_block s" using kept_log [OF 1(4)] by simp_all
  let ?f = "\<lambda>k. header (lh_n s) (lh_block s) (b_data k)"
  let ?t2 = "upd_buf b (\<lambda>k. k\<lparr>b_data := ?f k\<rparr>) t1"
  note 2 = set_data_ok [OF 1(3) _ 1(5,6), of ?t2 ?f, simplified]
  have l: "b < length (bufs t1)" using cache_okD(2) [OF 1(3)] 1(2) by simp
  have h: "?f (bufs t1 ! b) = h" using assms(1,5,7) 1(7) by (simp add: view_clean)
  have two: "upd_buf b (\<lambda>k. k\<lparr>b_data := put32s (b_data k) 4 (map blk (take (nat (lh_n u)) (lh_block u)))\<rparr>) u = ?t2"
    if "u = upd_buf b (\<lambda>k. k\<lparr>b_data := put32 (b_data k) 0 (blk (lh_n t1))\<rparr>) t1" for u
    using g l that by (simp add: upd_buf_def header_def)
  have b2: "bkey (bufs ?t2 ! b) = (1, x)" "b_valid (bufs ?t2 ! b)" using 1(5,6) l by (simp_all add: bkey_def)
  have x2: "x < disksize ?t2" using 1(4) assms(4) by (simp add: kept_size)
  obtain t3 where 3: "bwrite b ?t2 = Ok () t3" "cache_ok {b} t3" "kept ?t2 t3"
      "bufs t3 = (bufs ?t2)[b := (bufs ?t2 ! b)\<lparr>b_dirty := False\<rparr>]" "view t3 = view ?t2" "dirty t3 = dirty ?t2 - {x}"
      "disk t3 = (disk ?t2)(x := view ?t2 x)" "disk_log t3 = disk_log ?t2 @ [(x, view ?t2 x)]"
    using bwrite_ok [OF 2(1) _ b2 x2] by auto
  have b3: "bkey (bufs t3 ! b) = (1, x)" "b_valid (bufs t3 ! b)" using 3(4) b2 l by (simp_all add: bkey_def)
  have e3: "view t3 x = disk t3 x" using 3(5,7) by simp
  obtain t4 where 4: "brelse b t3 = Ok () t4" "cache_ok {} t4" "kept t3 t4" "view t4 = view t3" "dirty t4 = dirty t3"
      "disk t4 = disk t3" "disk_log t4 = disk_log t3"
    using brelse_ok [OF 3(2) _ b3] e3 by auto
  have k: "kept s t4" using kept_trans [OF kept_trans [OF kept_trans [OF 1(4) 2(2)] 3(3)] 4(3)] .
  have "write_head s = Ok () t4"
    using 1(1) 3(1) 4(1) assms(2,3) two by (simp add: write_head_def Let_def)
  then show ?thesis
    using 4 k 3(5-8) 2(3,4) h 1(8-11) assms(5) by simp
qed

lemma cache_ok_log [simp]:
  "cache_ok H (s\<lparr>lh_n := n\<rparr>) = cache_ok H s" "cache_ok H (s\<lparr>lh_block := bs\<rparr>) = cache_ok H s"
  by (simp_all add: cache_ok_def idle_def can_lock_def cpu_inv_def me_def cur_def my_pid_def)

lemma view_log [simp]:
  "view (s\<lparr>lh_n := n\<rparr>) = view s" "view (s\<lparr>lh_block := bs\<rparr>) = view s"
  "dirty (s\<lparr>lh_n := n\<rparr>) = dirty s" "dirty (s\<lparr>lh_block := bs\<rparr>) = dirty s"
  by (simp_all add: view_def lookup_def dirty_def fun_eq_iff split: option.split)

lemma read_head_ok:
  assumes "cache_ok {} s" "log_dev s = 1" "x = blk (log_start s)" "x < disksize s" "dirty s = {}"
    and "n = sint (get32 (disk s x) 0)" "n \<le> LOGSIZE" "length (lh_block s) = nat LOGSIZE"
  shows "returns (read_head s) (\<lambda>_ t. cache_ok {} t \<and> log_dev t = 1 \<and> log_start t = log_start s \<and>
     disksize t = disksize s \<and> disk t = disk s \<and> dirty t = {} \<and> lh_n t = n \<and> length (lh_block t) = nat LOGSIZE \<and>
     disk_log t = disk_log s \<and> (\<forall>i < nat n. blk (lh_block t ! i) = get32 (disk s x) (4 + 4 * i)))"
proof -
  obtain b t1 where 1: "bread 1 x s = Ok b t1" "b < NBUF" "cache_ok {b} t1" "kept s t1"
      "bkey (bufs t1 ! b) = (1, x)" "b_valid (bufs t1 ! b)" "b_data (bufs t1 ! b) = view s x" "view t1 = view s"
      "dirty t1 = dirty s" "disk t1 = disk s" "disk_log t1 = disk_log s"
    using bread_ok [OF assms(1,4)] assms(5) by auto
  have d: "b_data (bufs t1 ! b) = disk s x" using 1(7) assms(1,5) by (simp add: view_clean)
  let ?bs = "map (\<lambda>i. sint (get32 (disk s x) (4 + 4 * i))) [0..<nat n] @ drop (nat n) (lh_block s)"
  let ?t2 = "t1\<lparr>lh_n := n, lh_block := ?bs\<rparr>"
  have c2: "cache_ok {b} ?t2" using 1(3) by simp
  have v2: "view ?t2 x = disk ?t2 x" using 1(8,10) assms(1,5) by (simp add: view_clean)
  obtain t3 where 3: "brelse b ?t2 = Ok () t3" "cache_ok {} t3" "kept ?t2 t3" "dirty t3 = dirty ?t2" "disk t3 = disk ?t2"
      "disk_log t3 = disk_log ?t2"
    using brelse_ok [OF c2, of b x] v2 1(5,6) by auto
  have g: "lh_block t1 = lh_block s" "log_dev t1 = 1" "log_start t1 = log_start s" "disksize t1 = disksize s"
    using kept_log [OF 1(4)] kept_size [OF 1(4)] assms(2) by simp_all
  have "read_head s = Ok () t3"
    using 1(1) 3(1) assms(2,3,6,7) g by (simp add: read_head_def Let_def d)
  moreover have "log_dev t3 = 1" "log_start t3 = log_start s" "disksize t3 = disksize s" "lh_n t3 = n" "lh_block t3 = ?bs"
    using kept_log [OF 3(3)] kept_size [OF 3(3)] g by simp_all
  ultimately show ?thesis
    using 3 1(9-11) assms(5,7,8) by (auto simp: blk_def nth_append)
qed

section \<open>The loops\<close>

text \<open>Applying writes to an array of blocks.\<close>

definition apply_writes :: "(u32 \<times> block) list \<Rightarrow> (u32 \<Rightarrow> block) \<Rightarrow> u32 \<Rightarrow> block" where
  "apply_writes ws D = fold (\<lambda>(n, d) D. D(n := d)) ws D"

lemma apply_writes_simps [simp]:
  "apply_writes [] D = D" "apply_writes (ws @ [(n, d)]) D = (apply_writes ws D)(n := d)"
  by (simp_all add: apply_writes_def)

lemma apply_writes_append: "apply_writes (ws @ vs) D = apply_writes vs (apply_writes ws D)"
  by (simp add: apply_writes_def)

lemma apply_writes_other: "n \<notin> fst ` set ws \<Longrightarrow> apply_writes ws D n = D n"
  by (induction ws rule: rev_induct) auto

lemma apply_writes_in:
  "(n, d) \<in> set ws \<Longrightarrow> distinct (map fst ws) \<Longrightarrow> apply_writes ws D n = d"
  by (induction ws rule: rev_induct) (auto simp: rev_image_eqI)

definition log_head :: "'z logrec_scheme \<Rightarrow> u32" where
  "log_head s = blk (log_start s)"

definition log_slot :: "'z logrec_scheme \<Rightarrow> nat \<Rightarrow> u32" where
  "log_slot s i = blk (log_start s + int i + 1)"

definition home :: "'z logrec_scheme \<Rightarrow> nat \<Rightarrow> u32" where
  "home s i = blk (lh_block s ! i)"

definition homes :: "'z logrec_scheme \<Rightarrow> u32 list" where
  "homes s = map (home s) [0..<nat (lh_n s)]"

text \<open>The blocks of the log: the header and the slots.\<close>

definition in_log :: "'z logrec_scheme \<Rightarrow> u32 \<Rightarrow> bool" where
  "in_log s n \<longleftrightarrow> log_start s \<le> uint n \<and> uint n < log_start s + LOGSIZE"

definition log_shape :: "'z logrec_scheme \<Rightarrow> bool" where
  "log_shape s \<longleftrightarrow> log_dev s = 1 \<and> 0 \<le> log_start s \<and> log_start s + LOGSIZE \<le> uint (disksize s) \<and>
     length (lh_block s) = nat LOGSIZE \<and> lh_n s < LOGSIZE \<and> distinct (homes s) \<and>
     (\<forall>n \<in> set (homes s). n < disksize s \<and> \<not> in_log s n)"

lemma uint_blk: "0 \<le> a \<Longrightarrow> a < 2 ^ 32 \<Longrightarrow> uint (blk a) = a"
  by (simp add: blk_def uint_word_of_int)

lemma log_blocks:
  assumes "log_shape s"
  shows "uint (log_head s) = log_start s" "i < 29 \<Longrightarrow> uint (log_slot s i) = log_start s + int i + 1"
proof -
  have b: "0 \<le> log_start s" "log_start s + 30 \<le> uint (disksize s)" using assms by (simp_all add: log_shape_def)
  have "uint (disksize s) < 2 ^ 32" using unsigned_less [of "disksize s", where 'a = int] by simp
  then show "uint (log_head s) = log_start s" "i < 29 \<Longrightarrow> uint (log_slot s i) = log_start s + int i + 1"
    using b by (simp_all add: log_head_def log_slot_def uint_blk)
qed

lemma log_blocks_ok:
  assumes "log_shape s"
  shows "log_head s < disksize s" "in_log s (log_head s)"
    "i < 29 \<Longrightarrow> log_slot s i < disksize s" "i < 29 \<Longrightarrow> in_log s (log_slot s i)"
    "i < 29 \<Longrightarrow> log_slot s i \<noteq> log_head s"
proof -
  note b = log_blocks [OF assms]
  have l: "0 \<le> log_start s" "log_start s + 30 \<le> uint (disksize s)" using assms by (simp_all add: log_shape_def)
  show "log_head s < disksize s" "in_log s (log_head s)" using b(1) l by (simp_all add: word_less_def in_log_def)
  show "log_slot s i < disksize s" if "i < 29" using b(2) [OF that] l that by (simp add: word_less_def)
  show "in_log s (log_slot s i)" if "i < 29" using b(2) [OF that] l that by (simp add: in_log_def)
  show "log_slot s i \<noteq> log_head s" if "i < 29" using b(2) [OF that] b(1) by auto
qed

lemma log_slot_inj:
  assumes "log_shape s" "i < 29" "j < 29" "log_slot s i = log_slot s j"
  shows "i = j"
proof -
  have "log_start s + int i + 1 = log_start s + int j + 1"
    by (simp only: log_blocks(2) [OF assms(1,2), symmetric] log_blocks(2) [OF assms(1,3), symmetric] assms(4))
  then show ?thesis by simp
qed

text \<open>What \<open>log_shape\<close> says of the blocks that belong to slot \<open>i\<close>.\<close>

lemma log_shapeD:
  assumes "log_shape s" "i < nat (lh_n s)"
  shows "i < 29" "home s i \<in> set (homes s)" "home s i < disksize s" "\<not> in_log s (home s i)"
    "log_slot s i \<noteq> home s i"
proof -
  have "lh_n s < 30" using assms(1) by (simp add: log_shape_def)
  then show i: "i < 29" using assms(2) by linarith
  show m: "home s i \<in> set (homes s)" using assms(2) by (simp add: homes_def)
  show "home s i < disksize s" and l: "\<not> in_log s (home s i)" using assms(1) m by (simp_all add: log_shape_def)
  show "log_slot s i \<noteq> home s i" using log_blocks_ok(4) [OF assms(1) i] l by auto
qed

lemma homes_distinct:
  "log_shape s \<Longrightarrow> i < nat (lh_n s) \<Longrightarrow> j < nat (lh_n s) \<Longrightarrow> home s i = home s j \<Longrightarrow> i = j"
  using nth_eq_iff_index_eq [of "homes s" i j] by (simp add: log_shape_def homes_def)

lemma card_homes:
  assumes "log_shape s"
  shows "card (set (homes s)) < NBUF"
proof -
  have "card (set (homes s)) \<le> nat (lh_n s)" using card_length [of "homes s"] by (simp add: homes_def)
  also have "nat (lh_n s) < 30" using assms unfolding log_shape_def by linarith
  finally show ?thesis by simp
qed

lemma kept_shape:
  assumes "kept s t"
  shows "log_dev t = log_dev s" "lh_n t = lh_n s" "log_slot t i = log_slot s i" "home t i = home s i"
    "log_head t = log_head s" "disksize t = disksize s" "homes t = homes s" "lh_block t = lh_block s"
    "log_shape t = log_shape s"
proof -
  note k = kept_log [OF assms] kept_size [OF assms]
  show h: "log_dev t = log_dev s" "lh_n t = lh_n s" "log_slot t i = log_slot s i" "home t i = home s i"
    "log_head t = log_head s" "disksize t = disksize s" "lh_block t = lh_block s"
    using k by (simp_all add: log_slot_def home_def log_head_def)
  show e: "homes t = homes s" using k by (simp add: homes_def home_def)
  show "log_shape t = log_shape s" using k e by (simp add: log_shape_def in_log_def)
qed

definition log_writes :: "'z logrec_scheme \<Rightarrow> nat \<Rightarrow> (u32 \<times> block) list" where
  "log_writes s k = map (\<lambda>i. (log_slot s i, view s (home s i))) [0..<k]"

definition home_writes :: "'z logrec_scheme \<Rightarrow> nat \<Rightarrow> (u32 \<times> block) list" where
  "home_writes s k = map (\<lambda>i. (home s i, disk s (log_slot s i))) [0..<k]"

lemma writes_Suc:
  "log_writes s (Suc k) = log_writes s k @ [(log_slot s k, view s (home s k))]"
  "home_writes s (Suc k) = home_writes s k @ [(home s k, disk s (log_slot s k))]"
  by (simp_all add: log_writes_def home_writes_def)

lemma slots_clean:
  assumes "log_shape s" "dirty s \<subseteq> set (homes s)"
  shows "log_head s \<notin> dirty s" "i < 29 \<Longrightarrow> log_slot s i \<notin> dirty s"
proof -
  have n: "\<not> in_log s n" if "n \<in> dirty s" for n using assms that by (auto simp: log_shape_def)
  show "log_head s \<notin> dirty s" using n log_blocks_ok(2) [OF assms(1)] by blast
  show "log_slot s i \<notin> dirty s" if "i < 29" using n log_blocks_ok(4) [OF assms(1) that] by blast
qed

lemma apply_log_writes:
  assumes "log_shape s" "k \<le> nat (lh_n s)" "\<not> in_log s n"
  shows "apply_writes (log_writes s k) D n = D n"
proof (rule apply_writes_other)
  have "\<forall>i < k. n \<noteq> log_slot s i"
    using log_blocks_ok(4) [OF assms(1) log_shapeD(1) [OF assms(1)]] assms(2,3) by auto
  then show "n \<notin> fst ` set (log_writes s k)" by (auto simp: log_writes_def)
qed

lemma apply_home_writes:
  assumes "log_shape s" "k \<le> nat (lh_n s)" "in_log s n"
  shows "apply_writes (home_writes s k) D n = D n"
proof (rule apply_writes_other)
  have "\<forall>i < k. n \<noteq> home s i"
    using log_shapeD(4) [OF assms(1)] assms(2,3) by auto
  then show "n \<notin> fst ` set (home_writes s k)" by (auto simp: home_writes_def)
qed

lemma write_log_ok:
  assumes c: "cache_ok {} s" and sh: "log_shape s" and d: "dirty s = set (homes s)" and n: "n = nat (lh_n s)"
  shows "returns (write_log s) (\<lambda>_ t. cache_ok {} t \<and> kept s t \<and> dirty t = dirty s \<and>
     view t = apply_writes (log_writes s n) (view s) \<and> disk t = apply_writes (log_writes s n) (disk s) \<and>
     disk_log t = disk_log s @ log_writes s n)"
proof -
  let ?I = "\<lambda>k t. cache_ok {} t \<and> kept s t \<and> dirty t = dirty s \<and>
     view t = apply_writes (log_writes s k) (view s) \<and> disk t = apply_writes (log_writes s k) (disk s) \<and>
     disk_log t = disk_log s @ log_writes s k"
  have z: "?I 0 s" using c by (simp add: log_writes_def)
  have step: "returns (write_log_one ([0..<n] ! k) t) (\<lambda>_ u. ?I (Suc k) u)" if k: "k < length [0..<n]" and I: "?I k t" for k t
  proof -
    have kn: "k < nat (lh_n s)" using k n by simp
    note h = log_shapeD [OF sh kn] and e = kept_shape [OF conjunct1 [OF conjunct2 [OF I]]]
    have dt: "dirty t = set (homes s)" using I d by simp
    have v: "view t (home s k) = view s (home s k)"
      using I apply_log_writes [OF sh _ h(4), of k] kn by simp
    have "returns (write_log_one k t) (\<lambda>_ u. cache_ok {} u \<and> kept t u \<and> disk u = (disk t)(log_slot t k := view t (home t k)) \<and>
       view u = (view t)(log_slot t k := view t (home t k)) \<and> dirty u = dirty t \<and>
       disk_log u = disk_log t @ [(log_slot t k, view t (home t k))])"
    proof (rule write_log_one_ok)
      show "log_slot t k = blk (log_start t + int k + 1)" "home t k = blk (lh_block t ! k)"
        by (simp_all add: log_slot_def home_def)
    qed (use I e h sh dt log_blocks_ok(3) [OF sh h(1)] slots_clean(2) [OF sh _ h(1)] d card_homes [OF sh]
      in \<open>simp_all add: log_shape_def\<close>)
    then have "returns (write_log_one k t) (\<lambda>_ u. ?I (Suc k) u)"
      by (rule returns_mono) (use I e v in \<open>auto simp: writes_Suc intro: kept_trans\<close>)
    then show ?thesis using k by simp
  qed
  have "returns (for_each [0..<n] write_log_one s) (\<lambda>_ t. ?I (length [0..<n]) t)"
    by (rule for_each_returns [where I = ?I]) (fact z, fact step)
  then show ?thesis using n by (simp add: write_log_def)
qed

lemma install_trans_ok:
  assumes c: "cache_ok {} s" and sh: "log_shape s" and d: "dirty s = set (homes s) \<or> dirty s = {}" and n: "n = nat (lh_n s)"
  shows "returns (install_trans s) (\<lambda>_ t. cache_ok {} t \<and> kept s t \<and> dirty t = {} \<and>
     disk t = apply_writes (home_writes s n) (disk s) \<and> disk_log t = disk_log s @ home_writes s n)"
proof -
  let ?I = "\<lambda>k t. cache_ok {} t \<and> kept s t \<and> dirty t = dirty s - home s ` {..<k} \<and>
     disk t = apply_writes (home_writes s k) (disk s) \<and> disk_log t = disk_log s @ home_writes s k"
  have z: "?I 0 s" using c by (simp add: home_writes_def)
  have step: "returns (install_one ([0..<n] ! k) t) (\<lambda>_ u. ?I (Suc k) u)" if k: "k < length [0..<n]" and I: "?I k t" for k t
  proof -
    have kn: "k < nat (lh_n s)" using k n by simp
    note h = log_shapeD [OF sh kn] and e = kept_shape [OF conjunct1 [OF conjunct2 [OF I]]]
    have x: "log_slot s k \<notin> dirty t" using slots_clean(2) [OF sh _ h(1)] d I by auto
    have "home s k \<noteq> home s j" if "j < k" for j
      using homes_distinct [OF sh kn, of j] kn that by auto
    then have "home s k \<notin> home s ` {..<k}" by blast
    then have "home s k \<in> dirty t \<or> dirty t = {}" using d h(2) I by auto
    then have y: "home s k \<in> dirty t \<or> 1 + card (dirty t) < NBUF" by auto
    have ct: "cache_ok {} t" using I by simp
    have dev: "log_dev s = 1" using sh by (simp add: log_shape_def)
    have "dirty t \<subseteq> set (homes s)" using d I by auto
    then have cd: "card (dirty t) < NBUF" using card_mono [OF List.finite_set] card_homes [OF sh] by (meson order.strict_trans1)
    have "disk t (log_slot s k) = disk s (log_slot s k)"
      using I apply_home_writes [OF sh _ log_blocks_ok(4) [OF sh h(1)], of k] kn by simp
    then have v: "view t (log_slot s k) = disk s (log_slot s k)" using view_clean [of t] x I by simp
    have "returns (install_one k t) (\<lambda>_ u. cache_ok {} u \<and> kept t u \<and> disk u = (disk t)(home t k := view t (log_slot t k)) \<and>
       view u = (view t)(home t k := view t (log_slot t k)) \<and> dirty u = dirty t - {home t k} \<and>
       disk_log u = disk_log t @ [(home t k, view t (log_slot t k))])"
    proof (rule install_one_ok)
      show "log_slot t k = blk (log_start t + int k + 1)" "home t k = blk (lh_block t ! k)"
        by (simp_all add: log_slot_def home_def)
    qed (use ct e h dev x y cd log_blocks_ok(3) [OF sh h(1)] in simp_all)
    then have "returns (install_one k t) (\<lambda>_ u. ?I (Suc k) u)"
      by (rule returns_mono) (use I e v in \<open>auto simp: writes_Suc lessThan_Suc intro: kept_trans\<close>)
    then show ?thesis using k by simp
  qed
  have all: "dirty s - home s ` {..<nat (lh_n s)} = {}" using d by (auto simp: homes_def)
  have "returns (for_each [0..<n] install_one s) (\<lambda>_ t. ?I (length [0..<n]) t)"
    by (rule for_each_returns [where I = ?I]) (fact z, fact step)
  then show ?thesis using n by (simp add: install_trans_def all)
qed

section \<open>Commit\<close>

text \<open>The writes of a commit, in the order in which they reach the disk.\<close>

definition new_header :: "'z logrec_scheme \<Rightarrow> block" where
  "new_header s = header (lh_n s) (lh_block s) (disk s (log_head s))"

definition commit_writes :: "'z logrec_scheme \<Rightarrow> (u32 \<times> block) list" where
  "commit_writes s =
     log_writes s (nat (lh_n s)) @ [(log_head s, new_header s)] @
     map (\<lambda>i. (home s i, view s (home s i))) [0..<nat (lh_n s)] @ [(log_head s, put32 (new_header s) 0 0)]"

lemma header_0: "header 0 bs d = put32 d 0 0"
  by (simp add: header_def blk_def)

lemma apply_log_writes_slot:
  assumes "log_shape s" "i < nat (lh_n s)"
  shows "apply_writes (log_writes s (nat (lh_n s))) D (log_slot s i) = view s (home s i)"
proof (rule apply_writes_in)
  show "(log_slot s i, view s (home s i)) \<in> set (log_writes s (nat (lh_n s)))"
    using assms(2) by (auto simp: log_writes_def)
  have "inj_on (log_slot s) {0..<nat (lh_n s)}"
    by (rule inj_onI) (use log_slot_inj [OF assms(1)] log_shapeD(1) [OF assms(1)] in auto)
  then show "distinct (map fst (log_writes s (nat (lh_n s))))"
    by (simp add: log_writes_def distinct_map comp_def)
qed

lemma log_writes_head:
  assumes "log_shape s" "k \<le> nat (lh_n s)"
  shows "log_head s \<notin> fst ` set (log_writes s k)"
proof -
  have "log_head s \<noteq> log_slot s i" if "i < k" for i
    using log_blocks_ok(5) [OF assms(1) log_shapeD(1) [OF assms(1)], of i] that assms(2) by auto
  then have "\<forall>i < k. log_head s \<noteq> log_slot s i" by blast
  then show ?thesis by (auto simp: log_writes_def)
qed

lemma cleared_shape:
  "log_head (s\<lparr>lh_n := 0\<rparr>) = log_head s" "log_start (s\<lparr>lh_n := 0\<rparr>) = log_start s"
  by (simp_all add: log_head_def)

lemma clear_head_ok:
  assumes "cache_ok {} s" "log_shape s" "dirty s = {}"
  shows "returns (write_head (s\<lparr>lh_n := 0\<rparr>)) (\<lambda>_ t. cache_ok {} t \<and> dirty t = {} \<and> lh_n t = 0 \<and>
     disk t = (disk s)(log_head s := put32 (disk s (log_head s)) 0 0) \<and>
     disk_log t = disk_log s @ [(log_head s, put32 (disk s (log_head s)) 0 0)])"
proof -
  let ?u = "s\<lparr>lh_n := 0\<rparr>"
  have dev: "log_dev s = 1" using assms(2) by (simp add: log_shape_def)
  have "returns (write_head ?u) (\<lambda>_ t. cache_ok {} t \<and> kept ?u t \<and> disk t = (disk ?u)(log_head s := put32 (disk s (log_head s)) 0 0) \<and>
     view t = (view ?u)(log_head s := put32 (disk s (log_head s)) 0 0) \<and> dirty t = dirty ?u \<and>
     disk_log t = disk_log ?u @ [(log_head s, put32 (disk s (log_head s)) 0 0)])"
    by (rule write_head_ok) (use assms dev log_blocks_ok(1) [OF assms(2)] in \<open>simp_all add: header_0 log_head_def\<close>)
  then show ?thesis by (rule returns_mono) (use assms(3) kept_log(1) [of ?u] in auto)
qed

lemma commit_ok:
  assumes c: "cache_ok {} s" and sh: "log_shape s" and d: "dirty s = set (homes s)" and n: "0 < lh_n s"
  shows "returns (commit s) (\<lambda>_ t. cache_ok {} t \<and> dirty t = {} \<and> lh_n t = 0 \<and>
     disk t = apply_writes (commit_writes s) (disk s) \<and> disk_log t = disk_log s @ commit_writes s)"
proof -
  let ?n = "nat (lh_n s)"
  obtain t1 where 1: "write_log s = Ok () t1" "cache_ok {} t1" "kept s t1" "dirty t1 = set (homes s)"
      "disk t1 = apply_writes (log_writes s ?n) (disk s)" "disk_log t1 = disk_log s @ log_writes s ?n"
    using write_log_ok [OF c sh d, of ?n] d by (auto simp: returns_iff)
  note e1 = kept_shape [OF 1(3)]
  have sh1: "log_shape t1" using sh e1 by simp
  have dev: "log_dev t1 = 1" using sh1 by (simp add: log_shape_def)
  have "disk t1 (log_head s) = disk s (log_head s)"
    using 1(5) apply_writes_other [OF log_writes_head [OF sh order_refl]] by simp
  then have h: "new_header s = header (lh_n t1) (lh_block t1) (disk t1 (log_head t1))"
    using e1 by (simp add: new_header_def)
  have "returns (write_head t1) (\<lambda>_ t. cache_ok {} t \<and> kept t1 t \<and> disk t = (disk t1)(log_head t1 := new_header s) \<and>
     view t = (view t1)(log_head t1 := new_header s) \<and> dirty t = dirty t1 \<and>
     disk_log t = disk_log t1 @ [(log_head t1, new_header s)])"
    by (rule write_head_ok)
      (use 1(2,4) e1 dev h log_blocks_ok(1) [OF sh1] slots_clean(1) [OF sh1] card_homes [OF sh] in \<open>simp_all add: log_head_def\<close>)
  then obtain t2 where 2: "write_head t1 = Ok () t2" "cache_ok {} t2" "kept t1 t2" "dirty t2 = set (homes s)"
      "disk t2 = (disk t1)(log_head s := new_header s)" "disk_log t2 = disk_log t1 @ [(log_head s, new_header s)]"
    using e1 1(4) by (auto simp: returns_iff)
  note e2 = kept_shape [OF kept_trans [OF 1(3) 2(3)]]
  have sh2: "log_shape t2" using sh e2 by simp
  have "disk t2 (log_slot s i) = view s (home s i)" if "i < ?n" for i
    using 2(5) 1(5) apply_log_writes_slot [OF sh that] log_blocks_ok(5) [OF sh log_shapeD(1) [OF sh that]] by simp
  then have w: "home_writes t2 ?n = map (\<lambda>i. (home s i, view s (home s i))) [0..<?n]"
    using e2 by (simp add: home_writes_def)
  obtain t3 where 3: "install_trans t2 = Ok () t3" "cache_ok {} t3" "kept t2 t3" "dirty t3 = {}"
      "disk t3 = apply_writes (home_writes t2 ?n) (disk t2)" "disk_log t3 = disk_log t2 @ home_writes t2 ?n"
    using install_trans_ok [OF 2(2) sh2, of ?n] 2(4) e2 by (auto simp: returns_iff)
  note e3 = kept_shape [OF kept_trans [OF kept_trans [OF 1(3) 2(3)] 3(3)]]
  have sh3: "log_shape t3" using sh e3 by simp
  have "disk t3 (log_head s) = disk t2 (log_head s)"
    using 3(5) apply_home_writes [OF sh2, of ?n "log_head s"] log_blocks_ok(2) [OF sh2] e2 by simp
  then have hd: "disk t3 (log_head t3) = new_header s" using 2(5) e3 by simp
  obtain t4 where 4: "write_head (t3\<lparr>lh_n := 0\<rparr>) = Ok () t4" "cache_ok {} t4" "dirty t4 = {}" "lh_n t4 = 0"
      "disk t4 = (disk t3)(log_head s := put32 (new_header s) 0 0)"
      "disk_log t4 = disk_log t3 @ [(log_head s, put32 (new_header s) 0 0)]"
    using clear_head_ok [OF 3(2) sh3 3(4)] hd e3 by (auto simp: returns_iff)
  have "commit s = Ok () t4" using 1(1) 2(1) 3(1) 4(1) n by (simp add: commit_def)
  moreover have "disk_log t4 = disk_log s @ commit_writes s"
    using 4(6) 3(6) 2(6) 1(6) w by (simp add: commit_writes_def)
  moreover have "disk t4 = apply_writes (commit_writes s) (disk s)"
    using 4(5) 3(5) 2(5) 1(5) w by (simp add: commit_writes_def apply_writes_append)
      (simp add: apply_writes_def)
  ultimately show ?thesis using 4(2-4) by simp
qed

section \<open>Recovery\<close>

text \<open>What the header on a disk says, and the disk that recovery makes of it.\<close>

definition disk_count :: "u32 \<Rightarrow> (u32 \<Rightarrow> block) \<Rightarrow> int" where
  "disk_count h D = sint (get32 (D h) 0)"

definition disk_homes :: "u32 \<Rightarrow> (u32 \<Rightarrow> block) \<Rightarrow> u32 list" where
  "disk_homes h D = map (\<lambda>i. get32 (D h) (4 + 4 * i)) [0..<nat (disk_count h D)]"

text \<open>A state just after boot: the cache is clean and \<open>initlog\<close> has found the log.\<close>

definition booted :: "'z logrec_scheme \<Rightarrow> bool" where
  "booted r \<longleftrightarrow> cache_ok {} r \<and> dirty r = {} \<and> log_dev r = 1 \<and> length (lh_block r) = nat LOGSIZE \<and>
     0 \<le> log_start r \<and> log_start r + LOGSIZE \<le> uint (disksize r)"

definition recovery_writes :: "'z logrec_scheme \<Rightarrow> (u32 \<times> block) list" where
  "recovery_writes r =
     map (\<lambda>i. (disk_homes (log_head r) (disk r) ! i, disk r (log_slot r i))) [0..<nat (disk_count (log_head r) (disk r))]
     @ [(log_head r, put32 (disk r (log_head r)) 0 0)]"

text \<open>The header on the disk of a booted state is one that a commit may have left.\<close>

definition header_ok :: "'z logrec_scheme \<Rightarrow> bool" where
  "header_ok r \<longleftrightarrow> disk_count (log_head r) (disk r) < LOGSIZE \<and> distinct (disk_homes (log_head r) (disk r)) \<and>
     (\<forall>n \<in> set (disk_homes (log_head r) (disk r)). n < disksize r \<and> \<not> in_log r n)"

lemma recover_ok:
  assumes "booted r" "header_ok r"
  shows "returns (recover_from_log r) (\<lambda>_ t. cache_ok {} t \<and> dirty t = {} \<and> lh_n t = 0 \<and>
     disk t = apply_writes (recovery_writes r) (disk r) \<and> disk_log t = disk_log r @ recovery_writes r)"
proof -
  let ?h = "log_head r" and ?n = "disk_count (log_head r) (disk r)"
  have b: "cache_ok {} r" "dirty r = {}" "log_dev r = 1" "length (lh_block r) = nat LOGSIZE"
    "0 \<le> log_start r" "log_start r + LOGSIZE \<le> uint (disksize r)" using assms(1) by (simp_all add: booted_def)
  have "uint (disksize r) < 2 ^ 32" using unsigned_less [of "disksize r", where 'a = int] by simp
  then have hs: "?h < disksize r" using b(5,6) by (simp add: word_less_def log_head_def uint_blk)
  have "returns (read_head r) (\<lambda>_ t. cache_ok {} t \<and> log_dev t = 1 \<and> log_start t = log_start r \<and>
     disksize t = disksize r \<and> disk t = disk r \<and> dirty t = {} \<and> lh_n t = ?n \<and> length (lh_block t) = nat LOGSIZE \<and>
     disk_log t = disk_log r \<and>
     (\<forall>i < nat ?n. blk (lh_block t ! i) = get32 (disk r ?h) (4 + 4 * i)))"
    by (rule read_head_ok) (use b hs assms(2) in \<open>simp_all add: log_head_def disk_count_def header_ok_def\<close>)
  then obtain t1 where 1: "read_head r = Ok () t1" "cache_ok {} t1" "log_dev t1 = 1" "log_start t1 = log_start r"
     "disksize t1 = disksize r" "disk t1 = disk r" "dirty t1 = {}" "lh_n t1 = ?n" "length (lh_block t1) = nat LOGSIZE"
     "disk_log t1 = disk_log r" "\<forall>i < nat ?n. blk (lh_block t1 ! i) = get32 (disk r ?h) (4 + 4 * i)"
    by (auto simp: returns_iff)
  have l: "log_head t1 = ?h" "in_log t1 = in_log r" "log_slot t1 = log_slot r"
    using 1(4) by (auto simp: log_head_def in_log_def log_slot_def fun_eq_iff)
  have hm: "homes t1 = disk_homes ?h (disk r)"
    using 1(8,11) by (simp add: homes_def disk_homes_def home_def)
  have sh: "log_shape t1" using assms(2) 1 b hm l by (simp add: log_shape_def header_ok_def)
  have "home t1 i = disk_homes ?h (disk r) ! i" if "i < nat ?n" for i
    using 1(11) that by (simp add: home_def disk_homes_def)
  then have w: "recovery_writes r = home_writes t1 (nat ?n) @ [(?h, put32 (disk r ?h) 0 0)]"
    using l 1(6) by (simp add: recovery_writes_def home_writes_def)
  obtain t2 where 2: "install_trans t1 = Ok () t2" "cache_ok {} t2" "kept t1 t2" "dirty t2 = {}"
      "disk t2 = apply_writes (home_writes t1 (nat ?n)) (disk r)" "disk_log t2 = disk_log r @ home_writes t1 (nat ?n)"
    using install_trans_ok [OF 1(2) sh, of "nat ?n"] 1 by (auto simp: returns_iff)
  note e2 = kept_shape [OF 2(3)]
  have sh2: "log_shape t2" using sh e2 by simp
  have "disk t2 ?h = disk r ?h"
    using 2(5) apply_home_writes [OF sh, of "nat ?n" ?h] log_blocks_ok(2) [OF sh] 1(8) l by simp
  then obtain t3 where 3: "write_head (t2\<lparr>lh_n := 0\<rparr>) = Ok () t3" "cache_ok {} t3" "dirty t3 = {}" "lh_n t3 = 0"
      "disk t3 = (disk t2)(?h := put32 (disk r ?h) 0 0)" "disk_log t3 = disk_log t2 @ [(?h, put32 (disk r ?h) 0 0)]"
    using clear_head_ok [OF 2(2) sh2 2(4)] e2 l by (auto simp: returns_iff)
  have "recover_from_log r = Ok () t3" using 1(1) 2(1) 3(1) by (simp add: recover_from_log_def)
  then show ?thesis using 3 2(5,6) w by simp
qed

section \<open>Crashes\<close>

text \<open>Two disks that agree on everything but the log.\<close>

definition same_data :: "'z logrec_scheme \<Rightarrow> (u32 \<Rightarrow> block) \<Rightarrow> (u32 \<Rightarrow> block) \<Rightarrow> bool" where
  "same_data s D E \<longleftrightarrow> (\<forall>n. \<not> in_log s n \<longrightarrow> D n = E n)"

definition installs :: "'z logrec_scheme \<Rightarrow> (u32 \<times> block) list" where
  "installs s = map (\<lambda>i. (home s i, view s (home s i))) [0..<nat (lh_n s)]"

lemma installs_fst: "map fst (installs s) = homes s"
  by (simp add: installs_def homes_def comp_def)

lemma length_writes [simp]: "length (installs s) = nat (lh_n s)" "length (log_writes s k) = k"
  by (simp_all add: installs_def log_writes_def)

lemma commit_writes_eq:
  "commit_writes s = log_writes s (nat (lh_n s)) @ [(log_head s, new_header s)] @ installs s @
     [(log_head s, put32 (new_header s) 0 0)]"
  by (simp add: commit_writes_def installs_def)

lemma apply_installs:
  assumes "log_shape s"
  shows "apply_writes (installs s) D n = (if n \<in> set (homes s) then view s n else D n)"
proof (cases "n \<in> set (homes s)")
  case True
  then have "(n, view s n) \<in> set (installs s)" by (auto simp: installs_def homes_def)
  then show ?thesis using True assms by (simp add: apply_writes_in installs_fst log_shape_def)
next
  case False
  have "fst ` set (installs s) = set (homes s)" by (simp add: installs_fst [symmetric])
  then show ?thesis using False by (simp add: apply_writes_other)
qed

lemma take_other:
  "n \<notin> fst ` set ws \<Longrightarrow> apply_writes (take j ws) D n = D n"
  by (rule apply_writes_other) (auto dest: in_set_takeD)

lemma sint_blk: "0 \<le> a \<Longrightarrow> a < LOGSIZE \<Longrightarrow> sint (blk a) = a"
  by (simp add: blk_def sint_sbintrunc' signed_take_bit_int_eq_self)

lemma new_header_reads:
  assumes "log_shape s" "0 \<le> lh_n s" "length (disk s (log_head s)) = BSIZE" "D (log_head s) = new_header s"
  shows "disk_count (log_head s) D = lh_n s" "disk_homes (log_head s) D = homes s"
proof -
  let ?bs = "map blk (take (nat (lh_n s)) (lh_block s))"
  let ?d = "put32 (disk s (log_head s)) 0 (blk (lh_n s))"
  have n: "lh_n s < LOGSIZE" "length (lh_block s) = nat LOGSIZE" using assms(1) by (simp_all add: log_shape_def)
  have l: "length ?bs = nat (lh_n s)" "4 + 4 * length ?bs \<le> length ?d" using n assms(2,3) by simp_all
  show c: "disk_count (log_head s) D = lh_n s"
    using assms n by (simp add: disk_count_def new_header_def header_def get32_put32s_before get32_put32 sint_blk)
  have "get32s (new_header s) 4 (nat (lh_n s)) = ?bs"
    using get32s_put32s [OF l(2)] l(1) by (simp add: new_header_def header_def)
  moreover have "?bs = homes s"
    using n by (intro nth_equalityI) (simp_all add: homes_def home_def)
  ultimately show "disk_homes (log_head s) D = homes s"
    using c assms(4) by (simp add: disk_homes_def get32s_def)
qed

text \<open>The three kinds of disk that a crash leaves.\<close>

lemma crash_cases:
  assumes "log_shape s"
  obtains "k \<le> nat (lh_n s)" "take k (commit_writes s) = log_writes s k"
  | j where "take k (commit_writes s) = log_writes s (nat (lh_n s)) @ (log_head s, new_header s) # take j (installs s)"
  | "take k (commit_writes s) = commit_writes s"
proof -
  let ?n = "nat (lh_n s)"
  consider "k \<le> ?n" | "?n < k" "k \<le> 2 * ?n + 1" | "2 * ?n + 1 < k" by linarith
  then show thesis
  proof cases
    case 1
    then have "take k (commit_writes s) = log_writes s k"
      by (simp add: commit_writes_eq log_writes_def take_map)
    then show ?thesis using 1 that(1) by blast
  next
    case 2
    then have "take k (commit_writes s) = log_writes s ?n @ (log_head s, new_header s) # take (k - ?n - 1) (installs s)"
      by (simp add: commit_writes_eq take_Cons')
    then show ?thesis using that(2) by blast
  next
    case 3
    then have "take k (commit_writes s) = commit_writes s" by (simp add: commit_writes_eq)
    then show ?thesis using that(3) by blast
  qed
qed

text \<open>A transaction that is ready to commit: the cache holds its blocks, and the log on the disk is empty.\<close>

definition commit_ready :: "'z logrec_scheme \<Rightarrow> bool" where
  "commit_ready s \<longleftrightarrow> cache_ok {} s \<and> log_shape s \<and> dirty s = set (homes s) \<and> 0 < lh_n s \<and>
     length (disk s (log_head s)) = BSIZE \<and> disk_count (log_head s) (disk s) = 0"

text \<open>A reboot on the disk \<open>D\<close>.\<close>

definition reboot :: "'z logrec_scheme \<Rightarrow> (u32 \<Rightarrow> block) \<Rightarrow> 'z logrec_scheme \<Rightarrow> bool" where
  "reboot s D r \<longleftrightarrow> booted r \<and> log_start r = log_start s \<and> disksize r = disksize s \<and> disk r = D"

text \<open>The disks that crashes in the middle of the commit, and of any number of recoveries after it, leave.\<close>

inductive crash_disk :: "'z logrec_scheme \<Rightarrow> (u32 \<Rightarrow> block) \<Rightarrow> bool" for s where
  in_commit: "commit s = Ok () c \<Longrightarrow>
    crash_disk s (apply_writes (take k (drop (length (disk_log s)) (disk_log c))) (disk s))"
| in_recovery: "crash_disk s D \<Longrightarrow> reboot s D r \<Longrightarrow> recover_from_log r = Ok () t \<Longrightarrow>
    crash_disk s (apply_writes (take k (drop (length (disk_log r)) (disk_log t))) D)"

definition before_commit :: "'z logrec_scheme \<Rightarrow> (u32 \<Rightarrow> block) \<Rightarrow> bool" where
  "before_commit s D \<longleftrightarrow> same_data s D (disk s) \<and> disk_count (log_head s) D = 0 \<and> length (D (log_head s)) = BSIZE"

definition committed :: "'z logrec_scheme \<Rightarrow> (u32 \<Rightarrow> block) \<Rightarrow> bool" where
  "committed s D \<longleftrightarrow> D (log_head s) = new_header s \<and> (\<forall>i < nat (lh_n s). D (log_slot s i) = view s (home s i)) \<and>
     (\<forall>n. \<not> in_log s n \<and> n \<notin> set (homes s) \<longrightarrow> D n = disk s n)"

definition installed :: "'z logrec_scheme \<Rightarrow> (u32 \<Rightarrow> block) \<Rightarrow> bool" where
  "installed s D \<longleftrightarrow> same_data s D (view s) \<and> disk_count (log_head s) D = 0 \<and> length (D (log_head s)) = BSIZE"

lemma length_header [simp]: "length (header n bs d) = length d"
  by (simp add: header_def)

lemma put_count:
  "length (D h) = BSIZE \<Longrightarrow> disk_count h (D(h := put32 (D h) 0 0)) = 0"
  by (simp add: disk_count_def get32_put32)

lemma commit_readyD:
  assumes "commit_ready s"
  shows "cache_ok {} s" "log_shape s" "dirty s = set (homes s)" "0 < lh_n s" "length (disk s (log_head s)) = BSIZE"
    "disk_count (log_head s) (disk s) = 0" "length (new_header s) = BSIZE"
  using assms by (simp_all add: commit_ready_def new_header_def)

lemma apply_put_head:
  assumes "log_shape s"
  shows "same_data s (D(log_head s := d)) E = same_data s D E"
  using log_blocks_ok(2) [OF assms] unfolding same_data_def by (metis fun_upd_apply)

lemma commit_installed:
  assumes "commit_ready s"
  shows "installed s (apply_writes (commit_writes s) (disk s))"
proof -
  note c = commit_readyD [OF assms]
  let ?h = "log_head s" and ?L = "apply_writes (log_writes s (nat (lh_n s))) (disk s)"
  have e: "apply_writes (commit_writes s) (disk s) =
      (apply_writes (installs s) (?L(?h := new_header s)))(?h := put32 (new_header s) 0 0)"
    by (simp add: commit_writes_eq apply_writes_def)
  have "?L n = disk s n" if "\<not> in_log s n" for n using apply_log_writes [OF c(2) order_refl that] .
  then have "same_data s (apply_writes (installs s) (?L(?h := new_header s))) (view s)"
    using log_blocks_ok(2) [OF c(2)] view_clean [OF c(1)] c(3) by (auto simp: same_data_def apply_installs [OF c(2)])
  then show ?thesis
    unfolding e using c(7) by (simp add: installed_def apply_put_head [OF c(2)] disk_count_def get32_put32)
qed

lemma commit_phase:
  assumes "commit_ready s"
  shows "before_commit s (apply_writes (take k (commit_writes s)) (disk s)) \<or>
     committed s (apply_writes (take k (commit_writes s)) (disk s)) \<or>
     installed s (apply_writes (take k (commit_writes s)) (disk s))"
proof -
  note c = commit_readyD [OF assms]
  note sh = c(2)
  let ?n = "nat (lh_n s)" and ?L = "apply_writes (log_writes s (nat (lh_n s))) (disk s)"
  have out: "?L n = disk s n" if "\<not> in_log s n" for n using apply_log_writes [OF sh order_refl that] .
  have fst: "fst ` set (installs s) = set (homes s)" by (simp add: installs_fst [symmetric])
  have inlog: "n \<notin> set (homes s)" if "in_log s n" for n using sh that by (auto simp: log_shape_def)
  show ?thesis
  proof (rule crash_cases [OF sh, of k])
    assume k: "k \<le> ?n" "take k (commit_writes s) = log_writes s k"
    have "apply_writes (log_writes s k) (disk s) (log_head s) = disk s (log_head s)"
      by (rule apply_writes_other [OF log_writes_head [OF sh k(1)]])
    then have "before_commit s (apply_writes (log_writes s k) (disk s))"
      using apply_log_writes [OF sh k(1)] c(5,6) by (simp add: before_commit_def same_data_def disk_count_def)
    then show ?thesis using k(2) by simp
  next
    fix j
    let ?ws = "log_writes s ?n @ (log_head s, new_header s) # take j (installs s)"
    assume k: "take k (commit_writes s) = ?ws"
    have e: "apply_writes ?ws (disk s) = apply_writes (take j (installs s)) (?L(log_head s := new_header s))"
      by (simp add: apply_writes_def)
    have "apply_writes (take j (installs s)) D n = D n" if "n \<notin> set (homes s)" for n D
      using take_other [of n "installs s"] fst that by simp
    then have "committed s (apply_writes ?ws (disk s))"
      unfolding e using inlog log_blocks_ok(2,4,5) [OF sh] log_shapeD(1) [OF sh] apply_log_writes_slot [OF sh] out
      by (auto simp: committed_def)
    then show ?thesis using k by simp
  next
    assume k: "take k (commit_writes s) = commit_writes s"
    then show ?thesis using commit_installed [OF assms] by simp
  qed
qed

text \<open>Recovery clears an empty log, and installs the blocks of a committed one.\<close>

lemma reboot_same:
  assumes "reboot s D r"
  shows "log_head r = log_head s" "log_slot r i = log_slot s i" "in_log r n = in_log s n" "disk r = D"
    "disksize r = disksize s" "booted r"
  using assms by (simp_all add: reboot_def log_head_def log_slot_def in_log_def)

lemma recovery_of_empty:
  assumes "reboot s D r" "disk_count (log_head s) D = 0"
  shows "header_ok r" "recovery_writes r = [(log_head s, put32 (D (log_head s)) 0 0)]"
  using assms reboot_same [OF assms(1)] by (simp_all add: header_ok_def recovery_writes_def disk_homes_def)

lemma recovery_of_committed:
  assumes "commit_ready s" "reboot s D r" "committed s D"
  shows "header_ok r" "recovery_writes r = installs s @ [(log_head s, put32 (new_header s) 0 0)]"
proof -
  note c = commit_readyD [OF assms(1)] and r = reboot_same [OF assms(2)]
  have h: "D (log_head s) = new_header s" using assms(3) by (simp add: committed_def)
  have n: "disk_count (log_head s) D = lh_n s" "disk_homes (log_head s) D = homes s"
    using new_header_reads [where D = D, OF c(2) _ c(5) h] c(4) by simp_all
  show "header_ok r" using n r c(2) by (simp add: header_ok_def log_shape_def)
  have "homes s ! i = home s i" if "i < nat (lh_n s)" for i using that by (simp add: homes_def)
  then show "recovery_writes r = installs s @ [(log_head s, put32 (new_header s) 0 0)]"
    using n r h assms(3) by (simp add: recovery_writes_def installs_def committed_def)
qed

lemma committed_step:
  assumes "commit_ready s" "committed s D"
  shows "committed s (apply_writes (take j (installs s)) D)"
    "installed s ((apply_writes (installs s) D)(log_head s := put32 (new_header s) 0 0))"
proof -
  note c = commit_readyD [OF assms(1)]
  have "fst ` set (installs s) = set (homes s)" by (simp add: installs_fst [symmetric])
  then have keep: "apply_writes (take j (installs s)) D n = D n" if "n \<notin> set (homes s)" for n
    using take_other [of n "installs s"] that by simp
  have inlog: "n \<notin> set (homes s)" if "in_log s n" for n using c(2) that by (auto simp: log_shape_def)
  show "committed s (apply_writes (take j (installs s)) D)"
    using assms(2) keep inlog log_blocks_ok(2,4) [OF c(2)] log_shapeD(1) [OF c(2)] by (simp add: committed_def)
  have "same_data s (apply_writes (installs s) D) (view s)"
    using assms(2) view_clean [OF c(1)] c(3) by (auto simp: same_data_def apply_installs [OF c(2)] committed_def)
  then show "installed s ((apply_writes (installs s) D)(log_head s := put32 (new_header s) 0 0))"
    using c(7) by (simp add: installed_def apply_put_head [OF c(2)] disk_count_def get32_put32)
qed

lemma cleared_phase:
  assumes "log_shape s"
  shows "before_commit s D \<Longrightarrow> before_commit s (D(log_head s := put32 (D (log_head s)) 0 0))"
    "installed s D \<Longrightarrow> installed s (D(log_head s := put32 (D (log_head s)) 0 0))"
  using apply_put_head [OF assms] put_count [of D "log_head s"] by (simp_all add: before_commit_def installed_def)

lemma take_snoc: "take j (xs @ [x]) = take j xs \<or> take j (xs @ [x]) = xs @ [x]"
  by (cases "j \<le> length xs") auto

lemma recovery_phase:
  assumes "commit_ready s" "reboot s D r" "before_commit s D \<or> committed s D \<or> installed s D"
  shows "header_ok r \<and>
     (before_commit s (apply_writes (take k (recovery_writes r)) D) \<or>
      committed s (apply_writes (take k (recovery_writes r)) D) \<or>
      installed s (apply_writes (take k (recovery_writes r)) D)) \<and>
     (before_commit s (apply_writes (recovery_writes r) D) \<or> installed s (apply_writes (recovery_writes r) D))"
proof (cases "committed s D")
  case True
  note w = recovery_of_committed [OF assms(1,2) True] and st = committed_step [OF assms(1) True]
  show ?thesis
    using take_snoc [of k "installs s" "(log_head s, put32 (new_header s) 0 0)"] w st by auto
next
  case False
  note c = commit_readyD [OF assms(1)]
  have o: "before_commit s D \<or> installed s D" using False assms(3) by blast
  then have z: "disk_count (log_head s) D = 0" by (auto simp: before_commit_def installed_def)
  note w = recovery_of_empty [OF assms(2) z]
  have e: "apply_writes (recovery_writes r) D = D(log_head s := put32 (D (log_head s)) 0 0)"
    using w(2) by (simp add: apply_writes_def)
  have "before_commit s (apply_writes (recovery_writes r) D) \<or> installed s (apply_writes (recovery_writes r) D)"
    unfolding e using o cleared_phase [OF c(2)] by blast
  moreover have "take k (recovery_writes r) = [] \<or> take k (recovery_writes r) = recovery_writes r"
    using w(2) by (cases k) auto
  ultimately show ?thesis using w(1) o by auto
qed

lemma crash_phase:
  assumes "crash_disk s D" "commit_ready s"
  shows "before_commit s D \<or> committed s D \<or> installed s D"
  using assms
proof induction
  case (in_commit c k)
  note r = commit_readyD [OF in_commit(2)]
  have "disk_log c = disk_log s @ commit_writes s" using commit_ok [OF r(1-4)] in_commit(1) by simp
  then show ?case using commit_phase [OF in_commit(2), of k] by simp
next
  case (in_recovery D r t k)
  note p = recovery_phase [OF in_recovery(5,2) in_recovery(4) [OF in_recovery(5)], of k]
  have "disk_log t = disk_log r @ recovery_writes r"
    using recover_ok [OF reboot_same(6) [OF in_recovery(2)] conjunct1 [OF p]] in_recovery(3) by simp
  then show ?case using p by simp
qed

text \<open>
  Sample states.  The log lies at blocks 2 to 31; the transaction has written the byte 7 over
  block 50, which is still dirty in the cache.
\<close>

definition logrec0 :: logrec where
  "logrec0 = binit (bcache.extend (bcache_at
     (\<lparr>b_valid = True, b_dirty = True, b_dev = 1, b_blockno = 50, b_refcnt = 0, b_data = replicate BSIZE 7\<rparr> # replicate 29 buf0)
     (\<lambda>_. replicate BSIZE 0)) (logrec.fields 2 30 0 False 1 1 (50 # replicate 29 0)))"

definition rebooted0 :: "(u32 \<Rightarrow> block) \<Rightarrow> logrec" where
  "rebooted0 D = binit (bcache.extend (bcache_at (replicate NBUF buf0) D) (logrec.fields 2 30 0 False 1 0 (replicate 30 0)))"

lemma bcache_extend_fields:
  "bufs (bcache.extend s x) = bufs s" "disk (bcache.extend s x) = disk s" "disksize (bcache.extend s x) = disksize s"
  "disk_log (bcache.extend s x) = disk_log s" "procs (bcache.extend s x) = procs s"
  "machine.truncate (bcache.extend s x) = machine.truncate s" "bcache.more (bcache.extend s x) = x"
  by (simp_all add: bcache.extend_def machine.truncate_def)

lemma logrec_of_more:
  assumes "bcache.more s = logrec.fields a b c d e f g"
  shows "log_start s = a" "log_dev s = e" "lh_n s = f" "lh_block s = g"
  using assms by (cases s; simp add: logrec.fields_def)+

lemma binit_log:
  "log_start (binit s) = log_start s" "log_dev (binit s) = log_dev s" "lh_n (binit s) = lh_n s" "lh_block (binit s) = lh_block s"
  using more_log [OF binit_fields(9) [of s]] by simp_all

lemmas sample_log = bcache_extend_fields bcache_at_fields
  logrec_of_more [OF bcache_extend_fields(7)] binit_log

lemma logrec0_ready: "commit_ready logrec0"
proof -
  let ?k = "\<lparr>b_valid = True, b_dirty = True, b_dev = 1, b_blockno = 50, b_refcnt = 0, b_data = replicate BSIZE 7\<rparr> :: buf"
  let ?s = "bcache.extend (bcache_at (?k # replicate 29 buf0) (\<lambda>_. replicate BSIZE 0))
     (logrec.fields 2 30 0 False 1 1 (50 # replicate 29 0))"
  have t: "machine.truncate ?s = machine.truncate ptable0" by (simp add: bcache_extend_fields bcache_at_fields)
  have "cache_ok {} (binit ?s)"
    using idle_at [OF t] keys_ok_Cons0 [of ?k 29]
    by (intro binit_ok) (simp_all add: sample_log ptable0_fields buf0_def)
  moreover have d: "dirty (binit ?s) = {50}" by (auto simp: dirty_def sample_log buf0_def bkey_def)
  moreover have h: "homes (binit ?s) = [50]" by (simp add: homes_def home_def sample_log blk_def)
  moreover have "log_shape (binit ?s)" using h by (simp add: log_shape_def sample_log in_log_def)
  moreover have "log_head (binit ?s) = 2" by (simp add: log_head_def sample_log blk_def)
  moreover have "get32 (replicate BSIZE 0) 0 = 0" by (simp add: get32_def le_word_def)
  ultimately show ?thesis
    unfolding logrec0_def commit_ready_def disk_count_def by (simp add: sample_log)
qed

lemma rebooted0_ok: "reboot logrec0 D (rebooted0 D)"
proof -
  let ?s = "bcache.extend (bcache_at (replicate NBUF buf0) D) (logrec.fields 2 30 0 False 1 0 (replicate 30 0))"
  have t: "machine.truncate ?s = machine.truncate ptable0" by (simp add: bcache_extend_fields bcache_at_fields)
  have "keys_ok (replicate NBUF buf0)" using keys_ok_Cons0 [of buf0 29] by (simp add: numeral_eq_Suc)
  then have "cache_ok {} (binit ?s)"
    using idle_at [OF t] by (intro binit_ok) (simp_all add: sample_log ptable0_fields buf0_def)
  moreover have "dirty (binit ?s) = {}" by (auto simp: dirty_def sample_log buf0_def)
  ultimately show ?thesis
    by (simp add: reboot_def booted_def rebooted0_def logrec0_def sample_log)
qed

text \<open>
  C1: crash safety of the log.  Let the machine crash at any point of a commit, and again at
  any point of the recoveries that follow, any number of times.  The next recovery that
  comes to its end returns, leaves an empty log, and the blocks outside the log are then
  either all as they were on the disk before the transaction, or all as the transaction wrote
  them.
\<close>

theorem log_crash_safe:
  assumes "commit_ready s" "crash_disk s D" "reboot s D r"
  shows "returns (recover_from_log r) (\<lambda>_ t. cache_ok {} t \<and> dirty t = {} \<and> disk_count (log_head s) (disk t) = 0 \<and>
     (same_data s (disk t) (disk s) \<or> same_data s (disk t) (view s)))"
proof -
  note p = recovery_phase [OF assms(1,3) crash_phase [OF assms(2,1)], of 0]
  show ?thesis
    by (rule returns_mono [OF recover_ok [OF reboot_same(6) [OF assms(3)] conjunct1 [OF p]]])
      (use p reboot_same(4) [OF assms(3)] in \<open>auto simp: before_commit_def installed_def\<close>)
qed

theorem log_crash_safe_witness:
  "\<exists>D. crash_disk logrec0 D \<and>
     returns (recover_from_log (rebooted0 D)) (\<lambda>_ t. cache_ok {} t \<and> dirty t = {} \<and>
       disk_count (log_head logrec0) (disk t) = 0 \<and>
       (same_data logrec0 (disk t) (disk logrec0) \<or> same_data logrec0 (disk t) (view logrec0)))"
proof -
  obtain c where "commit logrec0 = Ok () c"
    using commit_ok [OF commit_readyD(1-4) [OF logrec0_ready]] by (auto simp: returns_iff)
  then have "crash_disk logrec0 (apply_writes (take 2 (drop (length (disk_log logrec0)) (disk_log c))) (disk logrec0))"
    by (rule in_commit)
  then show ?thesis using log_crash_safe [OF logrec0_ready _ rebooted0_ok] by blast
qed

text \<open>
  C2: a commit that is not interrupted returns, and the disk then holds every block of the
  transaction as it was in the cache, with no dirty block left and an empty log.
\<close>

theorem commit_installs:
  assumes "commit_ready s"
  shows "returns (commit s) (\<lambda>_ c. cache_ok {} c \<and> dirty c = {} \<and> lh_n c = 0 \<and>
     same_data s (disk c) (view s) \<and> disk_count (log_head s) (disk c) = 0)"
proof -
  note c = commit_readyD [OF assms]
  show ?thesis
    by (rule returns_mono [OF commit_ok [OF c(1-4)]]) (use commit_installed [OF assms] in \<open>simp add: installed_def\<close>)
qed

theorem commit_installs_witness:
  "returns (commit logrec0) (\<lambda>_ c. cache_ok {} c \<and> dirty c = {} \<and> lh_n c = 0 \<and>
     same_data logrec0 (disk c) (view logrec0) \<and> disk_count (log_head logrec0) (disk c) = 0)"
  by (rule commit_installs [OF logrec0_ready])

end
