(* ===== verification/FileData.thy ===== *)
theory FileData
  imports Samples Commit
begin

text \<open>
  The contents of files: \<open>fblk s ip b\<close> is the block of the disk that holds block \<open>b\<close> of the
  file, directly or through the indirect block, and \<open>file_bytes s ip off n\<close> are its bytes as
  the buffer cache shows them.  \<open>readi\<close> returns such bytes and \<open>writei\<close> replaces them.
\<close>

section \<open>The blocks of a file\<close>

definition fblk :: "'z icache_scheme \<Rightarrow> nat \<Rightarrow> nat \<Rightarrow> u32" where
  "fblk s ip b = (if b < NDIRECT then i_addrs (inodes s ! ip) ! b
     else get32 (view s (i_addrs (inodes s ! ip) ! NDIRECT)) (4 * (b - NDIRECT)))"

definition blocks_ok :: "'z icache_scheme \<Rightarrow> nat \<Rightarrow> nat \<Rightarrow> bool" where
  "blocks_ok s ip nb \<longleftrightarrow> i_dev (inodes s ! ip) = 1 \<and> nb \<le> MAXFILE \<and>
     (\<forall>b < nb. fblk s ip b \<noteq> 0 \<and> fblk s ip b < disksize s \<and> length (view s (fblk s ip b)) = BSIZE \<and>
        (\<forall>c < nb. fblk s ip b = fblk s ip c \<longrightarrow> b = c)) \<and>
     (NDIRECT < nb \<longrightarrow> i_addrs (inodes s ! ip) ! NDIRECT \<noteq> 0 \<and> i_addrs (inodes s ! ip) ! NDIRECT < disksize s \<and>
        (\<forall>b < nb. fblk s ip b \<noteq> i_addrs (inodes s ! ip) ! NDIRECT))"

definition fbyte :: "'z icache_scheme \<Rightarrow> nat \<Rightarrow> nat \<Rightarrow> u8" where
  "fbyte s ip k = view s (fblk s ip (k div BSIZE)) ! (k mod BSIZE)"

definition file_bytes :: "'z icache_scheme \<Rightarrow> nat \<Rightarrow> nat \<Rightarrow> nat \<Rightarrow> u8 list" where
  "file_bytes s ip off n = map (fbyte s ip) [off..<off + n]"

lemma blocks_okD:
  assumes "blocks_ok s ip nb"
  shows "i_dev (inodes s ! ip) = 1" "nb \<le> MAXFILE" "b < nb \<Longrightarrow> fblk s ip b \<noteq> 0" "b < nb \<Longrightarrow> fblk s ip b < disksize s"
    "b < nb \<Longrightarrow> length (view s (fblk s ip b)) = BSIZE"
    "b < nb \<Longrightarrow> c < nb \<Longrightarrow> fblk s ip b = fblk s ip c \<Longrightarrow> b = c"
    "NDIRECT < nb \<Longrightarrow> i_addrs (inodes s ! ip) ! NDIRECT \<noteq> 0"
    "NDIRECT < nb \<Longrightarrow> i_addrs (inodes s ! ip) ! NDIRECT < disksize s"
    "NDIRECT < nb \<Longrightarrow> b < nb \<Longrightarrow> fblk s ip b \<noteq> i_addrs (inodes s ! ip) ! NDIRECT"
  using assms unfolding blocks_ok_def by blast+

lemma more_icache: "bcache.more t = bcache.more s \<Longrightarrow> inodes t = inodes s \<and> sb t = sb s"
  for s t :: "'z icache_scheme"
  by (cases s, cases t) simp

lemma kept_inodes: "kept s t \<Longrightarrow> inodes t = inodes s" for s t :: "'z icache_scheme"
  using more_icache [of t s] by (simp add: kept_def)

lemma same_view:
  assumes "kept s t" "view t = view s"
  shows "fblk t ip b = fblk s ip b" "blocks_ok t ip nb = blocks_ok s ip nb" "file_bytes t ip off n = file_bytes s ip off n"
proof -
  have i: "inodes t = inodes s" "disksize t = disksize s" using kept_inodes [OF assms(1)] kept_size [OF assms(1)] .
  show f: "fblk t ip b = fblk s ip b" for b using i assms(2) by (simp add: fblk_def)
  show "blocks_ok t ip nb = blocks_ok s ip nb" using i assms(2) f by (simp add: blocks_ok_def)
  show "file_bytes t ip off n = file_bytes s ip off n" using assms(2) f by (simp add: file_bytes_def fbyte_def)
qed

lemma bmap_ok:
  assumes "room s" "blocks_ok s ip nb" "unat bn < nb"
  obtains t where "bmap ip bn s = Ok (fblk s ip (unat bn)) t" "room t" "kept s t" "view t = view s" "disk t = disk s"
    "disk_log t = disk_log s" "dirty t = dirty s"
proof (cases "unat bn < NDIRECT")
  case True
  then have "bmap ip bn s = Ok (fblk s ip (unat bn)) s"
    using blocks_okD(3) [OF assms(2,3)] by (simp add: bmap_def fblk_def Let_def)
  then show ?thesis using that assms(1) by simp
next
  case False
  note d = blocks_okD [OF assms(2)]
  let ?i = "i_addrs (inodes s ! ip) ! NDIRECT"
  have n: "NDIRECT < nb" using False assms(3) by simp
  obtain b t u where u: "bread 1 ?i s = Ok b t" "b_data (bufs t ! b) = view s ?i" "brelse b t = Ok () u" "room u" "kept s u"
    "bcache.more t = bcache.more s" "view u = view s" "disk u = disk s" "disk_log u = disk_log s" "dirty u = dirty s"
    by (rule bread_brelse [OF assms(1) d(8) [OF n]])
  have l: "unat bn - NDIRECT < NINDIRECT" using d(2) assms(3) False by simp
  have "bmap ip bn s = Ok (fblk s ip (unat bn)) u"
    using False l d(1) d(7) [OF n] d(3) [OF assms(3)] u(1-3) by (simp add: bmap_def fblk_def Let_def)
  then show ?thesis using that u(4,5,7-10) by blast
qed

section \<open>Reading\<close>

lemma chunk_nat: "unat (chunk n tot off) = min (unat (n - tot)) (BSIZE - unat off mod BSIZE)"
proof -
  have a: "unat (off mod 512) = unat off mod 512" by (simp add: unat_mod)
  have b: "off mod 512 \<le> 512" unfolding word_le_nat_alt a by simp
  have "unat (512 - off mod 512) = unat (512 :: u32) - unat (off mod 512)" by (rule unat_sub [OF b])
  then have c: "unat (512 - off mod 512) = 512 - unat off mod 512" unfolding a by simp
  have "unat (min x y) = min (unat x) (unat y)" for x y :: u32 by (simp add: min_def word_le_nat_alt)
  then have "unat (chunk n tot off) = min (unat (n - tot)) (unat (512 - off mod 512))" by (simp only: chunk_def of_nat_numeral)
  then show ?thesis unfolding c .
qed

lemma in_block:
  fixes off i :: nat
  assumes "off mod BSIZE + i < BSIZE"
  shows "(off + i) div BSIZE = off div BSIZE" "(off + i) mod BSIZE = off mod BSIZE + i"
proof -
  let ?q = "off div 512" and ?x = "off mod 512 + i"
  have e: "off + i = ?q * 512 + ?x" using div_mult_mod_eq [of off 512] by linarith
  have "(?q * 512 + ?x) div 512 = ?q" "(?q * 512 + ?x) mod 512 = ?x"
    using assms by (simp_all only: div_mult_self3 mod_mult_self3 div_less mod_less)
  then show "(off + i) div BSIZE = off div BSIZE" "(off + i) mod BSIZE = off mod BSIZE + i" by (simp_all only: e)
qed

lemma block_slice:
  assumes "length (view s (fblk s ip (off div BSIZE))) = BSIZE" "m \<le> BSIZE - off mod BSIZE"
  shows "take m (drop (off mod BSIZE) (view s (fblk s ip (off div BSIZE)))) = file_bytes s ip off m"
proof (rule nth_equalityI)
  show "length (take m (drop (off mod BSIZE) (view s (fblk s ip (off div BSIZE))))) = length (file_bytes s ip off m)"
    using assms by (simp add: file_bytes_def)
  fix i assume "i < length (take m (drop (off mod BSIZE) (view s (fblk s ip (off div BSIZE)))))"
  then have i: "i < m" by simp
  have "off mod BSIZE + i < BSIZE" using i assms(2) by linarith
  note in_block [OF this]
  then show "take m (drop (off mod BSIZE) (view s (fblk s ip (off div BSIZE)))) ! i = file_bytes s ip off m ! i"
    using i assms by (simp add: file_bytes_def fbyte_def)
qed

lemma file_bytes_add: "file_bytes s ip off m @ file_bytes s ip (off + m) n = file_bytes s ip off (m + n)"
  unfolding file_bytes_def map_append [symmetric] upt_add_eq_append [OF le_add1, symmetric] by (simp add: add.assoc)

lemma rest_nat:
  fixes n tot m :: u32
  assumes "m \<le> n - tot"
  shows "unat (n - (tot + m)) = unat (n - tot) - unat m"
proof -
  have "n - (tot + m) = n - tot - m" by simp
  then show ?thesis using unat_sub [OF assms] by (simp only:)
qed

lemma chunk_step:
  assumes "tot < n" "unat off + unat (n - tot) \<le> BSIZE * nb" "nb \<le> MAXFILE" "m = chunk n tot off"
  shows "unat off div BSIZE < nb" "0 < unat m" "unat m \<le> BSIZE - unat off mod BSIZE" "unat (n - tot) = unat m + unat (n - (tot + m))"
    "unat (off + m) = unat off + unat m" "unat (tot + m) = unat tot + unat m" "tot + m \<le> n"
proof -
  have d: "unat (n - tot) = unat n - unat tot" "unat tot < unat n" using unat_sub [OF less_imp_le [OF assms(1)]] assms(1) by (simp_all add: word_less_nat_alt)
  have m: "unat m = min (unat (n - tot)) (512 - unat off mod 512)" using assms(4) chunk_nat by simp
  have p: "0 < unat (n - tot)" using d by simp
  then have "unat off < 512 * nb" using assms(2) by linarith
  then show "unat off div BSIZE < nb" by (simp add: less_mult_imp_div_less mult.commute)
  have "unat off mod 512 < 512" by simp
  then show "0 < unat m" using m p by linarith
  show "unat m \<le> BSIZE - unat off mod BSIZE" using m by simp
  have le: "m \<le> n - tot" using m by (simp add: word_le_nat_alt)
  have ul: "unat m \<le> unat (n - tot)" using le by (simp add: word_le_nat_alt)
  show "unat (n - tot) = unat m + unat (n - (tot + m))" using rest_nat [OF le] ul by simp
  have "unat off + unat m < 2 ^ 32" using assms(2,3) ul by simp
  then show "unat (off + m) = unat off + unat m" by (simp add: unat_word_ariths)
  have b: "unat n < 2 ^ 32" by (rule u32_bound)
  have "unat tot + unat m < 2 ^ 32" using ul d b by linarith
  then show t: "unat (tot + m) = unat tot + unat m" by (simp add: unat_word_ariths)
  show "tot + m \<le> n" unfolding word_le_nat_alt t using ul d by linarith
qed

lemma readi_loop_ok:
  assumes "room s" "blocks_ok s ip nb" "unat off + unat (n - tot) \<le> BSIZE * nb" "tot \<le> n"
  shows "returns (readi_loop ip off n tot dst s) (\<lambda>d t. d = dst @ file_bytes s ip (unat off) (unat (n - tot)) \<and>
     room t \<and> kept s t \<and> view t = view s \<and> disk t = disk s \<and> disk_log t = disk_log s)"
  using assms
proof (induction "unat (n - tot)" arbitrary: off tot dst s rule: less_induct)
  case less
  show ?case
  proof (cases "tot < n")
    case False
    then have "n - tot = 0" using less.prems(4) by simp
    then show ?thesis using False less.prems(1) by (simp add: readi_loop.simps file_bytes_def)
  next
    case True
    note d = blocks_okD [OF less.prems(2)]
    define m where "m = chunk n tot off"
    note c = chunk_step [OF True less.prems(3) d(2) m_def]
    have bn: "unat (off div of_nat BSIZE) = unat off div BSIZE" by (simp add: unat_div)
    then have bl: "unat (off div of_nat BSIZE) < nb" using c(1) by simp
    let ?a = "fblk s ip (unat off div BSIZE)"
    obtain t1 where 1: "bmap ip (off div of_nat BSIZE) s = Ok ?a t1" "room t1" "kept s t1" "view t1 = view s" "disk t1 = disk s"
        "disk_log t1 = disk_log s"
      using bmap_ok [OF less.prems(1,2) bl] bn by metis
    have dv: "i_dev (inodes t1 ! ip) = 1" using kept_inodes [OF 1(3)] d(1) by simp
    have sz: "?a < disksize t1" using d(4) [OF c(1)] kept_size [OF 1(3)] by simp
    obtain b t2 t3 where 2: "bread 1 ?a t1 = Ok b t2" "b_data (bufs t2 ! b) = view t1 ?a" "brelse b t2 = Ok () t3" "room t3"
        "kept t1 t3" "view t3 = view t1" "disk t3 = disk t1" "disk_log t3 = disk_log t1"
      by (rule bread_brelse [OF 1(2) sz])
    have om: "unat (off mod of_nat BSIZE) = unat off mod BSIZE" by (simp add: unat_mod)
    have sl: "take (unat m) (drop (unat off mod BSIZE) (view s ?a)) = file_bytes s ip (unat off) (unat m)"
      by (rule block_slice [OF d(5) [OF c(1)] c(3)])
    let ?dst = "dst @ file_bytes s ip (unat off) (unat m)"
    have e: "readi_loop ip off n tot dst s = readi_loop ip (off + m) n (tot + m) ?dst t3"
      using True 1(1,4) 2(1-3) dv om sl by (simp add: readi_loop.simps [of ip off n tot dst s] m_def [symmetric] Let_def)
    note k = kept_trans [OF 1(3) 2(5)]
    have v: "view t3 = view s" using 1(4) 2(6) by simp
    note sv = same_view [OF k v]
    have "returns (readi_loop ip (off + m) n (tot + m) ?dst t3) (\<lambda>d t. d = ?dst @ file_bytes t3 ip (unat (off + m)) (unat (n - (tot + m))) \<and>
       room t \<and> kept t3 t \<and> view t = view t3 \<and> disk t = disk t3 \<and> disk_log t = disk_log t3)"
    proof (rule less.hyps)
      show "unat (n - (tot + m)) < unat (n - tot)" using c(2,4) by linarith
      show "unat (off + m) + unat (n - (tot + m)) \<le> BSIZE * nb" using less.prems(3) c(4,5) by linarith
    qed (use 2(4) sv(2) less.prems(2) c(7) in simp_all)
    then show ?thesis
      unfolding e
      by (rule returns_mono)
        (use sv(3) c(4,5) file_bytes_add [of s ip "unat off" "unat m"] v k 1(5,6) 2(7,8) in \<open>auto intro: kept_trans\<close>)
  qed
qed

section \<open>Logged writes\<close>

text \<open>
  \<open>logged k s t\<close>: up to \<open>k\<close> blocks were added to the transaction, and nothing else of the log,
  the disk and the layers above has changed.
\<close>

definition logged :: "nat \<Rightarrow> 'z logrec_scheme \<Rightarrow> 'z logrec_scheme \<Rightarrow> bool" where
  "logged k s t \<longleftrightarrow> balanced s t \<and> disksize t = disksize s \<and> logrec.more t = logrec.more s \<and> log_size t = log_size s \<and>
     outstanding t = outstanding s \<and> lh_n t \<le> lh_n s + int k \<and> lh_n s \<le> lh_n t \<and> card (dirty t) \<le> card (dirty s) + k \<and>
     disk t = disk s \<and> disk_log t = disk_log s"

lemma logged_trans: "logged k s t \<Longrightarrow> logged l t u \<Longrightarrow> logged (k + l) s u"
  using balanced_trans [of s t u] by (simp add: logged_def)

lemma logged_mono: "logged k s t \<Longrightarrow> k \<le> l \<Longrightarrow> logged l s t"
  by (auto simp: logged_def)

lemma kept_logged: "kept s t \<Longrightarrow> dirty t = dirty s \<Longrightarrow> disk t = disk s \<Longrightarrow> disk_log t = disk_log s \<Longrightarrow> logged 0 s t"
  for s t :: "'z logrec_scheme"
  using more_log [of t s] by (cases s; cases t) (simp add: logged_def kept_def)

lemma logged_inodes: "logged k s t \<Longrightarrow> inodes t = inodes s" for s t :: "'z icache_scheme"
  by (cases s; cases t) (simp add: logged_def)

text \<open>The header entry that \<open>log_write\<close> makes for block \<open>x\<close>.\<close>

definition log_entry :: "int \<Rightarrow> 'z logrec_scheme \<Rightarrow> 'z logrec_scheme" where
  "log_entry x s =
     (let i = absorb_slot x s; s = s\<lparr>lh_block := (lh_block s)[i := x]\<rparr> in
      if int i = lh_n s then s\<lparr>lh_n := lh_n s + 1\<rparr> else s)"

lemma log_entry_fields [simp]:
  "bufs (log_entry x s) = bufs s" "sleeps (log_entry x s) = sleeps s" "b_next (log_entry x s) = b_next s"
  "b_prev (log_entry x s) = b_prev s" "disk (log_entry x s) = disk s" "disksize (log_entry x s) = disksize s"
  "disk_log (log_entry x s) = disk_log s" "procs (log_entry x s) = procs s" "balanced u (log_entry x s) = balanced u s"
  "logrec.more (log_entry x s) = logrec.more s" "log_size (log_entry x s) = log_size s"
  "outstanding (log_entry x s) = outstanding s"
  by (simp_all add: log_entry_def Let_def balanced_def)

lemma log_entry_count: "lh_n s \<le> lh_n (log_entry x s)" "lh_n (log_entry x s) \<le> lh_n s + 1"
  by (simp_all add: log_entry_def Let_def)

lemma log_fields_locked:
  "logrec.more (released l s) = logrec.more s" "logrec.more (acquired l s) = logrec.more s"
  "log_size (released l s) = log_size s" "log_size (acquired l s) = log_size s"
  "outstanding (released l s) = outstanding s" "outstanding (acquired l s) = outstanding s"
  "lh_n (released l s) = lh_n s" "lh_n (acquired l s) = lh_n s"
  "logrec.more (upd_buf b f s) = logrec.more s" "log_size (upd_buf b f s) = log_size s"
  "outstanding (upd_buf b f s) = outstanding s" "lh_n (upd_buf b f s) = lh_n s"
  by (simp_all add: acquired_def released_def pushed_def popped_def upd_lock_def upd_buf_def)

lemma log_write_ok:
  assumes "cache_ok {b} s" "bkey (bufs s ! b) = (1, n)" "b_valid (bufs s ! b)"
    and l: "lh_n s < LOGSIZE" "lh_n s < log_size s - 1" "1 \<le> outstanding s"
  shows "\<exists>t. log_write b s = Ok () t \<and> cache_ok {b} t \<and> logged 1 s t \<and> view t = view s \<and> dirty t = insert n (dirty s) \<and>
     bufs t = (bufs s)[b := (bufs s ! b)\<lparr>b_dirty := True\<rparr>]"
proof -
  note c = cache_okD [OF assms(1)]
  have b: "b < NBUF" using c(3) by auto
  have cl: "can_lock LogLock s" using c(1) by (rule idle_lock)
  let ?a = "acquired LogLock s" and ?x = "sint (b_blockno (bufs s ! b))" and ?k = "(bufs s ! b)\<lparr>b_dirty := True\<rparr>"
  let ?v = "upd_buf b (\<lambda>k. k\<lparr>b_dirty := True\<rparr>) (log_entry ?x ?a)"
  let ?t = "released LogLock ?v"
  have bv: "balanced ?a ?v" by simp
  have "log_write b s = release LogLock ?v"
    using l by (simp add: log_write_def acquire_ok [OF cl] log_entry_def Let_def)
  then have e: "log_write b s = Ok () ?t" using release_balanced(1) [OF cl bv] by simp
  have bal: "balanced s ?t" by (rule release_balanced(2) [OF cl bv])
  have bt: "bufs ?t = (bufs s)[b := ?k]" by simp
  have kt: "keys_ok (bufs ?t)" unfolding bt using c(2,4) b by (intro keys_ok_refresh) (simp_all add: bkey_def)
  have ok: "cache_ok {b} ?t"
  proof (rule cache_ok_step [OF assms(1) b bal _ bt _ _ kt, where h = True])
    show "\<exists>xs. buffers ?t xs \<and> set xs = {..<NBUF}" using assms(1) by (simp add: cache_ok_def)
    show "buf_ok True (my_pid s) (disk ?t) (sleeps ?t (BufSleep b)) ?k"
      using c(6) [OF b] assms(2,3) by (auto simp: buf_ok_def bkey_def)
  qed auto
  have vw: "view ?t = view s"
  proof
    fix m
    show "view ?t m = view s m"
    proof (cases "m = n")
      case True
      then show ?thesis
        using view_new [OF ok b, of ?k n] view_new [OF assms(1) b refl assms(2)] b c(2) assms(2,3) by (simp add: bkey_def)
    next
      case False
      then show ?thesis using view_other [OF _ bt, of m] b c(2) assms(2) by (simp add: bkey_def)
    qed
  qed
  have d: "dirty ?t = insert n (dirty s)"
  proof (rule set_eqI)
    fix m
    have "m \<in> dirty ?t \<longleftrightarrow> (\<exists>j < NBUF. bkey (((bufs s)[b := ?k]) ! j) = (1, m) \<and> b_dirty (((bufs s)[b := ?k]) ! j))"
      using dirty_iff [of m ?t] c(2) by simp
    also have "\<dots> \<longleftrightarrow> m = n \<or> m \<in> dirty s"
      using dirty_iff [of m s] c(2) b assms(2) by (auto simp: nth_list_update bkey_def)
    finally show "m \<in> dirty ?t \<longleftrightarrow> m \<in> insert n (dirty s)" by simp
  qed
  have "card (dirty ?t) \<le> card (dirty s) + 1" unfolding d using finite_dirty [of s] by (simp add: card_insert_if)
  moreover have "lh_n ?t \<le> lh_n s + 1" "lh_n s \<le> lh_n ?t"
    using log_entry_count [where s = ?a and x = ?x] by (simp_all add: log_fields_locked)
  ultimately have "logged 1 s ?t" using bal by (simp add: logged_def log_fields_locked)
  then show ?thesis using e ok vw d bt by blast
qed

text \<open>Room in the log for \<open>k\<close> more blocks.\<close>

definition log_room :: "nat \<Rightarrow> 'z logrec_scheme \<Rightarrow> bool" where
  "log_room k s \<longleftrightarrow> cache_ok {} s \<and> lh_n s + int k \<le> LOGSIZE \<and> lh_n s + int k \<le> log_size s - 1 \<and> 1 \<le> outstanding s \<and>
     card (dirty s) + k < NBUF"

lemma log_room_room: "log_room k s \<Longrightarrow> room s"
  by (simp add: log_room_def room_def)

lemma log_room_step: "log_room (k + l) s \<Longrightarrow> logged k s t \<Longrightarrow> cache_ok {} t \<Longrightarrow> log_room l t"
  by (auto simp: log_room_def logged_def)

text \<open>Changing a block in a transaction.\<close>

lemma update_block:
  assumes "log_room 1 s" "n < disksize s"
  obtains b t1 t2 t3 where "bread 1 n s = Ok b t1" "log_write b (upd_buf b (\<lambda>k. k\<lparr>b_data := f (b_data k)\<rparr>) t1) = Ok () t2"
    "brelse b t2 = Ok () t3" "cache_ok {} t3" "logged 1 s t3" "view t3 = (view s)(n := f (view s n))"
proof -
  have r: "cache_ok {} s" "card (dirty s) < NBUF" using assms(1) by (simp_all add: log_room_def)
  obtain b t1 where 1: "bread 1 n s = Ok b t1" "b < NBUF" "cache_ok {b} t1" "kept s t1"
      "bkey (bufs t1 ! b) = (1, n)" "b_valid (bufs t1 ! b)" "b_data (bufs t1 ! b) = view s n" "view t1 = view s"
      "dirty t1 = dirty s" "disk t1 = disk s" "disk_log t1 = disk_log s"
    using bread_ok [OF r(1) assms(2)] r(2) by auto
  let ?u = "upd_buf b (\<lambda>k. k\<lparr>b_data := f (b_data k)\<rparr>) t1"
  note 2 = set_data_ok [OF 1(3) _ 1(5,6), of ?u "\<lambda>k. f (b_data k)", simplified]
  have l: "b < length (bufs t1)" using cache_okD(2) [OF 1(3)] 1(2) by simp
  have bu: "bkey (bufs ?u ! b) = (1, n)" "b_valid (bufs ?u ! b)" using 1(5,6) l by (simp_all add: bkey_def)
  have lu: "lh_n ?u = lh_n s" "log_size ?u = log_size s" "outstanding ?u = outstanding s"
    using kept_log [OF 1(4)] by (simp_all add: log_fields_locked)
  have lr: "lh_n ?u < LOGSIZE" "lh_n ?u < log_size ?u - 1" "1 \<le> outstanding ?u"
    using assms(1) lu by (simp_all add: log_room_def)
  obtain t2 where 3: "log_write b ?u = Ok () t2" "cache_ok {b} t2" "logged 1 ?u t2" "view t2 = view ?u" "dirty t2 = insert n (dirty ?u)"
      "bufs t2 = (bufs ?u)[b := (bufs ?u ! b)\<lparr>b_dirty := True\<rparr>]"
    using log_write_ok [OF 2(1) bu lr] by auto
  have b2: "bkey (bufs t2 ! b) = (1, n)" "b_valid (bufs t2 ! b)" using 3(6) bu l by (simp_all add: bkey_def)
  obtain t3 where 4: "brelse b t2 = Ok () t3" "cache_ok {} t3" "kept t2 t3" "view t3 = view t2" "dirty t3 = dirty t2"
      "disk t3 = disk t2" "disk_log t3 = disk_log t2"
    using brelse_ok [OF 3(2) _ b2] 3(5) by auto
  have "logged 0 s ?u"
    by (rule kept_logged [OF kept_trans [OF 1(4) 2(2)]]) (use 2(4) 1(9-11) in simp_all)
  from logged_trans [OF logged_trans [OF this 3(3)] kept_logged [OF 4(3,5,6,7)]]
  have "logged 1 s t3" by simp
  moreover have "view t3 = (view s)(n := f (view s n))" using 4(4) 3(4) 2(3) 1(7,8) by simp
  ultimately show ?thesis using that 1(1) 3(1) 4(1,2) by blast
qed

lemma length_splice: "i + length ys \<le> length xs \<Longrightarrow> length (splice xs i ys) = length xs"
  by (simp add: splice_def)

lemma nth_splice:
  assumes "i + length ys \<le> length xs" "j < length xs"
  shows "splice xs i ys ! j = (if i \<le> j \<and> j < i + length ys then ys ! (j - i) else xs ! j)"
  using assms by (auto simp: splice_def nth_append)

text \<open>The effect of one turn of the loop of \<open>writei\<close> on the bytes of the file.\<close>

lemma write_chunk:
  assumes "blocks_ok s ip nb" "inodes t = inodes s" "disksize t = disksize s"
    and "a = fblk s ip (off div BSIZE)" "off div BSIZE < nb" "off mod BSIZE + length ys \<le> BSIZE"
    and "view t = (view s)(a := splice (view s a) (off mod BSIZE) ys)"
  shows "blocks_ok t ip nb" "k < BSIZE * nb \<Longrightarrow> fbyte t ip k = (if off \<le> k \<and> k < off + length ys then ys ! (k - off) else fbyte s ip k)"
proof -
  note d = blocks_okD [OF assms(1)]
  have fb: "fblk t ip b = fblk s ip b" if "b < nb" for b
  proof (cases "b < NDIRECT")
    case False
    then have "NDIRECT < nb" using that by simp
    then have "i_addrs (inodes s ! ip) ! NDIRECT \<noteq> a" using d(9) [OF _ assms(5)] assms(4) by auto
    then show ?thesis using False assms(2,7) by (simp add: fblk_def)
  qed (simp add: fblk_def assms(2))
  have la: "length (view s a) = BSIZE" using d(5) [OF assms(5)] assms(4) by simp
  have lv: "length (view t (fblk s ip b)) = BSIZE" if "b < nb" for b
    using d(5) [OF that] la assms(6,7) by (simp add: length_splice)
  show "blocks_ok t ip nb"
    using assms(1) fb lv unfolding blocks_ok_def assms(2,3) by simp
  show "fbyte t ip k = (if off \<le> k \<and> k < off + length ys then ys ! (k - off) else fbyte s ip k)" if k: "k < BSIZE * nb"
  proof -
    let ?b = "k div 512" and ?j = "k mod 512"
    have b: "?b < nb" using k by (simp add: less_mult_imp_div_less mult.commute)
    have kd: "k = 512 * ?b + ?j" and od: "off = 512 * (off div 512) + off mod 512" by simp_all
    show ?thesis
    proof (cases "?b = off div 512")
      case True
      have "off \<le> k \<and> k < off + length ys \<longleftrightarrow> off mod 512 \<le> ?j \<and> ?j < off mod 512 + length ys" "k - off = ?j - off mod 512"
        using kd od unfolding True by linarith+
      moreover have "fbyte t ip k = splice (view s a) (off mod 512) ys ! ?j"
        using fb [OF b] True assms(4,7) by (simp add: fbyte_def)
      moreover have "fbyte s ip k = view s a ! ?j" using True assms(4) by (simp add: fbyte_def)
      ultimately show ?thesis using nth_splice [of "off mod 512" ys "view s a" ?j] la assms(6) by simp
    next
      case False
      then have "fblk s ip ?b \<noteq> a" using d(6) [OF b assms(5)] assms(4) by auto
      then have "fbyte t ip k = fbyte s ip k" using fb [OF b] assms(7) by (simp add: fbyte_def)
      moreover have "\<not> (off \<le> k \<and> k < off + length ys)"
      proof
        assume r: "off \<le> k \<and> k < off + length ys"
        then have "off mod BSIZE + (k - off) < BSIZE" using assms(6) by linarith
        from in_block(1) [OF this] show False using False r by simp
      qed
      ultimately show ?thesis by auto
    qed
  qed
qed

lemma logged_size: "logged k s t \<Longrightarrow> disksize t = disksize s"
  by (simp add: logged_def)

lemma block_end:
  fixes x m :: nat
  assumes "m = 512 - x mod 512"
  shows "(x + m) mod 512 = 0"
proof -
  obtain q r where "x = q * 512 + r" "r < 512" using div_mult_mod_eq [of x 512] mod_less_divisor [of 512 x] by (metis zero_less_numeral)
  then have "x + m = 512 * Suc q" using assms by simp
  then show ?thesis by simp
qed

lemma budget_step:
  fixes a a' m r B :: nat
  assumes "a + r \<le> 512 * B" "m = 512 - r" "r < 512" "m + a' = a"
  shows "a' + 0 \<le> 512 * (B - 1)"
  using assms by (cases B) auto

lemma writei_loop_ok:
  assumes "log_room B s" "blocks_ok s ip nb" "unat off + unat (n - tot) \<le> BSIZE * nb" "tot \<le> n" "unat n \<le> length src"
    and "tot < n \<longrightarrow> unat (n - tot) + unat off mod BSIZE \<le> BSIZE * B"
  shows "returns (writei_loop ip src off n tot s) (\<lambda>r t. r = off + (n - tot) \<and> cache_ok {} t \<and> logged B s t \<and> blocks_ok t ip nb \<and>
     (\<forall>k < BSIZE * nb. fbyte t ip k =
       (if unat off \<le> k \<and> k < unat off + unat (n - tot) then src ! (unat tot + (k - unat off)) else fbyte s ip k)))"
  using assms
proof (induction "unat (n - tot)" arbitrary: off tot s B rule: less_induct)
  case less
  have ck: "cache_ok {} s" using less.prems(1) by (simp add: log_room_def)
  show ?case
  proof (cases "tot < n")
    case False
    then have "n - tot = 0" using less.prems(4) by simp
    moreover have "logged B s s" by (simp add: logged_def)
    ultimately show ?thesis using False ck less.prems(2) by (auto simp: writei_loop.simps)
  next
    case True
    note d = blocks_okD [OF less.prems(2)]
    define m where "m = chunk n tot off"
    note c = chunk_step [OF True less.prems(3) d(2) m_def]
    have mm: "unat m = min (unat (n - tot)) (512 - unat off mod 512)" unfolding m_def by (rule chunk_nat)
    have bp: "0 < B" using less.prems(6) True c(2,4) by (cases B) auto
    have bn: "unat (off div of_nat BSIZE) = unat off div BSIZE" by (simp add: unat_div)
    then have bl: "unat (off div of_nat BSIZE) < nb" using c(1) by simp
    let ?a = "fblk s ip (unat off div BSIZE)" and ?ys = "take (unat m) (drop (unat tot) src)"
    obtain t1 where 1: "bmap ip (off div of_nat BSIZE) s = Ok ?a t1" "room t1" "kept s t1" "view t1 = view s" "disk t1 = disk s"
        "disk_log t1 = disk_log s" "dirty t1 = dirty s"
      using bmap_ok [OF log_room_room [OF less.prems(1)] less.prems(2) bl] bn by metis
    have lg1: "logged 0 s t1" by (rule kept_logged [OF 1(3,7,5,6)])
    have lr1: "log_room (1 + (B - 1)) t1" using log_room_step [of 0 B s t1] less.prems(1) lg1 1(2) bp by (simp add: room_def)
    have dv: "i_dev (inodes t1 ! ip) = 1" using kept_inodes [OF 1(3)] d(1) by simp
    have sz: "?a < disksize t1" using d(4) [OF c(1)] kept_size [OF 1(3)] by simp
    have om: "unat (off mod of_nat BSIZE) = unat off mod BSIZE" by (simp add: unat_mod)
    let ?f = "\<lambda>x. splice x (unat off mod BSIZE) ?ys"
    have lr: "log_room 1 t1" using lr1 by (auto simp: log_room_def)
    obtain b t2 t3 t4 where 2: "bread 1 ?a t1 = Ok b t2" "log_write b (upd_buf b (\<lambda>k. k\<lparr>b_data := ?f (b_data k)\<rparr>) t2) = Ok () t3"
        "brelse b t3 = Ok () t4" "cache_ok {} t4" "logged 1 t1 t4" "view t4 = (view t1)(?a := ?f (view t1 ?a))"
      by (rule update_block [OF lr sz])
    have e: "writei_loop ip src off n tot s = writei_loop ip src (off + m) n (tot + m) t4"
      using True 1(1) 2(1-3) dv om by (simp add: writei_loop.simps [of ip src off n tot s] m_def [symmetric] Let_def)
    have lg: "logged 1 s t4" using logged_trans [OF lg1 2(5)] by simp
    have lr4: "log_room (B - 1) t4" by (rule log_room_step [OF lr1 2(5,4)])
    have ut: "unat (tot + m) \<le> unat n" using c(7) by (simp add: word_le_nat_alt)
    have ly: "length ?ys = unat m" using less.prems(5) c(6) ut by simp
    have i4: "inodes t4 = inodes s" using logged_inodes [OF lg] .
    have v4: "view t4 = (view s)(?a := splice (view s ?a) (unat off mod BSIZE) ?ys)" using 2(6) 1(4) by simp
    have fit: "unat off mod BSIZE + length ?ys \<le> BSIZE"
    proof -
      have "unat off mod 512 < 512" by simp
      then show ?thesis using min.cobounded2 [of "unat (n - tot)" "512 - unat off mod 512"] ly mm by linarith
    qed
    note w = write_chunk [OF less.prems(2) i4 logged_size [OF lg] refl c(1) fit v4]
    have bud: "tot + m < n \<longrightarrow> unat (n - (tot + m)) + unat (off + m) mod BSIZE \<le> BSIZE * (B - 1)"
    proof
      assume "tot + m < n"
      then have "0 < unat (n - (tot + m))" by (simp add: unat_gt_0)
      then have m': "unat m = 512 - unat off mod 512" using mm c(4) by simp
      have o': "unat (off + m) mod 512 = 0" unfolding c(5) by (rule block_end [OF m'])
      have "unat (n - tot) + unat off mod 512 \<le> 512 * B" using less.prems(6) True by simp
      moreover have "unat off mod 512 < 512" by simp
      moreover have "unat m + unat (n - (tot + m)) = unat (n - tot)" using c(4) by simp
      ultimately show "unat (n - (tot + m)) + unat (off + m) mod BSIZE \<le> BSIZE * (B - 1)"
        unfolding o' using budget_step [OF _ m'] by blast
    qed
    have ih: "returns (writei_loop ip src (off + m) n (tot + m) t4) (\<lambda>r t. r = off + m + (n - (tot + m)) \<and> cache_ok {} t \<and>
       logged (B - 1) t4 t \<and> blocks_ok t ip nb \<and>
       (\<forall>k < BSIZE * nb. fbyte t ip k =
         (if unat (off + m) \<le> k \<and> k < unat (off + m) + unat (n - (tot + m)) then src ! (unat (tot + m) + (k - unat (off + m)))
          else fbyte t4 ip k)))"
    proof (rule less.hyps)
      show "unat (n - (tot + m)) < unat (n - tot)" using c(2,4) by linarith
      show "unat (off + m) + unat (n - (tot + m)) \<le> BSIZE * nb" using less.prems(3) c(4,5) by linarith
    qed (use lr4 w(1) c(7) less.prems(5) bud in simp_all)
    show ?thesis
      unfolding e
    proof (rule returns_mono [OF ih])
      fix r t
      assume t: "r = off + m + (n - (tot + m)) \<and> cache_ok {} t \<and> logged (B - 1) t4 t \<and> blocks_ok t ip nb \<and>
       (\<forall>k < BSIZE * nb. fbyte t ip k =
         (if unat (off + m) \<le> k \<and> k < unat (off + m) + unat (n - (tot + m)) then src ! (unat (tot + m) + (k - unat (off + m)))
          else fbyte t4 ip k))"
      have lt: "logged B s t" using logged_trans [OF lg, of "B - 1" t] t bp by simp
      have "fbyte t ip k = (if unat off \<le> k \<and> k < unat off + unat (n - tot) then src ! (unat tot + (k - unat off)) else fbyte s ip k)"
        if k: "k < BSIZE * nb" for k
      proof (cases "unat off + unat m \<le> k")
        case True
        then have "unat tot + unat m + (k - (unat off + unat m)) = unat tot + (k - unat off)" by simp
        then show ?thesis using True t k w(2) [OF k] ly c(4-6) by (simp add: add.assoc)
      next
        case False
        then have "?ys ! (k - unat off) = src ! (unat tot + (k - unat off))" if "unat off \<le> k"
          using that ly less.prems(5) c(6) ut by simp
        then show ?thesis using False t k w(2) [OF k] ly c(4,5) by auto
      qed
      then show "r = off + (n - tot) \<and> cache_ok {} t \<and> logged B s t \<and> blocks_ok t ip nb \<and>
        (\<forall>k < BSIZE * nb. fbyte t ip k =
          (if unat off \<le> k \<and> k < unat off + unat (n - tot) then src ! (unat tot + (k - unat off)) else fbyte s ip k))"
        using t lt by simp
    qed
  qed
qed

section \<open>Properties\<close>

definition file_ok :: "'z icache_scheme \<Rightarrow> nat \<Rightarrow> nat \<Rightarrow> bool" where
  "file_ok s ip nb \<longleftrightarrow> blocks_ok s ip nb \<and> i_type (inodes s ! ip) \<noteq> T_DEV \<and> unat (i_size (inodes s ! ip)) \<le> BSIZE * nb"

lemma sint_small:
  assumes "unat (n :: u32) < 2 ^ 31"
  shows "sint n = int (unat n)"
proof -
  have u: "uint n = int (unat n)" by simp
  have "int (unat n) < 2 ^ 31" using of_nat_less_iff [of "unat n" "2 ^ 31", where ?'a = int] assms by simp
  moreover have "- (2 ^ 31) \<le> int (unat n)" by (rule order_trans [of _ 0]) simp_all
  ultimately have "uint n < 2 ^ 31" "- (2 ^ 31) \<le> uint n" unfolding u by this+
  then have "signed_take_bit 31 (uint n) = uint n" by (intro signed_take_bit_int_eq_self) simp_all
  then show ?thesis unfolding u [symmetric] using sint_uint [of n] by simp
qed

lemma readi_ok:
  assumes "room s" "file_ok s ip nb" "unat off \<le> unat (i_size (inodes s ! ip))" "unat off + unat n < 2 ^ 32"
    and m: "m = min (unat n) (unat (i_size (inodes s ! ip)) - unat off)"
  shows "returns (readi ip off n s) (\<lambda>(r, d) t. r = int m \<and> d = file_bytes s ip (unat off) m \<and>
     room t \<and> kept s t \<and> view t = view s \<and> disk t = disk s \<and> disk_log t = disk_log s)"
proof -
  let ?z = "i_size (inodes s ! ip)"
  have b: "blocks_ok s ip nb" "i_type (inodes s ! ip) \<noteq> T_DEV" "unat ?z \<le> 512 * nb" using assms(2) by (simp_all add: file_ok_def)
  have nb: "nb \<le> 140" using blocks_okD(2) [OF b(1)] by simp
  have on: "unat (off + n) = unat off + unat n" using assms(4) by (simp add: unat_word_ariths)
  have g: "\<not> off > ?z" "\<not> off + n < off" using assms(3) on by (simp_all add: word_less_nat_alt)
  define k where "k = (if off + n > ?z then ?z - off else n)"
  have le: "off \<le> ?z" using g by simp
  have uk: "unat k = m" using on unat_sub [OF le] unfolding k_def m by (auto simp: word_less_nat_alt)
  have bd: "unat off + unat (k - 0) \<le> BSIZE * nb" using uk m b(3) assms(3) by simp
  have "unat k < 2 ^ 31" using bd nb by simp
  then have sk: "sint k = int m" unfolding uk [symmetric] by (rule sint_small)
  have e: "readi ip off n s = run (readi_loop ip off k 0 [] s) (\<lambda>dst s. Ok (sint k, dst) s)"
    using b(2) g by (simp add: readi_def Let_def k_def)
  have "returns (readi_loop ip off k 0 [] s) (\<lambda>d t. d = [] @ file_bytes s ip (unat off) (unat (k - 0)) \<and>
     room t \<and> kept s t \<and> view t = view s \<and> disk t = disk s \<and> disk_log t = disk_log s)"
    by (rule readi_loop_ok [OF assms(1) b(1) bd]) simp
  then show ?thesis unfolding e returns_run by (rule returns_mono) (simp add: sk uk)
qed

lemma writei_ok:
  assumes "log_room B s" "file_ok s ip nb" "unat off + unat n \<le> unat (i_size (inodes s ! ip))" "unat n \<le> length src"
    and "unat n + unat off mod BSIZE \<le> BSIZE * B"
  shows "returns (writei ip src off n s) (\<lambda>r t. r = int (unat n) \<and> cache_ok {} t \<and> logged B s t \<and> file_ok t ip nb \<and>
     inodes t = inodes s \<and> (\<forall>k < BSIZE * nb. fbyte t ip k =
       (if unat off \<le> k \<and> k < unat off + unat n then src ! (k - unat off) else fbyte s ip k)))"
proof -
  let ?z = "i_size (inodes s ! ip)"
  have b: "blocks_ok s ip nb" "i_type (inodes s ! ip) \<noteq> T_DEV" "unat ?z \<le> 512 * nb" using assms(2) by (simp_all add: file_ok_def)
  have nb: "nb \<le> 140" using blocks_okD(2) [OF b(1)] by simp
  have lt: "unat off + unat n < 2 ^ 32" using assms(3) b(3) nb by simp
  then have on: "unat (off + n) = unat off + unat n" by (simp add: unat_word_ariths)
  have mx: "unat (of_nat (MAXFILE * BSIZE) :: u32) = 71680" by simp
  have g: "\<not> off > ?z" "\<not> off + n < off" "\<not> off + n > of_nat (MAXFILE * BSIZE)" "\<not> off + n > ?z"
    using assms(3) on b(3) nb unfolding word_less_nat_alt mx by simp_all
  have bd: "unat off + unat (n - 0) \<le> BSIZE * nb" using assms(3) b(3) by simp
  have sn: "sint n = int (unat n)" by (rule sint_small) (use bd nb in simp)
  have "returns (writei_loop ip src off n 0 s) (\<lambda>r t. r = off + (n - 0) \<and> cache_ok {} t \<and> logged B s t \<and> blocks_ok t ip nb \<and>
     (\<forall>k < BSIZE * nb. fbyte t ip k =
       (if unat off \<le> k \<and> k < unat off + unat (n - 0) then src ! (unat (0 :: u32) + (k - unat off)) else fbyte s ip k)))"
    by (rule writei_loop_ok [OF assms(1) b(1) bd _ assms(4)]) (use assms(5) in simp_all)
  then obtain t where t: "writei_loop ip src off n 0 s = Ok (off + n) t" "cache_ok {} t" "logged B s t" "blocks_ok t ip nb"
     "\<forall>k < BSIZE * nb. fbyte t ip k = (if unat off \<le> k \<and> k < unat off + unat n then src ! (k - unat off) else fbyte s ip k)"
    by (auto simp: returns_iff)
  have i: "inodes t = inodes s" using logged_inodes [OF t(3)] .
  have "writei ip src off n s = Ok (int (unat n)) t"
    using b(2) g t(1) i sn by (simp add: writei_def)
  then show ?thesis using t i b by (simp add: file_ok_def)
qed

definition kern_file :: traps where
  "kern_file = kern0\<lparr>outstanding := 1,
     inodes := (inodes kern0)[3 := inode0\<lparr>i_dev := 1, i_inum := 7, i_ref := 1, i_valid := True, i_type := 2, i_size := 1000,
       i_addrs := [100, 101] @ replicate 11 0\<rparr>]\<rparr>"

lemma cache_ok_inodes [simp]:
  "cache_ok H (s\<lparr>inodes := x\<rparr>) = cache_ok H s" "cache_ok H (l\<lparr>outstanding := y\<rparr>) = cache_ok H l"
  by (simp_all add: cache_ok_def idle_def can_lock_def cpu_inv_def me_def cur_def my_pid_def)

lemma kern_file_fields:
  "bufs kern_file = replicate NBUF buf0" "disk kern_file = (\<lambda>_. replicate BSIZE 0)" "disksize kern_file = 1000"
  "inodes kern_file ! 3 = inode0\<lparr>i_dev := 1, i_inum := 7, i_ref := 1, i_valid := True, i_type := 2, i_size := 1000,
       i_addrs := [100, 101] @ replicate 11 0\<rparr>"
  "lh_n kern_file = 0" "outstanding kern_file = 1" "log_size kern_file = 30" "cache_ok {} kern_file"
  using kern0_cache by (simp_all add: kern_file_def kern0_fields)

lemma kern_file_view: "view kern_file n = replicate BSIZE 0"
proof -
  have "lookup kern_file n = None"
    by (simp add: lookup_def kern_file_fields find_index_None buf0_def bkey_def)
  then show ?thesis by (simp add: view_def kern_file_fields)
qed

lemma kern_file_dirty: "dirty kern_file = {}"
  by (auto simp: dirty_def kern_file_fields buf0_def)

lemma kern_file_room: "log_room 2 kern_file" "room kern_file"
proof -
  show "log_room 2 kern_file" by (simp add: log_room_def kern_file_fields kern_file_dirty)
  then show "room kern_file" by (rule log_room_room)
qed

lemma kern_file_ok: "file_ok kern_file 3 2"
proof -
  have b: "fblk kern_file 3 0 = 100" "fblk kern_file 3 1 = 101" by (simp_all add: fblk_def kern_file_fields)
  have two: "b < 2 \<longleftrightarrow> b = 0 \<or> b = 1" for b :: nat by auto
  have "blocks_ok kern_file 3 2" unfolding blocks_ok_def two kern_file_view using b by (auto simp: kern_file_fields)
  then show ?thesis by (simp add: file_ok_def kern_file_fields)
qed

text \<open>
  C29: \<open>readi\<close> of a regular file returns exactly the bytes of the file between the offset and the
  end of the request or of the file, whichever comes first, through direct and indirect
  blocks and across block boundaries, and leaves the contents of all blocks as they were.
\<close>

theorem readi_reads:
  assumes "room s" "file_ok s ip nb" "unat off \<le> unat (i_size (inodes s ! ip))" "unat off + unat n < 2 ^ 32"
  shows "returns (readi ip off n s) (\<lambda>(r, d) t. r = int (length d) \<and>
     d = file_bytes s ip (unat off) (min (unat n) (unat (i_size (inodes s ! ip)) - unat off)) \<and> view t = view s)"
  by (rule returns_mono [OF readi_ok [OF assms refl]]) (auto simp: file_bytes_def)

theorem readi_reads_witness:
  "returns (readi 3 500 600 kern_file) (\<lambda>(r, d) t. r = int (length d) \<and>
     d = file_bytes kern_file 3 500 500 \<and> view t = view kern_file)"
  using readi_reads [OF kern_file_room(2) kern_file_ok, of 500 600] by (simp add: kern_file_fields)

text \<open>
  C28: what \<open>writei\<close> puts into a file is what \<open>readi\<close> then returns from the same place, and no
  other byte of the file changes, provided the log has room for the blocks of the write.
\<close>

theorem writei_readi:
  assumes "log_room B s" "file_ok s ip nb" "unat off + unat n \<le> unat (i_size (inodes s ! ip))" "unat n \<le> length src"
    and "unat n + unat off mod BSIZE \<le> BSIZE * B"
  shows "returns (run (writei ip src off n s) (\<lambda>w t. run (readi ip off n t) (\<lambda>(r, d) u. Ok (w, r, d, t) u)))
     (\<lambda>(w, r, d, t) u. w = int (unat n) \<and> r = w \<and> d = take (unat n) src \<and>
       file_bytes u ip 0 (BSIZE * nb) = splice (file_bytes s ip 0 (BSIZE * nb)) (unat off) (take (unat n) src))"
proof -
  let ?z = "i_size (inodes s ! ip)"
  obtain t where t: "writei ip src off n s = Ok (int (unat n)) t" "cache_ok {} t" "logged B s t" "file_ok t ip nb" "inodes t = inodes s"
     "\<forall>k < BSIZE * nb. fbyte t ip k = (if unat off \<le> k \<and> k < unat off + unat n then src ! (k - unat off) else fbyte s ip k)"
    using writei_ok [OF assms] by (auto simp: returns_iff)
  have b: "unat ?z \<le> 512 * nb" "nb \<le> 140" using assms(2) blocks_okD(2) by (auto simp: file_ok_def)
  have rt: "room t" using log_room_room [OF log_room_step [of B 0 s t]] assms(1) t(2,3) by simp
  have lt: "unat off + unat n < 2 ^ 32" using assms(3) b by simp
  have off: "unat off \<le> unat (i_size (inodes t ! ip))" using assms(3) t(5) by simp
  obtain r d u where u: "readi ip off n t = Ok (r, d) u" "r = int (unat n)" "d = file_bytes t ip (unat off) (unat n)" "kept t u" "view u = view t"
    using readi_ok [OF rt t(4) off lt refl] assms(3) t(5) by (auto simp: returns_iff min_absorb1)
  have d: "d = take (unat n) src"
    unfolding u(3) using t(6) assms(3,4) b(1) by (intro nth_equalityI) (simp_all add: file_bytes_def)
  have "file_bytes u ip 0 (512 * nb) = file_bytes t ip 0 (512 * nb)" by (rule same_view(3) [OF u(4,5)])
  also have "\<dots> = splice (file_bytes s ip 0 (512 * nb)) (unat off) (take (unat n) src)"
  proof (rule nth_equalityI)
    show "length (file_bytes t ip 0 (512 * nb)) = length (splice (file_bytes s ip 0 (512 * nb)) (unat off) (take (unat n) src))"
      using assms(3,4) b(1) by (simp add: length_splice file_bytes_def)
    fix k assume "k < length (file_bytes t ip 0 (512 * nb))"
    then have k: "k < 512 * nb" by (simp add: file_bytes_def)
    then show "file_bytes t ip 0 (512 * nb) ! k = splice (file_bytes s ip 0 (512 * nb)) (unat off) (take (unat n) src) ! k"
      using t(6) assms(3,4) b(1) nth_splice [of "unat off" "take (unat n) src" "file_bytes s ip 0 (512 * nb)" k]
      by (auto simp: file_bytes_def)
  qed
  finally show ?thesis using t(1) u(1,2) d by simp
qed

theorem writei_readi_witness:
  "returns (run (writei 3 [1, 2, 3, 4] 510 4 kern_file) (\<lambda>w t. run (readi 3 510 4 t) (\<lambda>(r, d) u. Ok (w, r, d, t) u)))
     (\<lambda>(w, r, d, t) u. w = 4 \<and> r = w \<and> d = [1, 2, 3, 4] \<and>
       file_bytes u 3 0 1024 = splice (file_bytes kern_file 3 0 1024) 510 [1, 2, 3, 4])"
  using writei_readi [OF kern_file_room(1) kern_file_ok, of 510 4 "[1, 2, 3, 4]"] by (simp add: kern_file_fields)

end
