(* ===== verification/Pipe.thy ===== *)
theory Pipe
  imports Samples
begin

text \<open>
  Pipes as queues of bytes.  The locale \<open>bounded_fifo\<close> is the contract of a bounded queue; the
  ring buffer of a pipe satisfies it, and \<open>pipewrite\<close> and \<open>piperead\<close> append to and take from
  the queue it represents, blocking and waking each other at its two ends.
\<close>

section \<open>Bounded queues\<close>

locale bounded_fifo =
  fixes cap :: nat and ok :: "'q \<Rightarrow> bool" and items :: "'q \<Rightarrow> u8 list"
    and put :: "u8 \<Rightarrow> 'q \<Rightarrow> 'q" and get :: "'q \<Rightarrow> u8 \<times> 'q"
  assumes bound: "ok q \<Longrightarrow> length (items q) \<le> cap"
    and put_item: "ok q \<Longrightarrow> length (items q) < cap \<Longrightarrow> ok (put c q) \<and> items (put c q) = items q @ [c]"
    and get_item: "ok q \<Longrightarrow> items q \<noteq> [] \<Longrightarrow>
      fst (get q) = hd (items q) \<and> ok (snd (get q)) \<and> items (snd (get q)) = tl (items q)"
begin

lemma put_many:
  "ok q \<Longrightarrow> length (items q) + length cs \<le> cap \<Longrightarrow> ok (fold put cs q) \<and> items (fold put cs q) = items q @ cs"
proof (induction cs arbitrary: q)
  case (Cons c cs)
  then have "ok (put c q)" "items (put c q) = items q @ [c]" using put_item [of q c] by simp_all
  then show ?case using Cons.IH [of "put c q"] Cons.prems(2) by simp
qed simp

fun get_many :: "nat \<Rightarrow> 'q \<Rightarrow> u8 list \<times> 'q" where
  "get_many 0 q = ([], q)"
| "get_many (Suc n) q =
     (if items q = [] then ([], q)
      else let (c, q) = get q; (cs, q) = get_many n q in (c # cs, q))"

lemma get_many_items:
  "ok q \<Longrightarrow> fst (get_many n q) = take n (items q) \<and> ok (snd (get_many n q)) \<and>
     items (snd (get_many n q)) = drop n (items q)"
proof (induction n arbitrary: q)
  case (Suc n)
  show ?case
  proof (cases "items q")
    case (Cons c cs)
    obtain x q' where g: "get q = (x, q')" by (cases "get q")
    then have "x = c" "ok q'" "items q' = cs" using get_item [OF Suc.prems] Cons by simp_all
    then show ?thesis using Suc.IH [of q'] Cons g by (simp add: case_prod_beta)
  qed (use Suc.prems in simp)
qed simp

lemma fifo:
  assumes "ok q" "items q = []" "length cs \<le> cap"
  shows "fst (get_many (length cs) (fold put cs q)) = cs"
  using put_many [OF assms(1), of cs] get_many_items [of "fold put cs q" "length cs"] assms by simp

end

section \<open>The ring buffer of a pipe\<close>

definition pipe_ok :: "pipe \<Rightarrow> bool" where
  "pipe_ok k \<longleftrightarrow> length (p_data k) = PIPESIZE \<and> unat (nwrite k - nread k) \<le> PIPESIZE"

definition contents :: "pipe \<Rightarrow> u8 list" where
  "contents k = ring PIPESIZE (p_data k) (nread k) (nwrite k)"

lemma contents_empty: "contents k = [] \<longleftrightarrow> nread k = nwrite k"
  by (simp add: contents_def ring_eq_Nil)

lemma contents_full:
  assumes "pipe_ok k"
  shows "nwrite k = nread k + of_nat PIPESIZE \<longleftrightarrow> length (contents k) = PIPESIZE"
proof -
  have "nwrite k = nread k + of_nat PIPESIZE \<longleftrightarrow> nwrite k - nread k = 512" by (auto simp: algebra_simps)
  also have "\<dots> \<longleftrightarrow> unat (nwrite k - nread k) = unat (512 :: u32)" by (metis unsigned_word_eqI)
  finally show ?thesis by (simp add: contents_def)
qed

interpretation pq: bounded_fifo PIPESIZE pipe_ok contents pipe_put pipe_get
proof
  show "length (contents q) \<le> PIPESIZE" if "pipe_ok q" for q
    using that by (simp add: contents_def pipe_ok_def)
  show "pipe_ok (pipe_put c q) \<and> contents (pipe_put c q) = contents q @ [c]"
    if "pipe_ok q" "length (contents q) < PIPESIZE" for q c
  proof -
    have l: "length (p_data q) = PIPESIZE" "unat (nwrite q - nread q) < PIPESIZE"
      using that by (simp_all add: pipe_ok_def contents_def)
    have "contents (pipe_put c q) = contents q @ [c]"
      using ring_put [of PIPESIZE "p_data q" "nwrite q" "nread q" c] l by (simp add: contents_def pipe_put_def)
    moreover have "unat (nwrite q + 1 - nread q) = unat (nwrite q - nread q) + 1"
      using unat_succ_diff [OF l(2)] by simp
    ultimately show ?thesis using l by (simp add: pipe_ok_def pipe_put_def)
  qed
  show "fst (pipe_get q) = hd (contents q) \<and> pipe_ok (snd (pipe_get q)) \<and> contents (snd (pipe_get q)) = tl (contents q)"
    if "pipe_ok q" "contents q \<noteq> []" for q
  proof -
    have ne: "nread q \<noteq> nwrite q" using that(2) by (simp add: contents_empty)
    show ?thesis
      using that(1) ring_get [OF ne, of PIPESIZE "p_data q"] unat_pred_diff [OF ne]
      by (simp add: pipe_ok_def contents_def pipe_get_def)
  qed
qed

section \<open>Writing\<close>

lemma pipes_locked [simp]:
  "pipes (acquired l s) = pipes s" "pipes (released l s) = pipes s" "pipes (woken c s) = pipes s"
  "files (acquired l s) = files s" "files (released l s) = files s" "files (woken c s) = files s"
  by (simp_all add: acquired_def released_def pushed_def popped_def upd_lock_def woken_def wakeup1_def)

lemma upd_pipe_fields [simp]:
  "pipes (upd_pipe p g s) = (pipes s)(p := g (pipes s p))" "procs (upd_pipe p g s) = procs s"
  "files (upd_pipe p g s) = files s" "balanced u (upd_pipe p g s) = balanced u s"
  "can_lock l (upd_pipe p g s) = can_lock l s" "in_crit l (upd_pipe p g s) = in_crit l s" "cur (upd_pipe p g s) = cur s"
  "my_cpu (upd_pipe p g s) = my_cpu s"
  by (simp_all add: upd_pipe_def balanced_def can_lock_def cpu_inv_def me_def in_crit_def held_def cur_def)

lemma upd_pipe_twice: "upd_pipe p g (upd_pipe p f s) = upd_pipe p (\<lambda>k. g (f k)) s"
  by (simp add: upd_pipe_def)

lemma upd_pipe_id: "upd_pipe p (\<lambda>k. k) s = s"
  by (simp add: upd_pipe_def)

lemma pipe_put_open: "readopen (fold pipe_put cs k) = readopen k"
  by (induction cs arbitrary: k) (simp_all add: pipe_put_def)

lemma pipewrite_loop_room:
  assumes "pipe_ok (pipes s p)" "length (contents (pipes s p)) + length cs \<le> PIPESIZE"
  shows "pipewrite_loop p n (cs @ ds) s = pipewrite_loop p n ds (upd_pipe p (fold pipe_put cs) s)"
  using assms
proof (induction cs arbitrary: s)
  case Nil
  then show ?case by (simp add: upd_pipe_id)
next
  case (Cons c cs)
  let ?k = "pipes s p" and ?t = "upd_pipe p (pipe_put c) s"
  have gap: "length (contents ?k) < PIPESIZE" using Cons.prems(2) by simp
  then have e: "pipewrite_loop p n ((c # cs) @ ds) s = pipewrite_loop p n (cs @ ds) ?t"
    using contents_full [OF Cons.prems(1)] by (simp add: Let_def)
  have k: "pipe_ok (pipe_put c ?k)" "contents (pipe_put c ?k) = contents ?k @ [c]"
    using pq.put_item [OF Cons.prems(1) gap] by simp_all
  have "pipewrite_loop p n (cs @ ds) ?t = pipewrite_loop p n ds (upd_pipe p (fold pipe_put cs) ?t)"
    by (rule Cons.IH) (use k Cons.prems(2) in simp_all)
  then show ?case unfolding e by (simp add: upd_pipe_twice comp_def)
qed

text \<open>The end of an operation on a pipe: the other side is woken and the lock released.\<close>

lemma pipe_finish:
  assumes "idle s" "balanced (acquired (PipeLock p) s) u"
  shows "run (wakeup (Some ch) u) (\<lambda>_ s. run (release (PipeLock p) s) (\<lambda>_ s. Ok r s)) =
      Ok r (released (PipeLock p) (woken (Some ch) u))"
    "balanced s (released (PipeLock p) (woken (Some ch) u))"
proof -
  have c: "can_lock (PipeLock p) s" "can_lock PtableLock s" using assms(1) by (simp_all add: idle_lock)
  have "can_lock PtableLock (acquired (PipeLock p) s)" by (rule can_lock_acquired_other [OF c]) simp
  then have u: "can_lock PtableLock u" using can_lock_balanced [OF assms(2)] by simp
  have b: "balanced (acquired (PipeLock p) s) (woken (Some ch) u)"
    by (rule balanced_trans [OF assms(2) wakeup_eq(2) [OF u]])
  show "run (wakeup (Some ch) u) (\<lambda>_ s. run (release (PipeLock p) s) (\<lambda>_ s. Ok r s)) =
      Ok r (released (PipeLock p) (woken (Some ch) u))"
    by (simp add: wakeup_eq(1) [OF u] release_balanced(1) [OF c(1) b])
  show "balanced s (released (PipeLock p) (woken (Some ch) u))" by (rule release_balanced(2) [OF c(1) b])
qed

lemma pipewrite_fits:
  assumes "idle s" "pipe_ok (pipes s p)" "length (contents (pipes s p)) + nat n \<le> PIPESIZE"
  shows "returns (pipewrite p addr n s) (\<lambda>r t. r = n \<and> balanced s t \<and>
     pipes t = (pipes s)(p := fold pipe_put (take (nat n) addr) (pipes s p)) \<and>
     procs t = procs (wakeup1 (Some (ChanPipeRead p)) s))"
proof -
  let ?a = "acquired (PipeLock p) s" and ?cs = "take (nat n) addr"
  have c: "can_lock (PipeLock p) s" using assms(1) by (rule idle_lock)
  have "pipewrite_loop p n (?cs @ []) ?a = pipewrite_loop p n [] (upd_pipe p (fold pipe_put ?cs) ?a)"
    by (rule pipewrite_loop_room) (use assms in simp_all)
  then have "pipewrite p addr n s = pipewrite_loop p n [] (upd_pipe p (fold pipe_put ?cs) ?a)"
    by (simp add: pipewrite_def acquire_ok [OF c])
  moreover have "balanced ?a (upd_pipe p (fold pipe_put ?cs) ?a)" by simp
  note pipe_finish(1) [OF assms(1) this, of "ChanPipeRead p" n] pipe_finish(2) [OF assms(1) this, of "ChanPipeRead p"]
  ultimately show ?thesis by (simp add: wakeup1_def)
qed

section \<open>Reading\<close>

lemma piperead_copy_eq:
  assumes "pipe_ok (pipes s p)"
  shows "piperead_copy p n acc s =
     (acc @ fst (pq.get_many n (pipes s p)), upd_pipe p (\<lambda>_. snd (pq.get_many n (pipes s p))) s)"
  using assms
proof (induction n arbitrary: acc s)
  case 0
  then show ?case by (simp add: upd_pipe_def)
next
  case (Suc n)
  let ?k = "pipes s p"
  show ?case
  proof (cases "nread ?k = nwrite ?k")
    case True
    then show ?thesis by (simp add: contents_empty upd_pipe_def)
  next
    case False
    obtain c k where g: "pipe_get ?k = (c, k)" by (cases "pipe_get ?k")
    have "pipe_ok k" using pq.get_item [OF Suc.prems] False g by (simp add: contents_empty)
    then show ?thesis
      using False g Suc.IH [of "upd_pipe p (\<lambda>_. k) s" "acc @ [c]"]
      by (simp add: contents_empty case_prod_beta upd_pipe_twice)
  qed
qed

lemma piperead_ok:
  assumes "idle s" "pipe_ok (pipes s p)" "contents (pipes s p) \<noteq> [] \<or> \<not> writeopen (pipes s p)" 
  shows "returns (piperead p n s) (\<lambda>r t. r = (int (length (take (nat n) (contents (pipes s p)))), take (nat n) (contents (pipes s p))) \<and>
     balanced s t \<and> pipe_ok (pipes t p) \<and> contents (pipes t p) = drop (nat n) (contents (pipes s p)) \<and>
     (\<forall>q. q \<noteq> p \<longrightarrow> pipes t q = pipes s q) \<and> procs t = procs (wakeup1 (Some (ChanPipeWrite p)) s))"
proof -
  let ?a = "acquired (PipeLock p) s" and ?g = "pq.get_many (nat n) (pipes s p)"
  have c: "can_lock (PipeLock p) s" using assms(1) by (rule idle_lock)
  have g: "fst ?g = take (nat n) (contents (pipes s p))" "pipe_ok (snd ?g)"
     "contents (snd ?g) = drop (nat n) (contents (pipes s p))"
    using pq.get_many_items [OF assms(2)] by simp_all
  have e: "piperead p n s =
      run (wakeup (Some (ChanPipeWrite p)) (upd_pipe p (\<lambda>_. snd ?g) ?a)) (\<lambda>_ s.
        run (release (PipeLock p) s) (\<lambda>_ s. Ok (int (length (fst ?g)), fst ?g) s))"
    using assms(3) piperead_copy_eq [of ?a p "nat n" "[]"] assms(2)
    by (auto simp: piperead_def piperead_loop_def acquire_ok [OF c] contents_empty)
  have b: "balanced ?a (upd_pipe p (\<lambda>_. snd ?g) ?a)" by simp
  show ?thesis
    unfolding e pipe_finish(1) [OF assms(1) b]
    using pipe_finish(2) [OF assms(1) b, of "ChanPipeWrite p"] g by (simp add: wakeup1_def)
qed

section \<open>Blocking\<close>

text \<open>A writer that finds the pipe full wakes the readers and goes to sleep.\<close>

lemma pipewrite_blocks:
  assumes "idle s" "pipe_ok (pipes s p)" "PIPESIZE < length (contents (pipes s p)) + length (take (nat n) addr)"
    and "ncli (my_cpu s) = 0" "cur s = Some i" "i < length (procs s)" "\<not> killed (procs s ! i)" "readopen (pipes s p)"
    and gap: "gap = PIPESIZE - length (contents (pipes s p))"
  shows "\<exists>t. pipewrite p addr n s = Switch t \<and> in_crit PtableLock t \<and> locked (locks t (PipeLock p)) = 0 \<and>
     pipes t = (pipes s)(p := fold pipe_put (take gap addr) (pipes s p)) \<and>
     procs t = (procs (wakeup1 (Some (ChanPipeRead p)) s))
       [i := (procs (wakeup1 (Some (ChanPipeRead p)) s) ! i)\<lparr>chan := Some (ChanPipeWrite p), pstate := SLEEPING, pcontext := ctx_esp s\<rparr>]"
proof -
  let ?l = "PipeLock p" and ?cs = "take (nat n) addr"
  let ?a = "acquired ?l s" and ?f = "fold pipe_put (take gap addr)"
  let ?b = "upd_pipe p ?f ?a"
  have c: "can_lock ?l s" "can_lock PtableLock s" using assms(1) by (simp_all add: idle_lock)
  have ci: "cpu_inv s" using c by (simp add: can_lock_def)
  have le: "length (contents (pipes s p)) \<le> PIPESIZE" by (rule pq.bound [OF assms(2)])
  have "gap \<le> nat n" using assms(3) gap by simp
  then have tk: "take gap ?cs = take gap addr" by (simp add: take_take min_absorb1)
  have lr: "length (take gap addr) = gap" using assms(3) gap by simp
  have "pipewrite_loop p n (take gap addr @ drop gap ?cs) ?a = pipewrite_loop p n (drop gap ?cs) ?b"
    by (rule pipewrite_loop_room) (use assms(2) le lr gap in simp_all)
  then have e: "pipewrite p addr n s = pipewrite_loop p n (drop gap ?cs) ?b"
    by (simp only: tk [symmetric] append_take_drop_id pipewrite_def acquire_ok [OF c(1)] run.simps)
  have k: "pipe_ok (?f (pipes s p))" "length (contents (?f (pipes s p))) = PIPESIZE"
    using pq.put_many [OF assms(2), of "take gap addr"] le lr gap by simp_all
  have "\<not> length ?cs \<le> gap" using assms(3) gap le by linarith
  then obtain d ds where d: "drop gap ?cs = d # ds" by (cases "drop gap ?cs") (simp_all only: drop_eq_Nil)
  have ca: "cur ?a = Some i" using ci assms(5) by simp
  have crit: "in_crit ?l ?b" using in_crit_acquired [OF c(1)] by simp
  have my: "myproc ?b = Ok (Some i) ?b" using myproc_crit [OF crit] ca by simp
  have ptb: "can_lock PtableLock ?b" using can_lock_acquired_other [OF c] by simp
  let ?w = "woken (Some (ChanPipeRead p)) ?b"
  note wk = wakeup_eq [OF ptb, of "Some (ChanPipeRead p)"]
  have full: "pipewrite_loop p n (d # ds) ?b = run (sleep (Some (ChanPipeWrite p)) (Some ?l) ?w) (\<lambda>_ s. Spin)"
    using k contents_full [OF k(1)] assms(7,8) by (simp add: my nonnull_def wk(1) pipe_put_open)
  have cw: "in_crit ?l ?w" "can_lock PtableLock ?w" using in_crit_balanced [OF wk(2) crit] can_lock_balanced [OF wk(2) ptb] .
  have cib: "cpu_inv ?b" using crit by (simp add: in_crit_def)
  have "ncli (my_cpu ?a) = 1" using acquired_depth [OF ci, of ?l] assms(4) ci by simp
  then have nw: "ncli (my_cpu ?w) = 1"
    using balanced_my_cpu [OF wk(2) me_less [OF cib]] by (simp add: cpu_view_def)
  have cu: "cur ?w = Some i" using cur_balanced [OF wk(2) cib] ca by simp
  have lp: "i < length (procs ?w)" using assms(6) by (simp add: wakeup1_def)
  obtain t where t: "t = asleep (Some (ChanPipeWrite p)) ?l i ?w" "sleep (Some (ChanPipeWrite p)) (Some ?l) ?w = Switch t"
      "in_crit PtableLock t" "locked (locks t ?l) = 0"
      "procs t = (procs ?w)[i := (procs ?w ! i)\<lparr>chan := Some (ChanPipeWrite p), pstate := SLEEPING, pcontext := ctx_esp ?w\<rparr>]"
    using sleep_switches [OF cw nw cu lp, of "Some (ChanPipeWrite p)"] by blast
  have "pipes t = (pipes s)(p := fold pipe_put (take gap addr) (pipes s p))"
    unfolding t(1) by (simp add: asleep_def upd_proc_def)
  moreover have "ctx_esp ?w = ctx_esp s" by (simp add: woken_def wakeup1_def upd_pipe_def)
  moreover have "procs ?w = procs (wakeup1 (Some (ChanPipeRead p)) s)" by (simp add: wakeup1_def)
  ultimately show ?thesis using e d full t(2-5) by auto
qed

section \<open>Properties\<close>

lemma pipe0_ok: "pipe_ok pipe0" "contents pipe0 = []"
  by (simp_all add: pipe_ok_def pipe0_def contents_def)

text \<open>
  C26: a pipe is a first-in first-out queue of at most 512 bytes.  \<open>pipewrite\<close> of bytes that fit
  appends them and returns their number; \<open>piperead\<close> of a pipe that is not empty then returns
  the oldest bytes in order, up to the number asked for, and leaves the others.  Other pipes
  do not change.
\<close>

theorem pipe_is_fifo:
  assumes "idle s" "pipe_ok (pipes s p)" "length (contents (pipes s p)) + nat n \<le> PIPESIZE" "0 < n" "addr \<noteq> []"
  shows "returns (run (pipewrite p addr n s) (\<lambda>w s. run (piperead p m s) (\<lambda>r s. Ok (w, r) s)))
     (\<lambda>(w, r, bs) t. w = n \<and> bs = take (nat m) (contents (pipes s p) @ take (nat n) addr) \<and> r = int (length bs) \<and>
       contents (pipes t p) = drop (nat m) (contents (pipes s p) @ take (nat n) addr) \<and> pipe_ok (pipes t p) \<and>
       (pipes t)(p := pipes s p) = pipes s)"
proof -
  let ?cs = "take (nat n) addr" and ?k = "fold pipe_put (take (nat n) addr) (pipes s p)"
  obtain t where t: "pipewrite p addr n s = Ok n t" "balanced s t" "pipes t = (pipes s)(p := ?k)"
    using pipewrite_fits [OF assms(1-3), of addr] by (auto simp: returns_iff)
  have k: "pipe_ok ?k" "contents ?k = contents (pipes s p) @ ?cs"
    using pq.put_many [OF assms(2), of ?cs] assms(3) by simp_all
  have pk: "pipes t p = ?k" using t(3) by simp
  have ne: "contents (pipes t p) \<noteq> [] \<or> \<not> writeopen (pipes t p)" using k(2) pk assms(4,5) by simp
  have ok: "pipe_ok (pipes t p)" using k(1) pk by simp
  from piperead_ok [OF idle_balanced [OF t(2) assms(1)] ok ne, of m]
  show ?thesis
    unfolding t(1) run.simps returns_run
    by (rule returns_mono) (use k(2) t(3) in \<open>auto simp: fun_eq_iff\<close>)
qed

theorem pipe_is_fifo_witness:
  "returns (run (pipewrite 7 [1, 2, 3] 3 kern0) (\<lambda>w s. run (piperead 7 2 s) (\<lambda>r s. Ok (w, r) s)))
     (\<lambda>(w, r, bs) t. w = 3 \<and> bs = take (nat 2) (contents (pipes kern0 7) @ take (nat 3) [1, 2, 3]) \<and> r = int (length bs) \<and>
       contents (pipes t 7) = drop (nat 2) (contents (pipes kern0 7) @ take (nat 3) [1, 2, 3]) \<and> pipe_ok (pipes t 7) \<and>
       (pipes t)(7 := pipes kern0 7) = pipes kern0)"
  by (rule pipe_is_fifo) (simp_all add: kern0_idle kern0_fields pipe0_ok)

text \<open>No process but \<open>i\<close> waits for data; a read makes room and makes process \<open>i\<close> runnable.\<close>

definition no_reader_waits :: "u32 \<Rightarrow> nat \<Rightarrow> 'z ftable_scheme \<Rightarrow> bool" where
  "no_reader_waits p i t \<longleftrightarrow> (\<forall>j. j \<noteq> i \<and> j < length (procs t) \<longrightarrow>
     \<not> (pstate (procs t ! j) = SLEEPING \<and> chan (procs t ! j) = Some (ChanPipeRead p)))"

definition read_wakes_writer :: "u32 \<Rightarrow> nat \<Rightarrow> 'z ftable_scheme \<Rightarrow> bool" where
  "read_wakes_writer p i t \<longleftrightarrow>
     (\<forall>(u :: 'z ftable_scheme) m. idle u \<and> pipes u p = pipes t p \<and> i < length (procs u) \<and> procs u ! i = procs t ! i \<and> 0 < m \<longrightarrow>
       returns (piperead p m u) (\<lambda>(r, bs) v. bs = take (nat m) (contents (pipes t p)) \<and>
         length (contents (pipes v p)) < PIPESIZE \<and> pstate (procs v ! i) = RUNNABLE))"

text \<open>
  C27: a writer that blocks does not stay blocked.  When the bytes do not fit, \<open>pipewrite\<close>
  fills the pipe, makes every waiting reader runnable and goes to sleep with the lock of the
  pipe free.  A later read of at least one byte, in any state where the pipe is as the writer
  left it, returns the oldest bytes, makes room and makes the writer runnable.
\<close>

theorem pipe_writer_progress:
  assumes "idle s" "pipe_ok (pipes s p)" "PIPESIZE < length (contents (pipes s p)) + length (take (nat n) addr)"
    and "ncli (my_cpu s) = 0" "cur s = Some i" "i < length (procs s)" "\<not> killed (procs s ! i)" "readopen (pipes s p)"
  shows "\<exists>t. pipewrite p addr n s = Switch t \<and> locked (locks t (PipeLock p)) = 0 \<and>
     length (contents (pipes t p)) = PIPESIZE \<and> no_reader_waits p i t \<and> read_wakes_writer p i t"
proof -
  let ?gap = "PIPESIZE - length (contents (pipes s p))" and ?w = "procs (wakeup1 (Some (ChanPipeRead p)) s)"
  obtain t where t: "pipewrite p addr n s = Switch t" "locked (locks t (PipeLock p)) = 0"
     "pipes t = (pipes s)(p := fold pipe_put (take ?gap addr) (pipes s p))"
     "procs t = ?w[i := (?w ! i)\<lparr>chan := Some (ChanPipeWrite p), pstate := SLEEPING, pcontext := ctx_esp s\<rparr>]"
    using pipewrite_blocks [OF assms refl] by blast
  have le: "length (contents (pipes s p)) \<le> PIPESIZE" by (rule pq.bound [OF assms(2)])
  have "length (take ?gap addr) = ?gap" using assms(3) by simp
  then have k: "pipe_ok (pipes t p)" "length (contents (pipes t p)) = PIPESIZE"
    using pq.put_many [OF assms(2), of "take ?gap addr"] le t(3) by simp_all
  have rd: "\<not> (pstate (procs t ! j) = SLEEPING \<and> chan (procs t ! j) = Some (ChanPipeRead p))"
    if "j \<noteq> i" "j < length (procs t)" for j
    using that t(4) by (simp add: wakeup1_def)
  have pi: "pstate (procs t ! i) = SLEEPING" "chan (procs t ! i) = Some (ChanPipeWrite p)"
    using t(4) assms(6) by (simp_all add: wakeup1_def)
  have "returns (piperead p m u) (\<lambda>(r, bs) v. bs = take (nat m) (contents (pipes t p)) \<and>
         length (contents (pipes v p)) < PIPESIZE \<and> pstate (procs v ! i) = RUNNABLE)"
    if u: "idle u" "pipes u p = pipes t p" "i < length (procs u)" "procs u ! i = procs t ! i" "0 < m" for u m
  proof -
    have "contents (pipes u p) \<noteq> []" using k(2) u(2) by auto
    then have "contents (pipes u p) \<noteq> [] \<or> \<not> writeopen (pipes u p)" ..
    from piperead_ok [OF u(1) _ this, of m] show ?thesis
      using k u(2) by simp (rule returns_mono, assumption, use u pi k in \<open>auto simp: wakeup1_def\<close>)
  qed
  then have "read_wakes_writer p i t" unfolding read_wakes_writer_def by blast
  moreover have "no_reader_waits p i t" using rd by (simp add: no_reader_waits_def)
  ultimately show ?thesis using t(1,2) k(2) by blast
qed

lemma writer_kern0:
  "idle kern0" "pipe_ok (pipes kern0 p)" "PIPESIZE < length (contents (pipes kern0 p)) + length (take (nat 600) (replicate 600 c))"
  "ncli (my_cpu kern0) = 0" "cur kern0 = Some 0" "0 < length (procs kern0)" "\<not> killed (procs kern0 ! 0)" "readopen (pipes kern0 p)"
  by (simp_all add: kern0_idle kern0_fields kern0_cpu pipe0_ok ptable0_fields proc1_def slot0_def) (simp add: pipe0_def)

theorem pipe_writer_progress_witness:
  "\<exists>t. pipewrite 7 (replicate 600 1) 600 kern0 = Switch t \<and> locked (locks t (PipeLock 7)) = 0 \<and>
     length (contents (pipes t 7)) = PIPESIZE \<and> no_reader_waits 7 0 t \<and> read_wakes_writer 7 0 t"
  by (rule pipe_writer_progress [OF writer_kern0])

end
