(* ===== verification/TwoLevel.thy ===== *)
theory TwoLevel
  imports Mmu
begin

text \<open>
  Two-level page tables in memory, as both kernels of the repository use them.  A directory and
  its tables are pages of 1024 words; a table is reached at its physical address plus the base
  \<open>b\<close> at which the kernel maps physical memory.  \<open>entry_at b m pd n\<close> is the entry that the
  directory \<open>pd\<close> holds for virtual page \<open>n\<close>, zero where there is no table.  \<open>S\<close> are the
  directory slots that are not page tables of their own, such as a slot that maps the directory
  itself.
\<close>

section \<open>Pages of words\<close>

definition pw :: "memory \<Rightarrow> u32 \<Rightarrow> nat \<Rightarrow> u32" where
  "pw m v i = load32 m (v + of_nat (4 * i))"

lemma unat_small: "n < 2 ^ 32 \<Longrightarrow> unat (of_nat n :: u32) = n"
  using unat_plus_small [of 0 n] by simp

lemma word_far:
  assumes "i < 1024" "j < 1024" "i \<noteq> j"
  shows "4 \<le> (v + of_nat (4 * j)) - (v + of_nat (4 * i) :: u32)"
proof (cases "i < j")
  case True
  then have "(v + of_nat (4 * j)) - (v + of_nat (4 * i) :: u32) = of_nat (4 * (j - i))"
    by (simp add: of_nat_diff)
  moreover have "unat (of_nat (4 * (j - i)) :: u32) = 4 * (j - i)"
    using assms by (intro unat_small) simp
  ultimately have "unat ((v + of_nat (4 * j)) - (v + of_nat (4 * i) :: u32)) = 4 * (j - i)" by (simp only:)
  then show ?thesis using True by (simp add: word_le_nat_alt)
next
  case False
  then have e: "(v + of_nat (4 * j)) - (v + of_nat (4 * i) :: u32) = - of_nat (4 * (i - j))"
    by (simp add: of_nat_diff)
  have u: "unat (of_nat (4 * (i - j)) :: u32) = 4 * (i - j)"
    using assms by (intro unat_small) simp
  then have nz: "(of_nat (4 * (i - j)) :: u32) \<noteq> 0" using False assms(3) by (metis mult_eq_0_iff unat_0 zero_neq_numeral diff_is_0_eq linorder_neqE_nat not_le)
  have "unat (- (of_nat (4 * (i - j)) :: u32)) = 2 ^ 32 - 4 * (i - j)"
    using unat_sub_if_size [of 0 "of_nat (4 * (i - j)) :: u32"] u nz by (simp add: word_size unsigned_eq_0_iff)
  then have "unat ((v + of_nat (4 * j)) - (v + of_nat (4 * i) :: u32)) = 2 ^ 32 - 4 * (i - j)" by (simp only: e)
  then show ?thesis using assms by (simp add: word_le_nat_alt)
qed

lemma pw_store:
  assumes "aligned v" "aligned w" "i < 1024" "j < 1024"
  shows "pw (store32 (v + of_nat (4 * i)) x m) w j = (if v = w \<and> i = j then x else pw m w j)"
proof (cases "v = w")
  case True
  then show ?thesis
    using word_far [of i j] word_far [of j i] assms
    by (cases "i = j") (simp_all add: pw_def load32_store32_other del: of_nat_mult)
next
  case False
  have o: "only_page v m (store32 (v + of_nat (4 * i)) x m)" using assms by (intro only_page_store32) simp_all
  have "unat w div 4096 \<noteq> unat v div 4096" using False aligned_div_inj [OF assms(2,1)] by auto
  then have "load32 (store32 (v + of_nat (4 * i)) x m) (w + of_nat (4 * j)) = load32 m (w + of_nat (4 * j))"
    using o assms by (intro load32_other_page) (auto simp: only_page_def)
  then show ?thesis using False by (simp add: pw_def)
qed

lemma only_page_frame:
  assumes "only_page v m m'" "aligned v" "aligned w" "w \<noteq> v" "unat (a :: u32) div 4096 = unat w div 4096"
  shows "m' a = m a"
proof -
  have "unat a div 4096 \<noteq> unat v div 4096" using assms aligned_div_inj [OF assms(3,2)] by auto
  then show ?thesis using assms(1) by (simp add: only_page_def)
qed

lemma pw_only_page:
  assumes "only_page v m m'" "aligned v" "aligned w" "v \<noteq> w" "j < 1024"
  shows "pw m' w j = pw m w j"
proof -
  have "unat w div 4096 \<noteq> unat v div 4096" using assms aligned_div_inj [OF assms(3,2)] by auto
  then show ?thesis
    unfolding pw_def using assms by (intro load32_other_page) (auto simp: only_page_def)
qed

lemma pw_memset0: "j < 1024 \<Longrightarrow> pw (memset v 0 PGSIZE m) v j = 0"
  unfolding pw_def by (rule load32_memset) simp_all

section \<open>Entries\<close>

definition present :: "u32 \<Rightarrow> bool" where
  "present e \<longleftrightarrow> e AND PTE_P \<noteq> 0"

definition tab :: "u32 \<Rightarrow> u32 \<Rightarrow> u32" where
  "tab b e = PTE_ADDR e + b"

definition entry_at :: "u32 \<Rightarrow> memory \<Rightarrow> u32 \<Rightarrow> nat \<Rightarrow> u32" where
  "entry_at b m pd n = (let e = pw m pd (n div 1024) in if present e then pw m (tab b e) (n mod 1024) else 0)"

definition slot_at :: "u32 \<Rightarrow> memory \<Rightarrow> u32 \<Rightarrow> nat \<Rightarrow> u32" where
  "slot_at b m pd n = tab b (pw m pd (n div 1024)) + of_nat (4 * (n mod 1024))"

definition shape :: "u32 \<Rightarrow> nat set \<Rightarrow> memory \<Rightarrow> u32 \<Rightarrow> u32 set \<Rightarrow> bool" where
  "shape b S m pd X \<longleftrightarrow> aligned pd \<and> pd \<notin> X \<and>
     (\<forall>i < 1024. i \<notin> S \<longrightarrow> present (pw m pd i) \<longrightarrow>
        tab b (pw m pd i) \<notin> X \<and> tab b (pw m pd i) \<noteq> pd \<and> tab b (pw m pd i) \<noteq> 0 \<and>
        (\<forall>j < 1024. j \<notin> S \<longrightarrow> present (pw m pd j) \<longrightarrow> tab b (pw m pd i) = tab b (pw m pd j) \<longrightarrow> i = j))"

definition tables_at :: "u32 \<Rightarrow> nat set \<Rightarrow> memory \<Rightarrow> u32 \<Rightarrow> u32 set" where
  "tables_at b S m pd = {tab b (pw m pd i) |i. i < 1024 \<and> i \<notin> S \<and> present (pw m pd i)}"

lemma PTE_ADDR_aligned: "aligned x \<Longrightarrow> PTE_ADDR x = x"
proof -
  assume "aligned x"
  then obtain k where "unat x = 4096 * k" by (rule aligned_mult)
  then have "unat (PTE_ADDR x) = unat x" by (simp add: PTE_ADDR_nat)
  then show ?thesis by (rule unsigned_word_eqI)
qed

lemma PTE_ADDR_or: "aligned x \<Longrightarrow> f AND NOT 0xFFF = 0 \<Longrightarrow> PTE_ADDR (x OR f) = x"
proof -
  assume "aligned x" and f: "f AND NOT 0xFFF = 0"
  then have "x AND NOT 0xFFF = x" using PTE_ADDR_aligned by (simp only: PTE_ADDR_def)
  then show ?thesis unfolding PTE_ADDR_def by (simp only: bit.conj_disj_distrib2 f bit.disj_zero_right)
qed

lemma present_bit: "present e = bit e 0"
proof -
  have "e AND 1 = (if bit e 0 then 1 else 0)" by (simp add: and_one_eq mod_2_eq_odd bit_0)
  then show ?thesis by (simp add: present_def)
qed

lemma present_new: "present (x OR PTE_P OR PTE_W OR PTE_U)" "present (x OR p OR PTE_P)" "\<not> present 0"
  by (simp_all add: present_bit bit_or_iff)

lemma index_bits:
  "unat (drop_bit 22 (va :: u32) AND 0x3FF) = (unat va div 2 ^ 22) mod 1024"
  "unat (drop_bit 12 (va :: u32) AND 0x3FF) = (unat va div 2 ^ 12) mod 1024"
proof -
  have "(0x3FF :: u32) = mask 10" by (simp add: mask_eq_exp_minus_1)
  then have "drop_bit k va AND 0x3FF = take_bit 10 (drop_bit k va)" for k by (simp only: take_bit_eq_mask)
  then have "drop_bit k va AND 0x3FF = (va div 2 ^ k) mod 1024" for k
    by (simp only: take_bit_eq_mod drop_bit_eq_div) simp
  then show "unat (drop_bit 22 (va :: u32) AND 0x3FF) = (unat va div 2 ^ 22) mod 1024"
    "unat (drop_bit 12 (va :: u32) AND 0x3FF) = (unat va div 2 ^ 12) mod 1024"
    by (simp_all add: unat_mod unat_div)
qed

lemma four_times: "unat (x :: u32) = n \<Longrightarrow> 4 * x = of_nat (4 * n)"
  by auto

lemma index_nat:
  "4 * PDX va = of_nat (4 * (unat va div 4096 div 1024))" "4 * PTX va = of_nat (4 * (unat va div 4096 mod 1024))"
  "unat va div 4096 div 1024 < 1024"
proof -
  show l: "unat va div 4096 div 1024 < 1024" using u32_bound [of va] by (simp add: div_mult2_eq [symmetric] less_mult_imp_div_less)
  have "unat (PDX va) = unat va div 4096 div 1024"
    unfolding PDX_def using index_bits(1) [of va] l by (simp add: div_mult2_eq [symmetric])
  then show "4 * PDX va = of_nat (4 * (unat va div 4096 div 1024))" by (rule four_times)
  have "unat (PTX va) = unat va div 4096 mod 1024" unfolding PTX_def using index_bits(2) [of va] by simp
  then show "4 * PTX va = of_nat (4 * (unat va div 4096 mod 1024))" by (rule four_times)
qed

lemma vpn_bound: "unat (va :: u32) div 4096 < 2 ^ 20"
  using u32_bound [of va] by (simp add: less_mult_imp_div_less)

lemma vpn_index: "(n :: nat) < 2 ^ 20 \<Longrightarrow> n div 1024 < 1024"
  by (simp add: less_mult_imp_div_less)

lemma load_slot: "present (pw m pd (n div 1024)) \<Longrightarrow> load32 m (slot_at b m pd n) = entry_at b m pd n"
  by (simp add: slot_at_def entry_at_def pw_def)

lemma shapeD:
  assumes "shape b S m pd X"
  shows "aligned pd" "pd \<notin> X" "i < 1024 \<Longrightarrow> i \<notin> S \<Longrightarrow> present (pw m pd i) \<Longrightarrow> tab b (pw m pd i) \<notin> X"
    "i < 1024 \<Longrightarrow> i \<notin> S \<Longrightarrow> present (pw m pd i) \<Longrightarrow> tab b (pw m pd i) \<noteq> pd"
    "i < 1024 \<Longrightarrow> i \<notin> S \<Longrightarrow> present (pw m pd i) \<Longrightarrow> tab b (pw m pd i) \<noteq> 0"
    "i < 1024 \<Longrightarrow> j < 1024 \<Longrightarrow> i \<notin> S \<Longrightarrow> j \<notin> S \<Longrightarrow> present (pw m pd i) \<Longrightarrow> present (pw m pd j) \<Longrightarrow>
       tab b (pw m pd i) = tab b (pw m pd j) \<Longrightarrow> i = j"
  using assms unfolding shape_def by blast+

lemma shape_mono: "shape b S m pd X \<Longrightarrow> Y \<subseteq> X \<Longrightarrow> shape b S m pd Y"
  unfolding shape_def by blast

lemma tables_cong:
  assumes "\<And>i. i < 1024 \<Longrightarrow> pw m' pd i = pw m pd i"
  shows "tables_at b S m' pd = tables_at b S m pd"
  using assms by (auto simp: tables_at_def) (metis assms)

lemma shape_cong:
  assumes "\<And>i. i < 1024 \<Longrightarrow> pw m' pd i = pw m pd i"
  shows "shape b S m' pd X = shape b S m pd X"
  using assms by (simp add: shape_def)

lemma entry_cong:
  assumes "\<And>i. i < 1024 \<Longrightarrow> pw m' pd i = pw m pd i" "\<And>v j. v \<in> tables_at b S m pd \<Longrightarrow> j < 1024 \<Longrightarrow> pw m' v j = pw m v j"
    and "n < 2 ^ 20" "n div 1024 \<notin> S"
  shows "entry_at b m' pd n = entry_at b m pd n"
proof -
  have d: "n div 1024 < 1024" using assms(3) by (rule vpn_index)
  then have "tab b (pw m pd (n div 1024)) \<in> tables_at b S m pd" if "present (pw m pd (n div 1024))"
    using that assms(4) by (auto simp: tables_at_def)
  then show ?thesis using assms(1) [OF d] assms(2) [of _ "n mod 1024"] by (auto simp: entry_at_def Let_def)
qed

section \<open>Changing a directory\<close>

locale two_level =
  fixes b :: u32 and S :: "nat set"
  assumes base: "aligned b"
begin

lemma aligned_tab [simp]: "aligned (tab b e)"
proof -
  have "unat (PTE_ADDR e + b) mod 4096 = 0"
  proof -
    obtain k l where "unat (PTE_ADDR e) = 4096 * k" "unat b = 4096 * l"
      using aligned_mult [OF base] PTE_ADDR_nat [of e] by metis
    then have "unat (PTE_ADDR e + b) = (4096 * (k + l)) mod 2 ^ 32" by (simp add: unat_word_ariths distrib_left)
    then show ?thesis by (simp add: mod_mod_cancel)
  qed
  then show ?thesis by (simp add: tab_def aligned_nat)
qed

text \<open>A new table: a cleared page \<open>p\<close> is entered into an empty slot of the directory.\<close>

lemma new_table:
  assumes ok: "shape b S m pd (insert p X)" and p: "aligned p" "p \<noteq> 0" "p \<notin> X" and i: "i < 1024" "i \<notin> S" "\<not> present (pw m pd i)"
    and e: "present e" "tab b e = p" and m': "m' = store32 (pd + of_nat (4 * i)) e (memset p 0 PGSIZE m)"
  shows "shape b S m' pd X" "tables_at b S m' pd = insert p (tables_at b S m pd)"
    "\<And>k. k < 2 ^ 20 \<Longrightarrow> k div 1024 \<notin> S \<Longrightarrow> entry_at b m' pd k = entry_at b m pd k"
    "present (pw m' pd i)" "tab b (pw m' pd i) = p"
    "\<And>v a. aligned v \<Longrightarrow> v \<noteq> pd \<Longrightarrow> v \<noteq> p \<Longrightarrow> unat (a :: u32) div 4096 = unat v div 4096 \<Longrightarrow> m' a = m a"
proof -
  note ok = shapeD [OF ok]
  let ?m = "memset p 0 PGSIZE m"
  have pd: "p \<noteq> pd" using ok(2) by auto
  have o1: "only_page p m ?m" using only_page_memset [OF p(1), of 0 PGSIZE m 0] by simp
  have o2: "only_page pd ?m m'" unfolding m' using ok(1) i by (intro only_page_store32) simp_all
  have dirs: "pw m' pd j = (if j = i then e else pw m pd j)" if "j < 1024" for j
    unfolding m' using pw_store [OF ok(1,1) i(1) that] pw_only_page [OF o1 p(1) ok(1) pd that] by auto
  have same: "pw m' w j = pw m w j" if "aligned w" "w \<noteq> pd" "w \<noteq> p" "j < 1024" for w j
    using pw_only_page [OF o2 ok(1) that(1)] pw_only_page [OF o1 p(1) that(1)] that by auto
  have zero: "pw m' p j = 0" if "j < 1024" for j
    using pw_only_page [OF o2 ok(1) p(1) _ that] pd pw_memset0 [OF that] by auto
  show "present (pw m' pd i)" "tab b (pw m' pd i) = p" using dirs i(1) e by simp_all
  show "shape b S m' pd X"
    unfolding shape_def
  proof (intro conjI allI impI)
    fix j assume j: "j < 1024" "j \<notin> S" "present (pw m' pd j)"
    show "tab b (pw m' pd j) \<notin> X" "tab b (pw m' pd j) \<noteq> pd" "tab b (pw m' pd j) \<noteq> 0"
      using dirs [OF j(1)] j ok(3-5) [of j] e p(2,3) pd by (cases "j = i"; simp)+
    fix k assume k: "k < 1024" "k \<notin> S" "present (pw m' pd k)" "tab b (pw m' pd j) = tab b (pw m' pd k)"
    show "j = k"
      using dirs [OF j(1)] dirs [OF k(1)] j k ok(3) [of j] ok(3) [of k] ok(6) [of j k] e
      by (cases "j = i"; cases "k = i"; simp)
  qed (use ok in auto)
  show "tables_at b S m' pd = insert p (tables_at b S m pd)"
  proof (rule equalityI; rule subsetI)
    fix x assume "x \<in> tables_at b S m' pd"
    then obtain j where "j < 1024" "j \<notin> S" "present (pw m' pd j)" "x = tab b (pw m' pd j)" by (auto simp: tables_at_def)
    then show "x \<in> insert p (tables_at b S m pd)" using dirs [of j] e by (auto simp: tables_at_def split: if_splits)
  next
    fix x assume "x \<in> insert p (tables_at b S m pd)"
    then consider "x = p" | j where "j < 1024" "j \<notin> S" "present (pw m pd j)" "x = tab b (pw m pd j)" by (auto simp: tables_at_def)
    then show "x \<in> tables_at b S m' pd"
    proof cases
      case 1
      then show ?thesis using dirs [OF i(1)] i(1,2) e unfolding tables_at_def by (intro CollectI exI [of _ i]) simp
    next
      case (2 j)
      then show ?thesis using dirs [OF 2(1)] i(3) unfolding tables_at_def by (intro CollectI exI [of _ j]) auto
    qed
  qed
  show "entry_at b m' pd k = entry_at b m pd k" if "k < 2 ^ 20" "k div 1024 \<notin> S" for k
  proof -
    have k: "k div 1024 < 1024" "k mod 1024 < 1024" using vpn_index [OF that(1)] by simp_all
    show ?thesis
    proof (cases "k div 1024 = i")
      case True
      then show ?thesis using dirs [OF k(1)] i(3) e zero k(2) by (simp add: entry_at_def)
    next
      case False
      then show ?thesis
        using dirs [OF k(1)] same [of "tab b (pw m pd (k div 1024))", OF _ _ _ k(2)] ok(3,4) [OF k(1) that(2)]
        by (auto simp: entry_at_def Let_def)
    qed
  qed
  show "m' a = m a" if "aligned v" "v \<noteq> pd" "v \<noteq> p" "unat a div 4096 = unat v div 4096" for v a
    using only_page_frame [OF o2 ok(1) that(1,2,4)] only_page_frame [OF o1 p(1) that(1,3,4)] by simp
qed

lemma slot_nonzero:
  assumes "shape b S m pd X" "n < 2 ^ 20" "n div 1024 \<notin> S" "present (pw m pd (n div 1024))"
  shows "slot_at b m pd n \<noteq> 0"
proof -
  have "tab b (pw m pd (n div 1024)) \<noteq> 0" by (rule shapeD(5) [OF assms(1) vpn_index [OF assms(2)] assms(3,4)])
  moreover have "unat (slot_at b m pd n) = unat (tab b (pw m pd (n div 1024))) + 4 * (n mod 1024)"
    unfolding slot_at_def by (rule page_offset(1)) simp_all
  ultimately show ?thesis by (auto simp: unsigned_eq_0_iff)
qed

text \<open>A new value for one entry.\<close>

lemma set_slot:
  assumes okm: "shape b S m pd X" and n: "n < 2 ^ 20" "n div 1024 \<notin> S" "present (pw m pd (n div 1024))"
    and m': "m' = store32 (slot_at b m pd n) x m"
  shows "shape b S m' pd X" "tables_at b S m' pd = tables_at b S m pd" "only_page (tab b (pw m pd (n div 1024))) m m'"
    "j < 1024 \<Longrightarrow> pw m' pd j = pw m pd j"
    "k < 2 ^ 20 \<Longrightarrow> k div 1024 \<notin> S \<Longrightarrow> entry_at b m' pd k = (if k = n then x else entry_at b m pd k)"
proof -
  note ok = shapeD [OF okm]
  let ?v = "tab b (pw m pd (n div 1024))"
  have d: "n div 1024 < 1024" using n(1) by (rule vpn_index)
  have m: "m' = store32 (?v + of_nat (4 * (n mod 1024))) x m" using m' by (simp add: slot_at_def)
  show o: "only_page ?v m m'" unfolding m by (rule only_page_store32) simp_all
  have dirs: "pw m' pd j = pw m pd j" if "j < 1024" for j
    by (rule pw_only_page [OF o _ ok(1) ok(4) [OF d n(2,3)] that]) simp
  then show "j < 1024 \<Longrightarrow> pw m' pd j = pw m pd j" .
  show "tables_at b S m' pd = tables_at b S m pd" using dirs by (rule tables_cong)
  show "shape b S m' pd X" using okm shape_cong [OF dirs] by simp
  show "entry_at b m' pd k = (if k = n then x else entry_at b m pd k)" if k20: "k < 2 ^ 20" and kS: "k div 1024 \<notin> S"
  proof -
    have k: "k div 1024 < 1024" using k20 by (rule vpn_index)
    show ?thesis
    proof (cases "present (pw m pd (k div 1024))")
      case True
      have "pw m' (tab b (pw m pd (k div 1024))) (k mod 1024) =
          (if ?v = tab b (pw m pd (k div 1024)) \<and> n mod 1024 = k mod 1024 then x
           else pw m (tab b (pw m pd (k div 1024))) (k mod 1024))"
        unfolding m by (rule pw_store) simp_all
      moreover have "?v = tab b (pw m pd (k div 1024)) \<and> n mod 1024 = k mod 1024 \<longleftrightarrow> k = n"
        using ok(6) [OF d k n(2) kS n(3) True] by (metis div_mult_mod_eq)
      ultimately show ?thesis using True dirs [OF k] by (simp add: entry_at_def)
    next
      case False
      then show ?thesis using dirs [OF k] n(3) by (auto simp: entry_at_def)
    qed
  qed
qed

end

end
