(* ===== verification/PageTable.thy ===== *)
theory PageTable
  imports Vm TwoLevel
begin

text \<open>
  What the page-table code of \<open>lab2/vm.c\<close> promises.  \<open>entry m pd n\<close> is the entry that the
  page directory \<open>pd\<close> in memory \<open>m\<close> holds for virtual page \<open>n\<close>, zero where there is no page
  table: a directory is a function from page numbers to entries.  \<open>pt_inv\<close> says that the pages
  of the directory and of its tables are distinct and not free.
\<close>

section \<open>The tables of xv6\<close>

interpretation xt: two_level KERNBASE "{}"
  by unfold_locales (simp add: aligned_def)

abbreviation table_of :: "u32 \<Rightarrow> u32" where "table_of \<equiv> tab KERNBASE"
abbreviation entry :: "memory \<Rightarrow> u32 \<Rightarrow> nat \<Rightarrow> u32" where "entry \<equiv> entry_at KERNBASE"
abbreviation slot_addr :: "memory \<Rightarrow> u32 \<Rightarrow> nat \<Rightarrow> u32" where "slot_addr \<equiv> slot_at KERNBASE"
abbreviation pt_ok :: "memory \<Rightarrow> u32 \<Rightarrow> u32 set \<Rightarrow> bool" where "pt_ok \<equiv> shape KERNBASE {}"
abbreviation tables :: "memory \<Rightarrow> u32 \<Rightarrow> u32 set" where "tables \<equiv> tables_at KERNBASE {}"

lemma pt_okD:
  assumes "pt_ok m pd X"
  shows "aligned pd" "pd \<notin> X" "i < 1024 \<Longrightarrow> present (pw m pd i) \<Longrightarrow> table_of (pw m pd i) \<notin> X"
    "i < 1024 \<Longrightarrow> present (pw m pd i) \<Longrightarrow> table_of (pw m pd i) \<noteq> pd"
  using shapeD [OF assms] by blast+

definition pt_inv :: "'z vm_scheme \<Rightarrow> u32 \<Rightarrow> u32 list \<Rightarrow> bool" where
  "pt_inv s pd ps \<longleftrightarrow> free_pages s ps \<and> pt_ok (mem s) pd (set ps)"

text \<open>A change of the page tables: pages are taken from the free list, and no page is written but those of the tables.\<close>

definition pt_step :: "u32 \<Rightarrow> 'z vm_scheme \<Rightarrow> u32 list \<Rightarrow> 'z vm_scheme \<Rightarrow> u32 list \<Rightarrow> bool" where
  "pt_step pd s ps t qs \<longleftrightarrow> balanced s t \<and> kend t = kend s \<and> kmem.more t = kmem.more s \<and> (\<exists>us. ps = us @ qs) \<and>
     tables (mem s) pd \<subseteq> tables (mem t) pd \<and> tables (mem t) pd \<subseteq> tables (mem s) pd \<union> set ps \<and>
     (\<forall>v. aligned v \<and> v \<noteq> pd \<and> v \<notin> tables (mem t) pd \<longrightarrow>
       (\<forall>a :: u32. unat a div 4096 = unat v div 4096 \<longrightarrow> mem t a = mem s a))"

lemma pt_step_refl [simp]: "pt_step pd s ps s ps"
  by (simp add: pt_step_def)

lemma pt_step_trans:
  assumes "pt_step pd s ps t qs" "pt_step pd t qs u rs"
  shows "pt_step pd s ps u rs"
proof -
  have "balanced s u" using assms balanced_trans [of s t u] by (simp add: pt_step_def)
  moreover have "\<exists>us. ps = us @ rs" using assms by (auto simp: pt_step_def)
  moreover have "set qs \<subseteq> set ps" using assms(1) by (auto simp: pt_step_def)
  ultimately show ?thesis using assms unfolding pt_step_def by (auto 0 3)
qed

lemma half_twice: "a - KERNBASE = a + KERNBASE"
  by (simp add: diff_eq_eq add.assoc)

lemma aligned_half: "aligned (a + KERNBASE) = aligned a"
proof -
  have "unat (a + KERNBASE) = (unat a + 2 ^ 31) mod 2 ^ 32" by (simp add: unat_word_ariths)
  then have "unat (a + KERNBASE) mod 4096 = (unat a + 4096 * 524288) mod 4096"
    by (simp add: mod_mod_cancel)
  also have "\<dots> = unat a mod 4096" by (rule mod_mult_self2)
  finally show ?thesis by (simp add: aligned_nat)
qed

lemma aligned_V2P: "aligned (V2P a) = aligned a" "aligned (P2V a) = aligned a"
  by (simp_all only: V2P_def P2V_def half_twice aligned_half)

lemma tab_P2V: "P2V (PTE_ADDR e) = table_of e"
  by (simp add: tab_def P2V_def)

lemma table_of_new: "aligned p \<Longrightarrow> table_of (V2P p OR PTE_P OR PTE_W OR PTE_U) = p"
  using PTE_ADDR_or [of "V2P p" 7] by (simp add: tab_def aligned_V2P) (simp add: V2P_def)

lemma slot_addr_nonzero:
  assumes "pt_ok m pd X" "n < 2 ^ 20" "present (pw m pd (n div 1024))"
  shows "slot_addr m pd n \<noteq> 0"
  by (rule xt.slot_nonzero [OF assms(1,2) _ assms(3)]) simp

section \<open>Walking and mapping\<close>

lemma walkpgdir_ok:
  assumes inv: "pt_inv s pd ps" and n: "n = unat va div 4096"
  shows "returns (walkpgdir pd va alloc s) (\<lambda>r t. \<exists>qs. pt_inv t pd qs \<and> pt_step pd s ps t qs \<and> length ps \<le> Suc (length qs) \<and>
     (\<forall>k < 2 ^ 20. entry (mem t) pd k = entry (mem s) pd k) \<and>
     (if r = 0 then mem t = mem s \<and> qs = ps \<and> \<not> present (pw (mem s) pd (n div 1024)) \<and> (alloc \<longrightarrow> ps = [])
      else r = slot_addr (mem t) pd n \<and> present (pw (mem t) pd (n div 1024))))"
proof -
  have ok: "pt_ok (mem s) pd (set ps)" and fr: "free_pages s ps" using inv by (simp_all add: pt_inv_def)
  have n20: "n < 2 ^ 20" using vpn_bound n by simp
  have d: "pd + 4 * PDX va = pd + of_nat (4 * (n div 1024))" "load32 (mem s) (pd + 4 * PDX va) = pw (mem s) pd (n div 1024)"
    using index_nat(1) [of va] n by (simp_all only: pw_def)
  have x: "4 * PTX va = of_nat (4 * (n mod 1024))" using index_nat(2) [of va] n by simp
  show ?thesis
  proof (cases "present (pw (mem s) pd (n div 1024))")
    case True
    then have "walkpgdir pd va alloc s = Ok (slot_addr (mem s) pd n) s"
      using d x by (simp add: walkpgdir_def present_def slot_at_def tab_P2V Let_def)
    then show ?thesis using True inv slot_addr_nonzero [OF ok n20 True] by auto
  next
    case False
    show ?thesis
    proof (cases "alloc \<and> ps \<noteq> []")
      case no: False
      obtain r t where k: "kalloc s = Ok r t" "balanced s t" "mem t = mem s" "kmem.more t = kmem.more s"
          "ps = [] \<longrightarrow> r = 0 \<and> free_pages t []"
        using kalloc_pages [OF fr] by (cases ps) (auto simp: returns_iff)
      have kk: "kend t = kend s" using kalloc_returns [of s] fr k(1) by (simp add: free_pages_def)
      have st: "pt_step pd s ps t ps" using k(2-4) kk by (simp add: pt_step_def)
      show ?thesis
        using False no d k st kk inv by (auto simp: walkpgdir_def present_def Let_def pt_inv_def)
    next
      case True
      then obtain p qs where ps: "ps = p # qs" and al: alloc by (cases ps) auto
      obtain t where k: "kalloc s = Ok p t" "balanced s t" "mem t = mem s" "kmem.more t = kmem.more s" "p \<noteq> 0" "free_pages t qs"
        using kalloc_pages [OF fr] ps by (auto simp: returns_iff)
      have kk: "kend t = kend s" using kalloc_returns [of s] fr k(1) by (simp add: free_pages_def)
      have p: "aligned p" "p \<notin> set qs" using fr ps by (auto simp: free_pages_def page_ok_def)
      let ?m = "store32 (pd + of_nat (4 * (n div 1024))) (V2P p OR PTE_P OR PTE_W OR PTE_U) (memset p 0 PGSIZE (mem s))"
      let ?t = "t\<lparr>mem := ?m\<rparr>"
      have i: "n div 1024 < 1024" using n20 by (simp add: less_mult_imp_div_less)
      have ok': "pt_ok (mem s) pd (insert p (set qs))" using ok ps by simp
      note nt = xt.new_table [OF ok' p(1) k(5) p(2) i _ False present_new(1) table_of_new [OF p(1)] refl, simplified]
      have e: "walkpgdir pd va alloc s = Ok (slot_addr ?m pd n) ?t"
        using False al d x k nt(5) by (simp add: walkpgdir_def present_def Let_def slot_at_def)
      have f1: "free_pages ?t qs"
      proof -
        have f: "free_pages (t\<lparr>mem := memset p 0 PGSIZE (mem s)\<rparr>) qs"
          using only_page_memset [OF p(1), of 0 PGSIZE "mem t" 0] k(3)
          by (intro free_pages_frame [OF k(6) p(1,2)]) simp_all
        have "only_page pd (memset p 0 PGSIZE (mem s)) ?m"
          by (rule only_page_store32 [OF pt_okD(1) [OF ok]]) (use i in simp)
        moreover have "pd \<notin> set qs" using pt_okD(2) [OF ok'] by simp
        ultimately show ?thesis using free_pages_frame [OF f pt_okD(1) [OF ok], of ?t] by simp
      qed
      have "pt_step pd s ps ?t qs"
        using k kk ps nt(2,6) by (auto simp: pt_step_def)
      moreover have "length ps \<le> Suc (length qs)" using ps by simp
      ultimately show ?thesis
        using e f1 nt(1,3,4) slot_addr_nonzero [OF nt(1) n20 nt(4)] by (auto simp: pt_inv_def)
    qed
  qed
qed

lemma set_entry:
  assumes inv: "pt_inv s pd ps" and n: "n < 2 ^ 20" "present (pw (mem s) pd (n div 1024))"
    and t: "t = s\<lparr>mem := store32 (slot_addr (mem s) pd n) x (mem s)\<rparr>"
  shows "pt_inv t pd ps" "pt_step pd s ps t ps"
    "k < 2 ^ 20 \<Longrightarrow> entry (mem t) pd k = (if k = n then x else entry (mem s) pd k)"
proof -
  have fr: "free_pages s ps" and okm: "pt_ok (mem s) pd (set ps)" using inv by (simp_all add: pt_inv_def)
  let ?v = "table_of (pw (mem s) pd (n div 1024))"
  have m: "mem t = store32 (slot_addr (mem s) pd n) x (mem s)" using t by simp
  note u = xt.set_slot [OF okm n(1) _ n(2) m, simplified]
  have v: "?v \<notin> set ps" "?v \<in> tables (mem s) pd"
    using pt_okD(3) [OF okm vpn_index [OF n(1)] n(2)] vpn_index [OF n(1)] n(2) by (auto simp: tables_at_def)
  have "mem t a = mem s a" if "aligned w" "w \<noteq> ?v" "unat a div 4096 = unat w div 4096" for w a
    by (rule only_page_frame [OF u(3) _ that]) simp
  then show "pt_step pd s ps t ps" using t v(2) u(2) by (auto simp: pt_step_def)
  have "free_pages t ps" by (rule free_pages_frame [OF fr _ v(1) u(3)]) (use t in simp_all)
  then show "pt_inv t pd ps" using u(1) by (simp add: pt_inv_def)
  show "k < 2 ^ 20 \<Longrightarrow> entry (mem t) pd k = (if k = n then x else entry (mem s) pd k)" using u(5) by simp
qed

text \<open>
  The entries after mapping \<open>i\<close> pages from page \<open>n\<close> on, to the physical pages from \<open>pa\<close> on.
\<close>

definition mapped :: "nat \<Rightarrow> nat \<Rightarrow> u32 \<Rightarrow> u32 \<Rightarrow> (nat \<Rightarrow> u32) \<Rightarrow> nat \<Rightarrow> u32" where
  "mapped n i pa perm f k =
     (if n \<le> k \<and> k < n + i then (pa + of_nat (4096 * (k - n))) OR perm OR PTE_P else f k)"

lemma mapped_Suc:
  "mapped (Suc n) i (pa + PGSIZE) perm (\<lambda>k. if k = n then pa OR perm OR PTE_P else f k) k = mapped n (Suc i) pa perm f k"
proof -
  have e: "pa + PGSIZE + of_nat (4096 * (k - Suc n)) = pa + of_nat (4096 * (k - n))" if "Suc n \<le> k"
  proof -
    have "4096 * (k - n) = 4096 + 4096 * (k - Suc n)" using that by auto
    then have "(of_nat (4096 * (k - n)) :: u32) = PGSIZE + of_nat (4096 * (k - Suc n))" by (simp only: of_nat_add) simp
    then show ?thesis by (simp only: add.assoc)
  qed
  show ?thesis
  proof (cases "Suc n \<le> k")
    case True
    then have c: "(Suc n \<le> k \<and> k < Suc n + i) = (n \<le> k \<and> k < n + Suc i)" "k \<noteq> n" by auto
    then show ?thesis unfolding mapped_def c(1) e [OF True] by simp
  qed (auto simp: mapped_def)
qed

text \<open>One turn of the loop: the page is mapped, or there is no memory for its table.\<close>

lemma mappages_turn:
  assumes inv: "pt_inv s pd ps" and a: "a = of_nat (4096 * n)" "n < 2 ^ 20" and e: "\<not> present (entry (mem s) pd n)"
  obtains t where "mappages_loop pd a lst pa perm s = Ok (-1) t" "ps = []" "pt_inv t pd []" "pt_step pd s ps t []"
      "\<And>k. k < 2 ^ 20 \<Longrightarrow> entry (mem t) pd k = entry (mem s) pd k"
  | t qs where "mappages_loop pd a lst pa perm s = (if a = lst then Ok 0 t else if lst - a < PGSIZE then Spin
        else mappages_loop pd (a + PGSIZE) lst (pa + PGSIZE) perm t)"
      "pt_inv t pd qs" "pt_step pd s ps t qs" "length ps \<le> Suc (length qs)"
      "\<And>k. k < 2 ^ 20 \<Longrightarrow> entry (mem t) pd k = (if k = n then pa OR perm OR PTE_P else entry (mem s) pd k)"
proof -
  have "4096 * n < 2 ^ 32" using a(2) by simp
  then have n: "n = unat a div 4096" unfolding a(1) by (simp add: unat_small del: of_nat_mult)
  obtain r u qs where w: "walkpgdir pd a True s = Ok r u" "pt_inv u pd qs" "pt_step pd s ps u qs" "length ps \<le> Suc (length qs)"
     "\<forall>k < 2 ^ 20. entry (mem u) pd k = entry (mem s) pd k"
     "if r = 0 then mem u = mem s \<and> qs = ps \<and> ps = []
      else r = slot_addr (mem u) pd n \<and> present (pw (mem u) pd (n div 1024))"
    using walkpgdir_ok [OF inv n, of True] by (auto simp: returns_iff split: if_splits)
  show thesis
  proof (cases "r = 0")
    case True
    then have "mappages_loop pd a lst pa perm s = Ok (-1) u" "ps = []" "qs = []"
      using w(1,6) by (simp_all add: mappages_loop.simps [of pd a lst pa perm s])
    then show ?thesis using that(1) w(2,3,5) by blast
  next
    case False
    then have r: "r = slot_addr (mem u) pd n" "present (pw (mem u) pd (n div 1024))" using w(6) by simp_all
    let ?t = "u\<lparr>mem := store32 (slot_addr (mem u) pd n) (pa OR perm OR PTE_P) (mem u)\<rparr>"
    note se = set_entry [OF w(2) a(2) r(2), of ?t "pa OR perm OR PTE_P", OF refl]
    have "\<not> present (load32 (mem u) r)" using load_slot [OF r(2)] r(1) e w(5) a(2) by simp
    then have l: "load32 (mem u) r AND PTE_P = 0" by (simp add: present_def)
    have "mappages_loop pd a lst pa perm s = (if a = lst then Ok 0 ?t else if lst - a < PGSIZE then Spin
        else mappages_loop pd (a + PGSIZE) lst (pa + PGSIZE) perm ?t)"
      using False l r(1) by (simp add: mappages_loop.simps [of pd a lst pa perm s] w(1) Let_def)
    then show ?thesis
      using that(2) [OF _ se(1) pt_step_trans [OF w(3) se(2)] w(4)] se(3) w(5) by simp
  qed
qed

lemma mappages_loop_ok:
  assumes "pt_inv s pd ps" "a = of_nat (4096 * n)" "lst = of_nat (4096 * (n + j))" "n + j < 2 ^ 20"
    and "\<forall>k. n \<le> k \<and> k \<le> n + j \<longrightarrow> \<not> present (entry (mem s) pd k)"
  shows "returns (mappages_loop pd a lst pa perm s) (\<lambda>r t. \<exists>qs i. pt_inv t pd qs \<and> pt_step pd s ps t qs \<and>
     (r = 0 \<and> i = Suc j \<or> r = -1 \<and> i \<le> j \<and> qs = []) \<and>
     (\<forall>k < 2 ^ 20. entry (mem t) pd k = mapped n i pa perm (entry (mem s) pd) k))"
  using assms
proof (induction j arbitrary: n a pa s ps)
  case (0 n a pa s ps)
  have n: "n < 2 ^ 20" "\<not> present (entry (mem s) pd n)" using 0(4,5) by auto
  show ?case
  proof (rule mappages_turn [OF 0(1,2) n, of lst pa perm])
    fix t
    assume "mappages_loop pd a lst pa perm s = Ok (-1) t" "ps = []" "pt_inv t pd []" "pt_step pd s ps t []"
      "\<And>k. k < 2 ^ 20 \<Longrightarrow> entry (mem t) pd k = entry (mem s) pd k"
    then show ?thesis by (auto simp: mapped_def intro!: exI [of _ "[]"])
  next
    fix t qs
    assume t: "mappages_loop pd a lst pa perm s = (if a = lst then Ok 0 t else if lst - a < PGSIZE then Spin
        else mappages_loop pd (a + PGSIZE) lst (pa + PGSIZE) perm t)" "pt_inv t pd qs" "pt_step pd s ps t qs" "length ps \<le> Suc (length qs)"
      "\<And>k. k < 2 ^ 20 \<Longrightarrow> entry (mem t) pd k = (if k = n then pa OR perm OR PTE_P else entry (mem s) pd k)"
    have "a = lst" using 0(2,3) by simp
    then show ?thesis using t by (auto simp: mapped_def intro!: exI [of _ qs])
  qed
next
  case (Suc j n a pa s ps)
  have n: "n < 2 ^ 20" "\<not> present (entry (mem s) pd n)" using Suc.prems(4,5) by auto
  show ?case
  proof (rule mappages_turn [OF Suc.prems(1,2) n, of lst pa perm])
    fix t
    assume "mappages_loop pd a lst pa perm s = Ok (-1) t" "ps = []" "pt_inv t pd []" "pt_step pd s ps t []"
      "\<And>k. k < 2 ^ 20 \<Longrightarrow> entry (mem t) pd k = entry (mem s) pd k"
    then show ?thesis by (auto simp: mapped_def intro!: exI [of _ "[]"] exI [of _ 0])
  next
    fix t qs
    assume t: "mappages_loop pd a lst pa perm s = (if a = lst then Ok 0 t else if lst - a < PGSIZE then Spin
        else mappages_loop pd (a + PGSIZE) lst (pa + PGSIZE) perm t)" "pt_inv t pd qs" "pt_step pd s ps t qs" "length ps \<le> Suc (length qs)"
      "\<And>k. k < 2 ^ 20 \<Longrightarrow> entry (mem t) pd k = (if k = n then pa OR perm OR PTE_P else entry (mem s) pd k)"
    have "4096 * (n + Suc j) = 4096 * n + 4096 * Suc j" by simp
    then have "lst - a = of_nat (4096 * Suc j)" using Suc.prems(2,3) by (simp only: of_nat_add add_diff_cancel_left')
    moreover have "unat (of_nat (4096 * Suc j) :: u32) = 4096 * Suc j" using Suc.prems(4) by (intro unat_small) simp
    ultimately have "unat (lst - a) = 4096 * Suc j" by (simp only:)
    then have far: "a \<noteq> lst" "\<not> lst - a < PGSIZE" by (auto simp: word_less_nat_alt)
    have "4096 * Suc n = 4096 * n + 4096" by simp
    then have a': "a + PGSIZE = of_nat (4096 * Suc n)" using Suc.prems(2) by (simp only: of_nat_add) simp
    have l': "lst = of_nat (4096 * (Suc n + j))" using Suc.prems(3) by simp
    have np: "\<forall>k. Suc n \<le> k \<and> k \<le> Suc n + j \<longrightarrow> \<not> present (entry (mem t) pd k)"
      using Suc.prems(4,5) t(5) by auto
    have b: "Suc n + j < 2 ^ 20" using Suc.prems(4) by simp
    have e: "mapped (Suc n) i (pa + PGSIZE) perm (entry (mem t) pd) k = mapped n (Suc i) pa perm (entry (mem s) pd) k"
      if "k < 2 ^ 20" for k i
      unfolding mapped_Suc [symmetric] using t(5) [OF that] by (auto simp: mapped_def)
    show ?thesis
      unfolding t(1) using far
      by simp (rule returns_mono [OF Suc.IH [OF t(2) a' l' b np]],
          use e pt_step_trans [OF t(3)] in \<open>fastforce\<close>)
  qed
qed

lemma mappages_unfold:
  assumes "va = of_nat (4096 * n)" "sz0 = of_nat (4096 * Suc j)" "n + j < 2 ^ 20"
  shows "mappages pd va sz0 pa perm s = mappages_loop pd va (of_nat (4096 * (n + j))) pa perm s"
proof -
  have "unat va = 4096 * n" using assms(1,3) by (simp add: unat_small del: of_nat_mult)
  then have "unat (PGROUNDDOWN va) = unat va" by (simp add: PGROUNDDOWN_nat)
  then have a: "PGROUNDDOWN va = va" by (rule unsigned_word_eqI)
  have "4096 * Suc j + 4096 * n = Suc (4096 * (n + j) + 4095)" by simp
  then have "va + sz0 = of_nat (Suc (4096 * (n + j) + 4095))"
    using assms(1,2) by (simp only: of_nat_add [symmetric] add.commute)
  then have e: "va + sz0 - 1 = of_nat (4096 * (n + j) + 4095)" by (simp only: of_nat_Suc add_diff_cancel_left')
  have "unat (va + sz0 - 1) = 4096 * (n + j) + 4095"
    unfolding e using assms(3) by (intro unat_small) simp
  moreover have "(4096 * m + 4095) div 4096 = m" for m :: nat by simp
  ultimately have "unat (PGROUNDDOWN (va + sz0 - 1)) = 4096 * (n + j)" by (simp only: PGROUNDDOWN_nat)
  moreover have "unat (of_nat (4096 * (n + j)) :: u32) = 4096 * (n + j)" using assms(3) by (intro unat_small) simp
  ultimately have "unat (PGROUNDDOWN (va + sz0 - 1)) = unat (of_nat (4096 * (n + j)) :: u32)" by (simp only:)
  then have l: "PGROUNDDOWN (va + sz0 - 1) = of_nat (4096 * (n + j))" by (rule unsigned_word_eqI)
  show ?thesis unfolding mappages_def a l ..
qed

lemma mappages_ok:
  assumes "pt_inv s pd ps" "va = of_nat (4096 * n)" "sz0 = of_nat (4096 * Suc j)" "n + j < 2 ^ 20"
    and "\<forall>k. n \<le> k \<and> k \<le> n + j \<longrightarrow> \<not> present (entry (mem s) pd k)"
  shows "returns (mappages pd va sz0 pa perm s) (\<lambda>r t. \<exists>qs i. pt_inv t pd qs \<and> pt_step pd s ps t qs \<and>
     (r = 0 \<and> i = Suc j \<or> r = -1 \<and> i \<le> j \<and> qs = []) \<and>
     (\<forall>k < 2 ^ 20. entry (mem t) pd k = mapped n i pa perm (entry (mem s) pd) k))"
  unfolding mappages_unfold [OF assms(2-4)] by (rule mappages_loop_ok [OF assms(1,2) refl assms(4,5)])

section \<open>Translation\<close>

text \<open>The processor translates an address as the entry of its page says.\<close>

lemma one_bit: "(e :: u32) AND 1 \<noteq> 1 \<longleftrightarrow> \<not> present e"
  by (simp add: present_bit and_one_eq mod_2_eq_odd bit_0)

lemma cr3_lcr3: "cpu_inv s \<Longrightarrow> cr3 (my_cpu (lcr3 v s)) = v"
  using me_less [of s] me_cong [of "lcr3 v s" s] by (simp add: lcr3_def upd_cpu_def map_update_same)

lemma mmu_walk_entry:
  assumes "cr3 (my_cpu s) = V2P pd"
  shows "mmu_walk PTE_P va s = (let e = entry (mem s) pd (unat va div 4096) in
     if present e then Some (P2V (PTE_ADDR e) + (va AND 0xFFF)) else None)"
proof -
  have "P2V (V2P pd) = pd" by (simp add: P2V_def V2P_def)
  then show ?thesis
    using index_nat(1,2) [of va] assms present_new(3)
    by (simp add: mmu_walk_def Let_def entry_at_def pw_def tab_P2V one_bit del: of_nat_mult)
qed

lemma mapped_entry:
  assumes "aligned pa" "perm AND NOT 0xFFF = 0" "n \<le> k" "k < n + i"
  shows "present (mapped n i pa perm f k)" "PTE_ADDR (mapped n i pa perm f k) = pa + of_nat (4096 * (k - n))"
proof -
  let ?x = "pa + of_nat (4096 * (k - n)) :: u32"
  have m: "mapped n i pa perm f k = ?x OR perm OR PTE_P" using assms(3,4) by (simp add: mapped_def)
  show "present (mapped n i pa perm f k)" unfolding m by (rule present_new(2))
  have "unat ?x mod 4096 = ((unat pa + 4096 * (k - n) mod 2 ^ 32) mod 2 ^ 32) mod 4096"
    by (simp add: unat_word_ariths unat_of_nat take_bit_eq_mod del: of_nat_mult)
  also have "\<dots> = (unat pa + 4096 * (k - n) mod 2 ^ 32) mod 4096" by (rule mod_mod_cancel) simp
  also have "\<dots> = 0"
  proof -
    have "unat pa mod 4096 = 0" using assms(1) by (simp add: aligned_nat)
    moreover have "(4096 * (k - n) mod 2 ^ 32) mod 4096 = 0" by (simp add: mod_mod_cancel)
    ultimately show ?thesis by (metis add_0 mod_0 mod_add_eq)
  qed
  finally have "aligned ?x" by (simp add: aligned_nat)
  moreover have "(perm OR PTE_P) AND NOT 0xFFF = 0" using assms(2) by (simp only: bit.conj_disj_distrib2) simp
  ultimately show "PTE_ADDR (mapped n i pa perm f k) = ?x" unfolding m by (simp only: PTE_ADDR_or)
qed

section \<open>Growing a user address space\<close>

text \<open>
  \<open>grown pd s ps t qs n fs\<close>: the virtual pages from \<open>n\<close> on are mapped to the frames \<open>fs\<close>, which
  were free, are distinct, hold zeros and are neither free nor part of the tables now.
\<close>

definition zeroed :: "memory \<Rightarrow> u32 \<Rightarrow> bool" where
  "zeroed m f \<longleftrightarrow> (\<forall>a :: u32. unat a div 4096 = unat f div 4096 \<longrightarrow> m a = 0)"

definition grown :: "u32 \<Rightarrow> 'z vm_scheme \<Rightarrow> u32 list \<Rightarrow> 'z vm_scheme \<Rightarrow> u32 list \<Rightarrow> nat \<Rightarrow> u32 list \<Rightarrow> bool" where
  "grown pd s ps t qs n fs \<longleftrightarrow> pt_inv t pd qs \<and> balanced s t \<and> set qs \<subseteq> set ps \<and> set fs \<subseteq> set ps \<and> distinct fs \<and>
     set fs \<inter> (insert pd (set qs \<union> tables (mem t) pd)) = {} \<and>
     tables (mem s) pd \<subseteq> tables (mem t) pd \<and> tables (mem t) pd \<subseteq> tables (mem s) pd \<union> set ps \<and>
     (\<forall>f \<in> set fs. zeroed (mem t) f) \<and>
     (\<forall>k < 2 ^ 20. entry (mem t) pd k =
        (if n \<le> k \<and> k < n + length fs then V2P (fs ! (k - n)) OR (PTE_W OR PTE_U) OR PTE_P else entry (mem s) pd k)) \<and>
     (\<forall>v. aligned v \<and> v \<notin> insert pd (set fs \<union> tables (mem t) pd) \<longrightarrow>
       (\<forall>a :: u32. unat a div 4096 = unat v div 4096 \<longrightarrow> mem t a = mem s a))"

lemma memset_zeroed: "aligned p \<Longrightarrow> zeroed (memset p 0 PGSIZE m) p"
  by (simp add: zeroed_def memset_eq in_page_iff)

lemma grow_one:
  assumes inv: "pt_inv s pd (p # ps)" and n: "n < 2 ^ 20" "a = of_nat (4096 * n)" "\<not> present (entry (mem s) pd n)"
    and l: "ps \<noteq> []" and k: "kalloc s = Ok p k"
  shows "returns (mappages pd a PGSIZE (V2P p) (PTE_W OR PTE_U) (k\<lparr>mem := memset p 0 PGSIZE (mem k)\<rparr>)) (\<lambda>r t. r = 0 \<and>
     (\<exists>qs. grown pd s (p # ps) t qs n [p] \<and> length ps \<le> Suc (length qs)))"
proof -
  let ?m = "memset p 0 PGSIZE (mem k)" and ?u = "k\<lparr>mem := memset p 0 PGSIZE (mem k)\<rparr>"
  have fr: "free_pages s (p # ps)" and okm: "pt_ok (mem s) pd (set (p # ps))" using inv by (simp_all add: pt_inv_def)
  note ok = pt_okD [OF okm]
  have kk: "balanced s k" "mem k = mem s" "free_pages k ps" using kalloc_pages [OF fr] k by simp_all
  have p: "aligned p" "p \<notin> set ps" "p \<noteq> pd" using fr ok(2) by (auto simp: free_pages_def page_ok_def)
  have pt: "p \<notin> tables (mem s) pd" using ok(3) by (auto simp: tables_at_def)
  have o: "only_page p (mem s) ?m" using only_page_memset [OF p(1), of 0 PGSIZE "mem s" 0] kk(2) by simp
  have dirs: "pw ?m pd i = pw (mem s) pd i" if "i < 1024" for i using pw_only_page [OF o p(1) ok(1) p(3) that] .
  have tabs: "pw ?m v j = pw (mem s) v j" if "v \<in> tables (mem s) pd" "j < 1024" for v j
    using pw_only_page [OF o p(1) _ _ that(2), of v] that(1) pt by (auto simp: tables_at_def)
  have tm: "tables ?m pd = tables (mem s) pd" using dirs by (rule tables_cong)
  have em: "entry ?m pd i = entry (mem s) pd i" if "i < 2 ^ 20" for i using entry_cong [OF dirs tabs that] by auto
  have "free_pages ?u ps" using o kk by (intro free_pages_frame [OF kk(3) p(1,2)]) simp_all
  moreover have "pt_ok ?m pd (set ps)" using okm dirs by (simp add: shape_def)
  ultimately have iu: "pt_inv ?u pd ps" by (simp add: pt_inv_def)
  have ne: "\<not> present (entry (mem ?u) pd n)" using em [OF n(1)] n(3) by simp
  have mp: "mappages pd a PGSIZE (V2P p) (PTE_W OR PTE_U) ?u = mappages_loop pd a a (V2P p) (PTE_W OR PTE_U) ?u"
    using mappages_unfold [OF n(2), of PGSIZE 0 pd "V2P p" "PTE_W OR PTE_U" ?u] n by simp
  show ?thesis
  proof (rule mappages_turn [OF iu n(2,1) ne, of a "V2P p" "PTE_W OR PTE_U"])
    fix t assume "ps = []"
    then show ?thesis using l by simp
  next
    fix t qs
    assume t: "mappages_loop pd a a (V2P p) (PTE_W OR PTE_U) ?u = (if a = a then Ok 0 t else if a - a < PGSIZE then Spin
        else mappages_loop pd (a + PGSIZE) a (V2P p + PGSIZE) (PTE_W OR PTE_U) t)"
      "pt_inv t pd qs" "pt_step pd ?u ps t qs" "length ps \<le> Suc (length qs)"
      "\<And>k. k < 2 ^ 20 \<Longrightarrow> entry (mem t) pd k = (if k = n then V2P p OR (PTE_W OR PTE_U) OR PTE_P else entry (mem ?u) pd k)"
    have st: "balanced k t" "set qs \<subseteq> set ps" "tables (mem s) pd \<subseteq> tables (mem t) pd"
      "tables (mem t) pd \<subseteq> tables (mem s) pd \<union> set ps"
      "\<And>v x. aligned v \<Longrightarrow> v \<noteq> pd \<Longrightarrow> v \<notin> tables (mem t) pd \<Longrightarrow> unat (x :: u32) div 4096 = unat v div 4096 \<Longrightarrow> mem t x = ?m x"
      using t(3) tm by (auto simp: pt_step_def)
    have pn: "p \<notin> set qs" "p \<notin> tables (mem t) pd" using p(2) pt st(2,4) by auto
    have z: "zeroed (mem t) p" using memset_zeroed [OF p(1)] st(5) [OF p(1,3) pn(2)] by (simp add: zeroed_def)
    have fm: "mem t x = mem s x" if "aligned v" "v \<noteq> pd" "v \<noteq> p" "v \<notin> tables (mem t) pd" "unat x div 4096 = unat v div 4096" for v x
      using st(5) [OF that(1,2,4,5)] only_page_frame [OF o p(1) that(1,3,5)] by simp
    have "entry (mem t) pd i = (if n \<le> i \<and> i < n + length [p] then V2P ([p] ! (i - n)) OR (PTE_W OR PTE_U) OR PTE_P
        else entry (mem s) pd i)" if "i < 2 ^ 20" for i
      using t(5) [OF that] em [OF that] by auto
    then have "grown pd s (p # ps) t qs n [p]"
      using t(2) balanced_trans [OF kk(1) st(1)] st(2-4) pn p(3) z fm by (auto simp: grown_def)
    then show ?thesis using t(1,4) mp by auto
  qed
qed

lemma grown_refl: "pt_inv s pd ps \<Longrightarrow> grown pd s ps s ps n []"
  by (auto simp: grown_def)

lemma grownD:
  assumes "grown pd s ps t qs n fs"
  shows "pt_inv t pd qs" "balanced s t" "set qs \<subseteq> set ps" "set fs \<subseteq> set ps" "distinct fs"
    "f \<in> set fs \<Longrightarrow> f \<noteq> pd" "f \<in> set fs \<Longrightarrow> f \<notin> set qs" "f \<in> set fs \<Longrightarrow> f \<notin> tables (mem t) pd"
    "tables (mem s) pd \<subseteq> tables (mem t) pd" "tables (mem t) pd \<subseteq> tables (mem s) pd \<union> set ps"
    "f \<in> set fs \<Longrightarrow> zeroed (mem t) f"
    "k < 2 ^ 20 \<Longrightarrow> entry (mem t) pd k =
        (if n \<le> k \<and> k < n + length fs then V2P (fs ! (k - n)) OR (PTE_W OR PTE_U) OR PTE_P else entry (mem s) pd k)"
    "aligned v \<Longrightarrow> v \<noteq> pd \<Longrightarrow> v \<notin> set fs \<Longrightarrow> v \<notin> tables (mem t) pd \<Longrightarrow> unat (a :: u32) div 4096 = unat v div 4096 \<Longrightarrow> mem t a = mem s a"
  using assms unfolding grown_def by blast+

lemma grown_trans:
  assumes 1: "grown pd s ps t qs n fs" and 2: "grown pd t qs u rs (n + length fs) gs" and al: "\<forall>p \<in> set ps. aligned p"
  shows "grown pd s ps u rs n (fs @ gs)"
  unfolding grown_def
proof (intro conjI)
  note g = grownD [OF 1] and h = grownD [OF 2]
  show "pt_inv u pd rs" "balanced s u" "set rs \<subseteq> set ps" "set (fs @ gs) \<subseteq> set ps"
    using h(1) balanced_trans [OF g(2) h(2)] g(3,4) h(3,4) by auto
  show "distinct (fs @ gs)" using g(5,7) h(4,5) by auto
  show tu: "tables (mem s) pd \<subseteq> tables (mem u) pd" "tables (mem u) pd \<subseteq> tables (mem s) pd \<union> set ps"
    using g(3,9,10) h(9,10) by auto
  have ft: "f \<notin> tables (mem u) pd" if "f \<in> set fs" for f using g(7,8) [OF that] h(10) by auto
  show "set (fs @ gs) \<inter> insert pd (set rs \<union> tables (mem u) pd) = {}" using g(6,7) h(3,6,7,8) ft by auto
  have "zeroed (mem u) f" if "f \<in> set fs" for f
  proof -
    have "aligned f" "f \<notin> set gs" using al g(4,7) h(4) that by auto
    then show ?thesis using g(6,11) [OF that] h(13) [of f] ft [OF that] by (auto simp: zeroed_def)
  qed
  then show "\<forall>f \<in> set (fs @ gs). zeroed (mem u) f" using h(11) by auto
  show "\<forall>k < 2 ^ 20. entry (mem u) pd k = (if n \<le> k \<and> k < n + length (fs @ gs)
      then V2P ((fs @ gs) ! (k - n)) OR (PTE_W OR PTE_U) OR PTE_P else entry (mem s) pd k)"
  proof (intro allI impI)
    fix k :: nat assume k: "k < 2 ^ 20"
    have "k - n - length fs = k - (n + length fs)" by simp
    then show "entry (mem u) pd k = (if n \<le> k \<and> k < n + length (fs @ gs)
      then V2P ((fs @ gs) ! (k - n)) OR (PTE_W OR PTE_U) OR PTE_P else entry (mem s) pd k)"
      using g(12) [OF k] h(12) [OF k] by (auto simp: nth_append)
  qed
  show "\<forall>v. aligned v \<and> v \<notin> insert pd (set (fs @ gs) \<union> tables (mem u) pd) \<longrightarrow>
       (\<forall>a :: u32. unat a div 4096 = unat v div 4096 \<longrightarrow> mem u a = mem s a)"
  proof (intro allI impI)
    fix v a :: u32
    assume v: "aligned v \<and> v \<notin> insert pd (set (fs @ gs) \<union> tables (mem u) pd)" "unat a div 4096 = unat v div 4096"
    have "mem u a = mem t a" using h(13) [OF _ _ _ _ v(2)] v(1) by simp
    moreover have "mem t a = mem s a" using g(13) [OF _ _ _ _ v(2)] v(1) h(9) by auto
    ultimately show "mem u a = mem s a" by simp
  qed
qed

lemma allocuvm_loop_ok:
  assumes "pt_inv s pd ps" "2 * j \<le> length ps" "a = of_nat (4096 * n)" "n + j \<le> 2 ^ 19"
    and "unat newsz \<le> 4096 * (n + j)" "j = 0 \<or> 4096 * (n + j) < unat newsz + 4096"
    and "\<forall>k. n \<le> k \<and> k < n + j \<longrightarrow> \<not> present (entry (mem s) pd k)"
  shows "returns (allocuvm_loop pd a oldsz newsz s) (\<lambda>r t. r = newsz \<and> (\<exists>qs fs. grown pd s ps t qs n fs \<and> length fs = j))"
  using assms
proof (induction j arbitrary: s ps a n)
  case (0 s ps a n)
  have "unat a = 4096 * n" unfolding 0(3) using 0(4) by (intro unat_small) simp
  then have "\<not> a < newsz" using 0(5) by (simp add: word_less_nat_alt)
  then show ?case using grown_refl [OF 0(1)] by (auto simp: allocuvm_loop.simps)
next
  case (Suc j s ps a n)
  have ua: "unat a = 4096 * n" unfolding Suc.prems(3) using Suc.prems(4) by (intro unat_small) simp
  have lt: "a < newsz" using Suc.prems(6) ua by (simp add: word_less_nat_alt)
  obtain p qs where ps: "ps = p # qs" "qs \<noteq> []" using Suc.prems(2) by (cases ps; cases "tl ps") auto
  have fr: "free_pages s (p # qs)" using Suc.prems(1) ps by (simp add: pt_inv_def)
  obtain k where k: "kalloc s = Ok p k" "p \<noteq> 0" using kalloc_pages [OF fr] by (auto simp: returns_iff)
  have al: "\<forall>p \<in> set ps. aligned p" using fr ps by (auto simp: free_pages_def page_ok_def)
  have n: "n < 2 ^ 20" "\<not> present (entry (mem s) pd n)" using Suc.prems(4,7) by auto
  obtain t rs where t: "mappages pd a PGSIZE (V2P p) (PTE_W OR PTE_U) (k\<lparr>mem := memset p 0 PGSIZE (mem k)\<rparr>) = Ok 0 t"
      "grown pd s ps t rs n [p]" "length qs \<le> Suc (length rs)"
    using grow_one [OF Suc.prems(1) [unfolded ps(1)] n(1) Suc.prems(3) n(2) ps(2) k(1)] ps(1) by (auto simp: returns_iff)
  have "4096 * Suc n = 4096 * n + 4096" by simp
  then have a': "a + PGSIZE = of_nat (4096 * Suc n)" using Suc.prems(3) by (simp only: of_nat_add) simp
  have "unat (a + PGSIZE) = 4096 * Suc n" unfolding a' using Suc.prems(4) by (intro unat_small) simp
  then have up: "\<not> a + PGSIZE \<le> a" using ua by (simp add: word_le_nat_alt)
  have e: "allocuvm_loop pd a oldsz newsz s = allocuvm_loop pd (a + PGSIZE) oldsz newsz t"
    using lt k t(1) up by (simp add: allocuvm_loop.simps [of pd a oldsz newsz s] Let_def)
  have np: "\<forall>i. Suc n \<le> i \<and> i < Suc n + j \<longrightarrow> \<not> present (entry (mem t) pd i)"
    using grownD(12) [OF t(2)] Suc.prems(4,7) by auto
  have "returns (allocuvm_loop pd (a + PGSIZE) oldsz newsz t)
      (\<lambda>r u. r = newsz \<and> (\<exists>qs fs. grown pd t rs u qs (Suc n) fs \<and> length fs = j))"
    by (rule Suc.IH [OF grownD(1) [OF t(2)] _ a' _ _ _ np])
      (use Suc.prems(2,4,5,6) t(3) ps(1) in auto)
  then show ?case
    unfolding e
  proof (rule returns_mono)
    fix r u assume "r = newsz \<and> (\<exists>qs fs. grown pd t rs u qs (Suc n) fs \<and> length fs = j)"
    then obtain qs' fs where u: "r = newsz" "grown pd t rs u qs' (n + length [p]) fs" "length fs = j" by auto
    show "r = newsz \<and> (\<exists>qs fs. grown pd s ps u qs n fs \<and> length fs = Suc j)"
      using u(1,3) grown_trans [OF t(2) u(2) al] by (intro conjI exI [of _ qs'] exI [of _ "[p] @ fs"]) simp_all
  qed
qed

section \<open>Properties\<close>

lemma vmstate0_dir:
  assumes "i < 1024"
  shows "pw (mem vmstate0) 0x80402000 i = 0"
proof -
  have m: "mem vmstate0 = store32 0x80400000 0x80401000 (\<lambda>_. 0)"
    using machine_view(8) [OF vmstate0_view(2)] by (simp add: ptable0_fields kmem0_fields)
  then show ?thesis
    using pw_store [of "0x80400000" "0x80402000" 0 i "0x80401000" "\<lambda>_. 0"] assms
    by (simp add: aligned_def) (simp add: pw_def load32_def)
qed

lemma vmstate0_pt: "pt_inv vmstate0 0x80402000 [0x80400000, 0x80401000]"
proof -
  have "pt_ok (mem vmstate0) 0x80402000 {0x80400000, 0x80401000}"
    using present_new(3) vmstate0_dir by (simp add: shape_def aligned_def)
  moreover have "free_pages vmstate0 [0x80400000, 0x80401000]"
    using ptable0_pages by (simp add: vmstate0_def ptable.extend_def vm.fields_def free_pages_def cpu_inv_def me_def)
  ultimately show ?thesis by (simp add: pt_inv_def)
qed

lemma vmstate0_entry: "k < 2 ^ 20 \<Longrightarrow> \<not> present (entry (mem vmstate0) 0x80402000 k)"
  using vmstate0_dir [of "k div 1024"] present_new(3) by (simp add: entry_at_def less_mult_imp_div_less)

text \<open>The entries of a directory, and a range of \<open>j\<close> pages from page \<open>n\<close> on without any.\<close>

definition maps :: "memory \<Rightarrow> u32 \<Rightarrow> (nat \<Rightarrow> u32) \<Rightarrow> bool" where
  "maps m pd f \<longleftrightarrow> (\<forall>k < 2 ^ 20. entry m pd k = f k)"

definition unmapped :: "memory \<Rightarrow> u32 \<Rightarrow> nat \<Rightarrow> nat \<Rightarrow> bool" where
  "unmapped m pd n j \<longleftrightarrow> (\<forall>k. n \<le> k \<and> k < n + j \<longrightarrow> \<not> present (entry m pd k))"

text \<open>
  C24: \<open>mappages\<close> on a range of unmapped pages returns.  With 0 the directory maps the whole
  range to consecutive physical pages with the given permissions, and with -1, only when the
  last free page is used up, a proper part of it.  Either way every other entry is as before,
  the directory stays well formed, and no page is written but the directory, its tables and
  pages taken from the free list for new tables.
\<close>

theorem mappages_refines:
  assumes "pt_inv s pd ps" "va = of_nat (4096 * n)" "sz0 = of_nat (4096 * Suc j)" "n + j < 2 ^ 20"
    and "unmapped (mem s) pd n (Suc j)"
  shows "returns (mappages pd va sz0 pa perm s) (\<lambda>r t. \<exists>qs i. pt_inv t pd qs \<and> pt_step pd s ps t qs \<and>
     (r = 0 \<and> i = Suc j \<or> r = -1 \<and> i \<le> j \<and> qs = []) \<and> maps (mem t) pd (mapped n i pa perm (entry (mem s) pd)))"
  using mappages_ok [OF assms(1-4), of pa perm] assms(5) by (simp add: unmapped_def maps_def less_Suc_eq_le)

theorem mappages_refines_witness:
  "returns (mappages 0x80402000 0x3000 0x2000 0x700000 6 vmstate0) (\<lambda>r t. \<exists>qs i. pt_inv t 0x80402000 qs \<and>
     pt_step 0x80402000 vmstate0 [0x80400000, 0x80401000] t qs \<and> (r = 0 \<and> i = Suc 1 \<or> r = -1 \<and> i \<le> 1 \<and> qs = []) \<and>
     maps (mem t) 0x80402000 (mapped 3 i 0x700000 6 (entry (mem vmstate0) 0x80402000)))"
  by (rule mappages_refines [OF vmstate0_pt]) (use vmstate0_entry in \<open>auto simp: unmapped_def\<close>)

text \<open>
  C25: once \<open>mappages\<close> has succeeded, a processor that loads this directory translates every
  address of the range to its place in the physical pages that were given, and every address
  outside the range as it did before.
\<close>

theorem mappages_translates:
  assumes "pt_inv s pd ps" "va = of_nat (4096 * n)" "sz0 = of_nat (4096 * Suc j)" "n + j < 2 ^ 20"
    and "unmapped (mem s) pd n (Suc j)" "aligned pa" "perm AND NOT 0xFFF = 0"
  shows "returns (mappages pd va sz0 pa perm s) (\<lambda>r t. r = -1 \<or>
     mmu_walk PTE_P x (lcr3 (V2P pd) t) =
     (if n \<le> unat x div 4096 \<and> unat x div 4096 \<le> n + j
      then Some (P2V (pa + of_nat (4096 * (unat x div 4096 - n))) + (x AND 0xFFF))
      else mmu_walk PTE_P x (lcr3 (V2P pd) s)))"
proof (rule returns_mono [OF mappages_ok [OF assms(1-4) assms(5) [unfolded unmapped_def add_Suc_right less_Suc_eq_le], of pa perm]])
  let ?k = "unat x div 4096"
  fix r t
  assume "\<exists>qs i. pt_inv t pd qs \<and> pt_step pd s ps t qs \<and> (r = 0 \<and> i = Suc j \<or> r = -1 \<and> i \<le> j \<and> qs = []) \<and>
     (\<forall>k < 2 ^ 20. entry (mem t) pd k = mapped n i pa perm (entry (mem s) pd) k)"
  then consider "r = -1" | qs where "pt_inv t pd qs" "entry (mem t) pd ?k = mapped n (Suc j) pa perm (entry (mem s) pd) ?k"
    using vpn_bound [of x] by auto
  then show "r = -1 \<or> mmu_walk PTE_P x (lcr3 (V2P pd) t) =
     (if n \<le> ?k \<and> ?k \<le> n + j then Some (P2V (pa + of_nat (4096 * (?k - n))) + (x AND 0xFFF))
      else mmu_walk PTE_P x (lcr3 (V2P pd) s))"
  proof cases
    case (2 qs)
    have c: "cpu_inv s" "cpu_inv t" using assms(1) 2(1) by (simp_all add: pt_inv_def free_pages_def)
    note w = mmu_walk_entry [OF cr3_lcr3 [OF c(1)], of _ pd] mmu_walk_entry [OF cr3_lcr3 [OF c(2)], of _ pd]
    have "mapped n (Suc j) pa perm (entry (mem s) pd) ?k = entry (mem s) pd ?k" if "\<not> (n \<le> ?k \<and> ?k \<le> n + j)"
      using that by (auto simp: mapped_def)
    then show ?thesis
      using w [of x] 2(2) mapped_entry [OF assms(6,7), of n ?k "Suc j"] by (simp add: Let_def lcr3_frame)
  qed simp
qed

theorem mappages_translates_witness:
  "returns (mappages 0x80402000 0x3000 0x2000 0x700000 6 vmstate0) (\<lambda>r t. r = -1 \<or>
     mmu_walk PTE_P 0x4010 (lcr3 (V2P 0x80402000) t) =
     (if 3 \<le> unat (0x4010 :: u32) div 4096 \<and> unat (0x4010 :: u32) div 4096 \<le> 3 + 1
      then Some (P2V (0x700000 + of_nat (4096 * (unat (0x4010 :: u32) div 4096 - 3))) + (0x4010 AND 0xFFF))
      else mmu_walk PTE_P 0x4010 (lcr3 (V2P 0x80402000) vmstate0)))"
  by (rule mappages_translates [OF vmstate0_pt]) (use vmstate0_entry in \<open>auto simp: unmapped_def aligned_def\<close>)

definition page_count :: "u32 \<Rightarrow> nat" where
  "page_count sz0 = (unat sz0 + 4095) div 4096"

text \<open>
  C23: growing a user address space with enough free memory succeeds.  Every page between the
  old and the new size is mapped, for the user and writable, to a frame of its own that was
  free and holds zeros; no other entry changes, and no memory is written but these frames and
  the page tables.
\<close>

theorem allocuvm_grows:
  assumes "pt_inv s pd ps" "oldsz \<le> newsz" "newsz < KERNBASE"
    and "unmapped (mem s) pd (page_count oldsz) (page_count newsz - page_count oldsz)"
    and "2 * (page_count newsz - page_count oldsz) \<le> length ps"
  shows "returns (allocuvm pd oldsz newsz s) (\<lambda>r t. r = newsz \<and>
     (\<exists>qs fs. grown pd s ps t qs (page_count oldsz) fs \<and> length fs = page_count newsz - page_count oldsz))"
proof -
  let ?n = "page_count oldsz" and ?j = "page_count newsz - page_count oldsz"
  have u: "unat oldsz \<le> unat newsz" "unat newsz < 2 ^ 31"
    using assms(2,3) by (simp_all add: word_le_nat_alt word_less_nat_alt)
  have le: "?n \<le> page_count newsz" unfolding page_count_def using u(1) by (intro div_le_mono) simp
  have nj: "?n + ?j = page_count newsz" using le by simp
  have "unat (PGROUNDUP oldsz) = 4096 * ?n" unfolding page_count_def using u by (intro PGROUNDUP_nat) simp
  moreover have "page_count newsz \<le> 2 ^ 19" using u(2) by (simp add: page_count_def less_mult_imp_div_less)
  moreover have "unat (of_nat (4096 * ?n) :: u32) = 4096 * ?n" using le calculation(2) by (intro unat_small) simp
  ultimately have a: "PGROUNDUP oldsz = of_nat (4096 * ?n)" "?n + ?j \<le> 2 ^ 19"
    using nj by (simp_all only:) (metis unsigned_word_eqI)
  have b: "unat newsz \<le> 4096 * (?n + ?j)" "?j = 0 \<or> 4096 * (?n + ?j) < unat newsz + 4096"
    unfolding nj by (simp_all add: page_count_def) linarith+
  have e: "allocuvm pd oldsz newsz s = allocuvm_loop pd (PGROUNDUP oldsz) oldsz newsz s"
    using assms(2,3) by (auto simp: allocuvm_def)
  show ?thesis
    unfolding e by (rule allocuvm_loop_ok [OF assms(1,5) a b]) (use assms(4) in \<open>simp add: unmapped_def\<close>)
qed

theorem allocuvm_grows_witness:
  "returns (allocuvm 0x80402000 0x1000 0x1800 vmstate0) (\<lambda>r t. r = 0x1800 \<and>
     (\<exists>qs fs. grown 0x80402000 vmstate0 [0x80400000, 0x80401000] t qs (page_count 0x1000) fs \<and>
       length fs = page_count 0x1800 - page_count 0x1000))"
  by (rule allocuvm_grows [OF vmstate0_pt]) (use vmstate0_entry in \<open>auto simp: unmapped_def page_count_def\<close>)

end
