(* ===== verification/Handles.thy ===== *)
theory Handles
  imports Pipe PageTable
begin

text \<open>
  System-call arguments and file descriptors.  An argument is a word on the user stack that is
  read through the page table; a pointer that passes the checks leads only to mapped memory of
  the process.  The open-file table is well typed when every descriptor of every process names
  a slot of the table and the reference count of a slot is the number of descriptors that name
  it; \<open>dup\<close> and \<open>close\<close> keep it so.
\<close>

section \<open>Reading user memory\<close>

definition same_space :: "'z machine_scheme \<Rightarrow> 'y machine_scheme \<Rightarrow> bool" where
  "same_space s t \<longleftrightarrow> mem t = mem s \<and> me t = me s \<and> map cr3 (cpus t) = map cr3 (cpus s) \<and> length (cpus t) = length (cpus s)"

lemma same_space_refl [simp]: "same_space s s"
  by (simp add: same_space_def)

lemma same_space_trans: "same_space s t \<Longrightarrow> same_space t u \<Longrightarrow> same_space s u"
  by (simp add: same_space_def)

lemma mmu_walk_same:
  assumes "same_space s t" "me s < length (cpus s)"
  shows "mmu_walk need a t = mmu_walk need a s"
proof -
  have e: "map cr3 (cpus t) ! me s = map cr3 (cpus s) ! me s" "length (cpus t) = length (cpus s)" "me t = me s"
    using assms(1) by (simp_all only: same_space_def)
  then have "cr3 (my_cpu t) = cr3 (my_cpu s)" using assms(2) by simp
  then show ?thesis using assms(1) by (simp add: mmu_walk_def same_space_def Let_def)
qed

lemma curproc_ok:
  assumes "cpu_inv s" "cur s = Some i"
  shows "\<exists>t. curproc s = Ok i t \<and> balanced s t \<and> same_space s t \<and> machine.more t = machine.more s"
proof -
  let ?t = "popped (pushed s)"
  have l: "me s < length (cpus s)" using assms(1) by (rule me_less)
  obtain p where p: "myproc s = Ok p ?t" "p = cpu_proc (my_cpu s)" "balanced s ?t"
    using myproc_ok [OF assms(1)] by (auto simp: returns_iff)
  have c: "cpus ?t = (cpus s)[me s := (my_cpu s)\<lparr>intena := (if ncli (my_cpu s) = 0 then intr s else intena (my_cpu s))\<rparr>]"
    using l by (simp add: cpus_popped cpus_pushed)
  have "map cr3 (cpus ?t) = map cr3 (cpus s)" unfolding c by (rule map_update_same) simp
  moreover have "mem ?t = mem s" "machine.more ?t = machine.more s" by (simp_all add: popped_def pushed_def)
  moreover have "me ?t = me s" by (rule balanced_me [OF p(3)])
  moreover have "length (cpus ?t) = length (cpus s)" using c by (simp only: length_list_update)
  ultimately have "same_space s ?t" "machine.more ?t = machine.more s" by (simp_all only: same_space_def simp_thms)
  moreover have "curproc s = Ok i ?t" using p(1,2) assms(2) by (simp add: curproc_def nonnull_def cur_def del: returns_iff)
  ultimately show ?thesis using p(3) by blast
qed

definition user_ok :: "nat \<Rightarrow> 'z kernel_scheme \<Rightarrow> bool" where
  "user_ok i s \<longleftrightarrow> idle s \<and> cur s = Some i \<and> i < length (procs s) \<and> sz (procs s ! i) \<le> KERNBASE \<and>
     (\<forall>a < sz (procs s ! i). mmu_walk PTE_P a s \<noteq> None)"

text \<open>\<open>read_only s t\<close>: the call has read and nothing else.\<close>

definition read_only :: "'z machine_scheme \<Rightarrow> 'z machine_scheme \<Rightarrow> bool" where
  "read_only s t \<longleftrightarrow> balanced s t \<and> same_space s t \<and> machine.more t = machine.more s"

lemma read_only_refl [simp]: "read_only s s"
  by (simp add: read_only_def)

lemma read_only_trans: "read_only s t \<Longrightarrow> read_only t u \<Longrightarrow> read_only s u"
  unfolding read_only_def using balanced_trans same_space_trans by metis

lemma idle_cpu: "idle s \<Longrightarrow> cpu_inv s"
  using idle_lock [of s PtableLock] by (simp add: can_lock_def)

lemma read_only_fields:
  assumes "read_only s t"
  shows "procs t = procs s" "files t = files s" "pipes t = pipes s" "mem t = mem s"
    "inodes t = inodes s" "sleeps t = sleeps s" "outstanding t = outstanding s" "committing t = committing s" "lh_n t = lh_n s"
  using assms by (cases s, cases t, simp add: read_only_def same_space_def)+

lemma user_okD:
  assumes "user_ok i s"
  shows "idle s" "cpu_inv s" "cur s = Some i" "i < length (procs s)" "unat (sz (procs s ! i)) \<le> 2 ^ 31"
    "\<And>a. unat a < unat (sz (procs s ! i)) \<Longrightarrow> mmu_walk PTE_P a s \<noteq> None"
  using assms idle_cpu by (auto simp: user_ok_def word_le_nat_alt word_less_nat_alt)

lemma user_ok_read_only:
  assumes "user_ok i s" "read_only s t"
  shows "user_ok i t"
proof -
  note u = user_okD [OF assms(1)]
  have q: "balanced s t" "same_space s t" using assms(2) by (simp_all only: read_only_def)
  have "idle t" "cur t = Some i" using idle_balanced [OF q(1) u(1)] cur_balanced [OF q(1) u(2)] u(3) by simp_all
  then show ?thesis
    using assms(1) read_only_fields [OF assms(2)] mmu_walk_same [OF q(2) me_less [OF u(2)]] by (simp add: user_ok_def)
qed

lemma curproc_read_only:
  assumes "user_ok i s"
  obtains t where "curproc s = Ok i t" "read_only s t" "user_ok i t"
  using curproc_ok [OF user_okD(2,3) [OF assms]] user_ok_read_only [OF assms] unfolding read_only_def by blast

definition user_bytes :: "u32 \<Rightarrow> nat \<Rightarrow> 'z vm_scheme \<Rightarrow> u8 list" where
  "user_bytes a n s = map (\<lambda>k. mem s (the (mmu_walk PTE_P (a + of_nat k) s))) [0..<n]"

lemma those_map: "\<forall>x \<in> set xs. f x \<noteq> None \<Longrightarrow> those (map f xs) = Some (map (\<lambda>x. the (f x)) xs)"
  by (induction xs) auto

lemma user_load_ok:
  assumes "\<forall>k < n. mmu_walk PTE_P (a + of_nat k) s \<noteq> None"
  shows "user_load a n s = Ok (user_bytes a n s) s"
proof -
  have "those (map (\<lambda>i. map_option (mem s) (mmu_walk PTE_P (a + of_nat i) s)) [0..<n]) =
      Some (map (\<lambda>i. the (map_option (mem s) (mmu_walk PTE_P (a + of_nat i) s))) [0..<n])"
    using assms by (intro those_map) simp
  moreover have "map (\<lambda>i. the (map_option (mem s) (mmu_walk PTE_P (a + of_nat i) s))) [0..<n] = user_bytes a n s"
    using assms unfolding user_bytes_def by (intro map_cong) auto
  ultimately show ?thesis by (simp add: user_load_def)
qed

text \<open>The range check of the code is the one on natural numbers: nothing wraps below \<open>KERNBASE\<close>.\<close>

lemma range_check:
  fixes a z :: u32
  assumes "unat z \<le> 2 ^ 31" "m < 2 ^ 31" "x = of_nat m"
  shows "\<not> (a \<ge> z \<or> a + x > z) \<longleftrightarrow> a < z \<and> unat a + m \<le> unat z"
proof (cases "a < z")
  case True
  then have "unat a < unat z" by (simp add: word_less_nat_alt)
  then have "unat (a + x) = unat a + m" unfolding assms(3) using assms(1,2) by (intro unat_plus_small) simp
  then show ?thesis using True by (simp add: word_less_nat_alt word_le_nat_alt not_less)
qed (simp add: not_less)

lemma mapped_range:
  assumes "user_ok i s" "unat a + n \<le> unat (sz (procs s ! i))"
  shows "\<forall>k < n. mmu_walk PTE_P (a + of_nat k) s \<noteq> None"
proof (intro allI impI)
  fix k assume "k < n"
  then have "unat (a + of_nat k) = unat a + k" "unat a + k < unat (sz (procs s ! i))"
    using assms(2) user_okD(5) [OF assms(1)] by (simp_all add: unat_plus_small)
  then show "mmu_walk PTE_P (a + of_nat k) s \<noteq> None" using user_okD(6) [OF assms(1)] by simp
qed

section \<open>Arguments\<close>

definition arg_addr :: "nat \<Rightarrow> nat \<Rightarrow> 'z kernel_scheme \<Rightarrow> u32" where
  "arg_addr i n s = load32 (mem s) (tf (procs s ! i) + 68) + 4 + 4 * of_nat n"

definition int_arg :: "nat \<Rightarrow> nat \<Rightarrow> 'z kernel_scheme \<Rightarrow> u32 option" where
  "int_arg i n s =
     (if arg_addr i n s < sz (procs s ! i) \<and> unat (arg_addr i n s) + 4 \<le> unat (sz (procs s ! i))
      then Some (get32 (user_bytes (arg_addr i n s) 4 s) 0) else None)"

lemma int_arg_read_only:
  assumes "user_ok i s" "read_only s t"
  shows "int_arg i n t = int_arg i n s"
proof -
  have sp: "same_space s t" using assms(2) by (simp only: read_only_def)
  note w = mmu_walk_same [OF sp me_less [OF user_okD(2) [OF assms(1)]]]
  have "user_bytes a m t = user_bytes a m s" for a m
    using read_only_fields(4) [OF assms(2)] by (simp add: user_bytes_def w)
  then show ?thesis using read_only_fields [OF assms(2)] by (simp add: int_arg_def arg_addr_def)
qed

lemma argint_ok:
  assumes "user_ok i s"
  obtains t where "argint n s = Ok (map_option sint (int_arg i n s)) t" "read_only s t"
proof -
  obtain t where t: "curproc s = Ok i t" "read_only s t" "user_ok i t" using curproc_read_only [OF assms] .
  obtain u where u: "curproc t = Ok i u" "read_only t u" "user_ok i u" using curproc_read_only [OF t(3)] .
  note q = read_only_trans [OF t(2) u(2)]
  let ?a = "arg_addr i n s" and ?z = "sz (procs s ! i)"
  have a: "load32 (mem t) (tf (procs t ! i) + 68) + 4 + 4 * of_nat n = ?a" using read_only_fields [OF t(2)] by (simp add: arg_addr_def)
  have f: "fetchint ?a t = (if ?a \<ge> ?z \<or> ?a + 4 > ?z then Ok None u
      else run (user_load ?a 4 u) (\<lambda>bs s. Ok (Some (sint (get32 bs 0))) s))"
    using u(1) read_only_fields(1) [OF q] by (simp add: fetchint_def)
  have c: "\<not> (?a \<ge> ?z \<or> ?a + 4 > ?z) \<longleftrightarrow> ?a < ?z \<and> unat ?a + 4 \<le> unat ?z"
    by (rule range_check [where m = 4]) (use user_okD(5) [OF assms] in simp_all)
  have "argint n s = Ok (map_option sint (int_arg i n s)) u"
  proof (cases "?a \<ge> ?z \<or> ?a + 4 > ?z")
    case True
    then show ?thesis using t(1) a f c by (simp add: argint_def int_arg_def)
  next
    case False
    have "arg_addr i n u = ?a" "sz (procs u ! i) = ?z" using read_only_fields [OF q] by (simp_all add: arg_addr_def)
    then have "int_arg i n s = Some (get32 (user_bytes ?a 4 u) 0)"
      using int_arg_read_only [OF assms q, of n] False c by (simp add: int_arg_def)
    moreover have "user_load ?a 4 u = Ok (user_bytes ?a 4 u) u"
      by (rule user_load_ok [OF mapped_range [OF u(3)]]) (use False c read_only_fields(1) [OF q] in simp)
    ultimately show ?thesis using t(1) a f False by (simp add: argint_def)
  qed
  then show ?thesis using that q by blast
qed

definition fd_arg :: "nat \<Rightarrow> nat \<Rightarrow> 'z kernel_scheme \<Rightarrow> (nat \<times> nat) option" where
  "fd_arg i n s =
     (case int_arg i n s of None \<Rightarrow> None
      | Some w \<Rightarrow> if sint w < 0 \<or> sint w \<ge> int NOFILE then None
        else map_option (\<lambda>f. (nat (sint w), f)) (ofile (procs s ! i) ! nat (sint w)))"

lemma argfd_ok:
  assumes "user_ok i s"
  obtains t where "argfd n s = Ok (fd_arg i n s) t" "read_only s t"
proof -
  obtain t where t: "argint n s = Ok (map_option sint (int_arg i n s)) t" "read_only s t" using argint_ok [OF assms] .
  obtain u where u: "curproc t = Ok i u" "read_only t u" using curproc_read_only [OF user_ok_read_only [OF assms t(2)]] .
  note q = read_only_trans [OF t(2) u(2)]
  show ?thesis
  proof (cases "int_arg i n s")
    case None
    then have "argfd n s = Ok (fd_arg i n s) t" using t(1) by (simp add: argfd_def fd_arg_def)
    then show ?thesis using that t(2) by blast
  next
    case (Some w)
    show ?thesis
    proof (cases "sint w < 0 \<or> sint w \<ge> int NOFILE")
      case True
      then have "argfd n s = Ok (fd_arg i n s) t" using t(1) Some by (simp add: argfd_def fd_arg_def)
      then show ?thesis using that t(2) by blast
    next
      case False
      then have "argfd n s = Ok (fd_arg i n s) u"
        using t(1) u(1) Some read_only_fields(1) [OF q]
        by (simp add: argfd_def fd_arg_def split: option.split)
      then show ?thesis using that q by blast
    qed
  qed
qed

lemma argptr_ok:
  assumes "user_ok i s" "int_range n0"
  obtains t where "read_only s t" "argptr n n0 s = Ok (case int_arg i n s of None \<Rightarrow> None
     | Some p \<Rightarrow> if 0 \<le> n0 \<and> p < sz (procs s ! i) \<and> unat p + nat n0 \<le> unat (sz (procs s ! i)) then Some p else None) t"
proof -
  obtain t where t: "curproc s = Ok i t" "read_only s t" "user_ok i t" using curproc_read_only [OF assms(1)] .
  obtain u where u: "argint n t = Ok (map_option sint (int_arg i n t)) u" "read_only t u" using argint_ok [OF t(3)] .
  note q = read_only_trans [OF t(2) u(2)]
  let ?z = "sz (procs s ! i)"
  have z: "sz (procs u ! i) = ?z" using read_only_fields(1) [OF q] by simp
  have c: "\<not> (p \<ge> ?z \<or> p + word_of_int n0 > ?z) \<longleftrightarrow> p < ?z \<and> unat p + nat n0 \<le> unat ?z" if n0: "0 \<le> n0" for p
  proof (rule range_check [OF user_okD(5) [OF assms(1)]])
    have "n0 < 2 ^ 31" using assms(2) by (simp add: int_range_def)
    then show "nat n0 < 2 ^ 31" using n0 nat_less_iff [of n0 "2 ^ 31"] by simp
    show "word_of_int n0 = (of_nat (nat n0) :: u32)" using of_int_of_nat_eq [of "nat n0", where 'a = u32] n0 by simp
  qed
  have "argptr n n0 s = Ok (case int_arg i n s of None \<Rightarrow> None
     | Some p \<Rightarrow> if 0 \<le> n0 \<and> p < ?z \<and> unat p + nat n0 \<le> unat ?z then Some p else None) u"
  proof (cases "int_arg i n s")
    case None
    then show ?thesis using t(1) u(1) int_arg_read_only [OF assms(1) t(2), of n] by (simp add: argptr_def)
  next
    case (Some p)
    then have "argptr n n0 s = (if n0 < 0 \<or> p \<ge> ?z \<or> p + word_of_int n0 > ?z then Ok None u else Ok (Some p) u)"
      using t(1) u(1) z int_arg_read_only [OF assms(1) t(2), of n] by (simp add: argptr_def)
    then show ?thesis using Some c [of p] by (cases "0 \<le> n0") auto
  qed
  then show ?thesis using that q by blast
qed

section \<open>The type of the file table\<close>

definition fd_refs :: "proc list \<Rightarrow> nat \<Rightarrow> nat" where
  "fd_refs ps f = (\<Sum>p \<leftarrow> ps. count_list (ofile p) (Some f))"

definition fds_ok :: "proc \<Rightarrow> bool" where
  "fds_ok p \<longleftrightarrow> length (ofile p) = NOFILE \<and> (\<forall>f. Some f \<in> set (ofile p) \<longrightarrow> f < NFILE)"

definition files_ok :: "'z ftable_scheme \<Rightarrow> bool" where
  "files_ok s \<longleftrightarrow> length (files s) = NFILE \<and> list_all fds_ok (procs s) \<and>
     (\<forall>f < NFILE. f_ref (files s ! f) = int (fd_refs (procs s) f))"

lemma count_list_update:
  "k < length xs \<Longrightarrow> count_list (xs[k := x]) y + (if xs ! k = y then 1 else 0) = count_list xs y + (if x = y then 1 else 0)"
proof (induction xs arbitrary: k)
  case (Cons z xs)
  show ?case
  proof (cases k)
    case (Suc m)
    then show ?thesis using Cons.IH [of m] Cons.prems by (cases "x = y") auto
  qed simp
qed simp

lemma sum_list_update_nat:
  fixes g :: "'a \<Rightarrow> nat"
  assumes "i < length xs"
  shows "sum_list (map g (xs[i := y])) + g (xs ! i) = sum_list (map g xs) + g y"
  using assms
proof (induction xs arbitrary: i)
  case (Cons z xs)
  then show ?case using Cons.IH [of "i - 1"] by (cases i) auto
qed simp

lemma fd_refs_update:
  assumes "i < length ps" "k < length (ofile (ps ! i))"
  shows "fd_refs (ps[i := (ps ! i)\<lparr>ofile := (ofile (ps ! i))[k := x]\<rparr>]) f + (if ofile (ps ! i) ! k = Some f then 1 else 0) =
     fd_refs ps f + (if x = Some f then 1 else 0)"
  using sum_list_update_nat [OF assms(1), of "\<lambda>p. count_list (ofile p) (Some f)"
      "(ps ! i)\<lparr>ofile := (ofile (ps ! i))[k := x]\<rparr>"]
    count_list_update [OF assms(2), of x "Some f"]
  by (simp add: fd_refs_def)

lemma fd_refs_pos:
  assumes "i < length ps" "k < length (ofile (ps ! i))" "ofile (ps ! i) ! k = Some f"
  shows "0 < fd_refs ps f"
proof -
  have "0 < count_list (ofile (ps ! i)) (Some f)"
    using assms(2,3) by (metis count_list_0_iff gr0I nth_mem)
  moreover have "count_list (ofile (ps ! i)) (Some f) \<le> fd_refs ps f"
    unfolding fd_refs_def using assms(1) member_le_sum_list [of "count_list (ofile (ps ! i)) (Some f)" "map (\<lambda>p. count_list (ofile p) (Some f)) ps"]
    by simp
  ultimately show ?thesis by simp
qed

text \<open>Setting one descriptor, with the reference count changed to match.\<close>

lemma files_ok_set:
  assumes "files_ok s" "i < length (procs s)" "k < NOFILE"
    and ps: "procs t = (procs s)[i := (procs s ! i)\<lparr>ofile := (ofile (procs s ! i))[k := x]\<rparr>]"
    and fs: "length (files t) = NFILE" "\<And>g. g < NFILE \<Longrightarrow> f_ref (files t ! g) = f_ref (files s ! g) +
       (if x = Some g then 1 else 0) - (if ofile (procs s ! i) ! k = Some g then 1 else 0)"
    and "\<And>g. x = Some g \<Longrightarrow> g < NFILE"
  shows "files_ok t"
proof -
  have l: "fds_ok (procs s ! i)" using assms(1,2) by (simp add: files_ok_def list_all_length)
  then have k: "k < length (ofile (procs s ! i))" using assms(3) by (simp add: fds_ok_def)
  have "fds_ok ((procs s ! i)\<lparr>ofile := (ofile (procs s ! i))[k := x]\<rparr>)"
    using l assms(7) set_update_subset_insert [of "ofile (procs s ! i)" k x] by (fastforce simp: fds_ok_def)
  then have "list_all fds_ok (procs t)" using assms(1,2) unfolding ps files_ok_def
    by (auto simp: list_all_length nth_list_update)
  moreover have "f_ref (files t ! g) = int (fd_refs (procs t) g)" if g: "g < NFILE" for g
    using fd_refs_update [OF assms(2) k, of x g] fs(2) [OF g] assms(1) g unfolding ps files_ok_def
    by (auto split: if_splits)
  ultimately show ?thesis using fs(1) by (simp add: files_ok_def)
qed

lemma same_space_locked:
  "same_space s (acquired l s)" "same_space s (released l s)"
proof -
  have "map cr3 (cpus (acquired l s)) = map cr3 (cpus s)" "length (cpus (acquired l s)) = length (cpus s)"
    unfolding acquired_def by (simp_all add: pushed_def upd_lock_def map_update_same)
  then show "same_space s (acquired l s)" unfolding same_space_def by simp
  have "map cr3 (cpus (released l s)) = map cr3 (cpus s)" "length (cpus (released l s)) = length (cpus s)"
    unfolding released_def by (simp_all add: popped_def upd_lock_def map_update_same)
  then show "same_space s (released l s)" unfolding same_space_def by simp
qed

lemma same_space_woken: "same_space s (woken c s)"
proof -
  have "same_space (acquired PtableLock s) (wakeup1 c (acquired PtableLock s))"
    by (simp add: same_space_def wakeup1_def me_def)
  from same_space_trans [OF same_space_trans [OF same_space_locked(1) this] same_space_locked(2)]
  show ?thesis unfolding woken_def .
qed

lemma user_ok_step:
  assumes "user_ok i s" "balanced s t" "same_space s t" "length (procs t) = length (procs s)" "sz (procs t ! i) = sz (procs s ! i)"
  shows "user_ok i t"
proof -
  note u = user_okD [OF assms(1)]
  have "idle t" "cur t = Some i" using idle_balanced [OF assms(2) u(1)] cur_balanced [OF assms(2) u(2)] u(3) by simp_all
  then show ?thesis
    using assms mmu_walk_same [OF assms(3) me_less [OF u(2)]] by (simp add: user_ok_def)
qed

lemma files_locked [simp]:
  "files (acquired l s) = files s" "files (released l s) = files s" "files (woken c s) = files s"
proof -
  show "files (acquired l s) = files s" "files (released l s) = files s" for s
    by (simp_all add: acquired_def released_def popped_def pushed_def upd_lock_def)
  then show "files (woken c s) = files s" by (simp add: woken_def wakeup1_def)
qed

lemma upd_file_fields [simp]:
  "files (upd_file f g s) = (files s)[f := g (files s ! f)]" "procs (upd_file f g s) = procs s"
  "pipes (upd_file f g s) = pipes s" "mem (upd_file f g s) = mem s" "cpus (upd_file f g s) = cpus s" "locks (upd_file f g s) = locks s"
  "balanced s' (upd_file f g s) = balanced s' s" "me (upd_file f g s) = me s"
  by (simp_all add: upd_file_def balanced_def me_def)

lemma upd_proc_space: "same_space s (upd_proc i g s)" "balanced s (upd_proc i g s)" "files (upd_proc i g s) = files s"
  "pipes (upd_proc i g s) = pipes s" "inodes (upd_proc i g s) = inodes s" "sleeps (upd_proc i g s) = sleeps s"
  "outstanding (upd_proc i g s) = outstanding s" "committing (upd_proc i g s) = committing s" "lh_n (upd_proc i g s) = lh_n s"
  by (simp_all add: upd_proc_def same_space_def me_def balanced_def)

text \<open>A critical section of the file table that changes one slot.\<close>

lemma ftable_section:
  assumes "idle s" and t_def: "t = released FtableLock (upd_file f g (acquired FtableLock s))"
  shows "release FtableLock (upd_file f g (acquired FtableLock s)) = Ok () t" "balanced s t" "same_space s t"
    "files t = (files s)[f := g (files s ! f)]" "procs t = procs s" "pipes t = pipes s"
proof -
  have c: "can_lock FtableLock s" using idle_lock [OF assms(1)] .
  have b: "balanced (acquired FtableLock s) (upd_file f g (acquired FtableLock s))" by simp
  show "release FtableLock (upd_file f g (acquired FtableLock s)) = Ok () t" "balanced s t"
    unfolding t_def by (rule release_balanced [OF c b])+
  have "same_space (acquired FtableLock s) (upd_file f g (acquired FtableLock s))" by (simp add: same_space_def)
  from same_space_trans [OF same_space_trans [OF same_space_locked(1) this] same_space_locked(2)] show "same_space s t" unfolding t_def .
  show "files t = (files s)[f := g (files s ! f)]" "procs t = procs s" "pipes t = pipes s" unfolding t_def by simp_all
qed

lemma filedup_ok:
  assumes "idle s" "1 \<le> f_ref (files s ! f)"
  obtains t where "filedup f s = Ok f t" "balanced s t" "same_space s t" "procs t = procs s"
    "files t = (files s)[f := (files s ! f)\<lparr>f_ref := f_ref (files s ! f) + 1\<rparr>]"
proof -
  note f = ftable_section [OF assms(1) refl, of f "\<lambda>k. k\<lparr>f_ref := f_ref k + 1\<rparr>"]
  have "filedup f s = Ok f (released FtableLock (upd_file f (\<lambda>k. k\<lparr>f_ref := f_ref k + 1\<rparr>) (acquired FtableLock s)))"
    using f(1) acquire_ok [OF idle_lock [OF assms(1)]] assms(2) by (simp add: filedup_def Let_def)
  then show ?thesis using that f(2-5) by blast
qed

lemma fd_arg_SomeD:
  assumes "fd_arg i n s = Some (fd, f)" "files_ok s" "i < length (procs s)"
  shows "fd < NOFILE" "ofile (procs s ! i) ! fd = Some f" "f < NFILE" "f < length (files s)" "1 \<le> f_ref (files s ! f)"
proof -
  have p: "fds_ok (procs s ! i)" using assms(2,3) by (simp add: files_ok_def list_all_length)
  show a: "fd < NOFILE" "ofile (procs s ! i) ! fd = Some f"
    using assms(1) by (auto simp: fd_arg_def split: option.splits if_splits)
  then show "f < NFILE" using p by (metis fds_ok_def nth_mem)
  then show "f < length (files s)" "1 \<le> f_ref (files s ! f)"
    using assms(2) fd_refs_pos [OF assms(3) _ a(2)] a(1) p by (auto simp: files_ok_def fds_ok_def)
qed

lemma sys_dup_ok:
  assumes "user_ok i s" "files_ok s"
  shows "returns (sys_dup s) (\<lambda>r t. user_ok i t \<and> files_ok t \<and>
     (case fd_arg i 0 s of None \<Rightarrow> r = -1 \<and> procs t = procs s
      | Some (fd, f) \<Rightarrow> (case find_index (\<lambda>x. x = None) (ofile (procs s ! i)) of None \<Rightarrow> r = -1 \<and> procs t = procs s
         | Some k \<Rightarrow> r = int k \<and> procs t = (procs s)[i := (procs s ! i)\<lparr>ofile := (ofile (procs s ! i))[k := Some f]\<rparr>])))"
proof -
  obtain t1 where t1: "argfd 0 s = Ok (fd_arg i 0 s) t1" "read_only s t1" using argfd_ok [OF assms(1)] .
  note u1 = user_ok_read_only [OF assms(1) t1(2)]
  have same: "user_ok i t \<and> files_ok t \<and> procs t = procs s" if "read_only s t" for t
    using user_ok_read_only [OF assms(1) that] read_only_fields [OF that] assms(2) by (simp add: files_ok_def)
  show ?thesis
  proof (cases "fd_arg i 0 s")
    case None
    then show ?thesis using t1(1) same [OF t1(2)] by (simp add: sys_dup_def arg_def)
  next
    case (Some x)
    obtain fd f where x: "x = (fd, f)" by (cases x)
    note d = fd_arg_SomeD [OF Some [unfolded x] assms(2) user_okD(4) [OF assms(1)]]
    obtain t2 where t2: "curproc t1 = Ok i t2" "read_only t1 t2" using curproc_read_only [OF u1] .
    note q = read_only_trans [OF t1(2) t2(2)]
    have e: "sys_dup s = arg (fdalloc f t1) (\<lambda>fd s. run (filedup f s) (\<lambda>_ s. Ok (int fd) s))"
      using t1(1) Some x by (simp add: sys_dup_def arg_def)
    show ?thesis
    proof (cases "find_index (\<lambda>x. x = None) (ofile (procs s ! i))")
      case None
      then show ?thesis unfolding e using t2(1) read_only_fields(1) [OF q] Some x same [OF q] by (simp add: fdalloc_def arg_def)
    next
      case k: (Some k)
      have kl: "k < NOFILE" "ofile (procs s ! i) ! k = None"
        using find_index_SomeD [OF k] assms user_okD(4) [OF assms(1)] by (auto simp: files_ok_def fds_ok_def list_all_length)
      define t3 where "t3 = upd_proc i (\<lambda>q. q\<lparr>ofile := (ofile q)[k := Some f]\<rparr>) t2"
      note b = upd_proc_space [where s = t2 and i = i and g = "\<lambda>q. q\<lparr>ofile := (ofile q)[k := Some f]\<rparr>", folded t3_def]
      have q': "balanced s t2" "same_space s t2" using q by (simp_all only: read_only_def)
      have i3: "idle t3" using idle_balanced [OF balanced_trans [OF q'(1) b(2)] user_okD(1) [OF assms(1)]] .
      have f3: "files t3 = files s" using b(3) read_only_fields(2) [OF q] by simp
      then obtain t4 where t4: "filedup f t3 = Ok f t4" "balanced t3 t4" "same_space t3 t4" "procs t4 = procs t3"
          "files t4 = (files s)[f := (files s ! f)\<lparr>f_ref := f_ref (files s ! f) + 1\<rparr>]"
        using filedup_ok [OF i3, of f] d(5) by auto
      have p4: "procs t4 = (procs s)[i := (procs s ! i)\<lparr>ofile := (ofile (procs s ! i))[k := Some f]\<rparr>]"
        using t4(4) read_only_fields(1) [OF q] by (simp add: t3_def upd_proc_def)
      have "files_ok t4"
      proof (rule files_ok_set [OF assms(2) user_okD(4) [OF assms(1)] kl(1) p4])
        show "f_ref (files t4 ! g) = f_ref (files s ! g) + (if Some f = Some g then 1 else 0) -
            (if ofile (procs s ! i) ! k = Some g then 1 else 0)" if "g < NFILE" for g
          using t4(5) d(4) kl(2) by (simp add: nth_list_update)
      qed (use t4(5) d assms(2) in \<open>auto simp: files_ok_def\<close>)
      moreover have "user_ok i t4"
        by (rule user_ok_step [OF assms(1) balanced_trans [OF balanced_trans [OF q'(1) b(2)] t4(2)]
              same_space_trans [OF same_space_trans [OF q'(2) b(1)] t4(3)]])
          (use user_okD(4) [OF assms(1)] in \<open>simp_all add: p4\<close>)
      moreover have "sys_dup s = Ok (int k) t4"
        unfolding e using t2(1) t4(1) k read_only_fields(1) [OF q] by (simp add: fdalloc_def arg_def t3_def)
      ultimately show ?thesis using Some x k p4 by simp
    qed
  qed
qed

text \<open>
  Closing: a file that stays open through another descriptor; the last descriptor of one end of a
  pipe whose other end is open; the last descriptor of an inode that is still linked and whose
  sleep lock is free, while no other file-system operation is in progress.
\<close>

definition log_quiet :: "'z logrec_scheme \<Rightarrow> bool" where
  "log_quiet s \<longleftrightarrow> outstanding s = 0 \<and> \<not> committing s \<and> lh_n s = 0"

definition inode_stays :: "nat \<Rightarrow> 'z icache_scheme \<Rightarrow> bool" where
  "inode_stays ip s \<longleftrightarrow> \<not> sl_locked (sleeps s (InodeSleep ip)) \<and> \<not> (i_valid (inodes s ! ip) \<and> i_nlink (inodes s ! ip) = 0)"

definition closable :: "'z ftable_scheme \<Rightarrow> nat \<Rightarrow> bool" where
  "closable s f \<longleftrightarrow> (let k = files s ! f in 2 \<le> f_ref k \<or>
     (case f_type k of
        FD_NONE \<Rightarrow> True
      | FD_PIPE \<Rightarrow> if f_writable k then readopen (pipes s (f_pipe k)) else writeopen (pipes s (f_pipe k))
      | FD_INODE \<Rightarrow> (case f_ip k of None \<Rightarrow> False | Some ip \<Rightarrow> log_quiet s \<and> inode_stays ip s)))"

definition can_close :: "nat \<Rightarrow> 'z kernel_scheme \<Rightarrow> bool" where
  "can_close i s \<longleftrightarrow> (case fd_arg i 0 s of None \<Rightarrow> True | Some (fd, f) \<Rightarrow> closable s f)"

definition same_procs :: "proc list \<Rightarrow> proc list \<Rightarrow> bool" where
  "same_procs ps qs \<longleftrightarrow> map (\<lambda>p. (ofile p, sz p)) qs = map (\<lambda>p. (ofile p, sz p)) ps"

lemma same_procsD:
  assumes "same_procs ps qs"
  shows "length qs = length ps" "map ofile qs = map ofile ps" "i < length ps \<Longrightarrow> sz (qs ! i) = sz (ps ! i)"
    "fd_refs qs f = fd_refs ps f" "list_all fds_ok qs = list_all fds_ok ps"
proof -
  show l: "length qs = length ps" using assms unfolding same_procs_def by (rule map_eq_imp_length_eq)
  have n: "(ofile (qs ! i), sz (qs ! i)) = (ofile (ps ! i), sz (ps ! i))" if "i < length ps" for i
    using assms l that unfolding same_procs_def by (metis (no_types, lifting) nth_map)
  then show "i < length ps \<Longrightarrow> sz (qs ! i) = sz (ps ! i)" by simp
  show m: "map ofile qs = map ofile ps" using n l by (intro nth_equalityI) simp_all
  have "fd_refs us f = sum_list (map (\<lambda>xs. count_list xs (Some f)) (map ofile us))" for us by (simp add: fd_refs_def comp_def)
  then show "fd_refs qs f = fd_refs ps f" by (simp only: m)
  show "list_all fds_ok qs = list_all fds_ok ps" using n l by (auto simp: list_all_length fds_ok_def)
qed

lemma upd_pipe_space: "same_space s (upd_pipe p g s)"
  by (simp add: same_space_def upd_pipe_def me_def)

text \<open>\<open>keeps s t\<close>: the locks, the address space, the descriptors and the file table are as before.\<close>

definition keeps :: "'z ftable_scheme \<Rightarrow> 'z ftable_scheme \<Rightarrow> bool" where
  "keeps s t \<longleftrightarrow> balanced s t \<and> same_space s t \<and> same_procs (procs s) (procs t) \<and> files t = files s"

lemma keeps_trans: "keeps s t \<Longrightarrow> keeps t u \<Longrightarrow> keeps s u"
  unfolding keeps_def same_procs_def using balanced_trans same_space_trans by metis

lemma keeps_idle: "keeps s t \<Longrightarrow> idle s \<Longrightarrow> idle t"
  using idle_balanced by (auto simp: keeps_def)

lemma keeps_section:
  assumes "idle s" "keeps (acquired l s) b"
  shows "release l b = Ok () (released l b)" "keeps s (released l b)"
proof -
  have c: "can_lock l s" using idle_lock [OF assms(1)] .
  have b: "balanced (acquired l s) b" "same_space (acquired l s) b" "same_procs (procs s) (procs b)" "files b = files s"
    using assms(2) by (simp_all add: keeps_def)
  note r = release_balanced [OF c b(1)]
  show "release l b = Ok () (released l b)" by (rule r(1))
  show "keeps s (released l b)"
    using r(2) same_space_trans [OF same_space_trans [OF same_space_locked(1) b(2)] same_space_locked(2)] b(3,4)
    by (simp add: keeps_def)
qed

lemma woken_keeps:
  assumes "can_lock PtableLock s"
  shows "wakeup ch s = Ok () (woken ch s)" "keeps s (woken ch s)"
  using wakeup_eq [OF assms, of ch] same_space_woken [of s ch]
  by (simp_all add: keeps_def same_procs_def wakeup1_def comp_def if_distrib cong: if_cong)

lemma table_free:
  assumes "idle s" "keeps (acquired l s) b" "l \<noteq> PtableLock"
  shows "can_lock PtableLock b"
  using can_lock_acquired_other [OF idle_lock idle_lock, OF assms(1,1), of PtableLock l] assms(2,3)
  by (auto simp: keeps_def intro: can_lock_balanced)

lemma fs_fields_locked [simp]:
  "outstanding (acquired l s) = outstanding s" "outstanding (released l s) = outstanding s"
  "committing (acquired l s) = committing s" "committing (released l s) = committing s"
  "lh_n (acquired l s) = lh_n s" "lh_n (released l s) = lh_n s"
  by (simp_all add: acquired_def released_def pushed_def popped_def upd_lock_def)

lemma inodes_locked [simp]: "inodes (acquired l s) = inodes s" "inodes (released l s) = inodes s"
  by (simp_all add: acquired_def released_def pushed_def popped_def upd_lock_def)

lemma keeps_log: "keeps s (s\<lparr>outstanding := n\<rparr>)" "keeps s (s\<lparr>committing := b\<rparr>)"
  by (simp_all add: keeps_def same_procs_def same_space_def balanced_def me_def)

lemma begin_op_quiet:
  assumes "idle s" "log_quiet s"
  obtains t where "begin_op s = Ok () t" "keeps s t" "outstanding t = 1" "\<not> committing t" "lh_n t = 0"
    "inodes t = inodes s" "sleeps t = sleeps s"
proof -
  let ?b = "(acquired LogLock s)\<lparr>outstanding := 1\<rparr>"
  note r = keeps_section [OF assms(1) keeps_log(1), of LogLock 1]
  have "begin_op s = Ok () (released LogLock ?b)"
    using assms(2) r(1) by (simp add: begin_op_def begin_op_loop_def acquire_ok [OF idle_lock [OF assms(1)]] log_quiet_def)
  then show ?thesis using that r(2) assms(2) by (simp add: log_quiet_def)
qed

lemma end_op_quiet:
  assumes "idle s" "outstanding s = 1" "\<not> committing s" "lh_n s = 0"
  obtains t where "end_op s = Ok () t" "keeps s t"
proof -
  let ?b = "(acquired LogLock s)\<lparr>outstanding := 0, committing := True\<rparr>"
  have kb: "keeps (acquired LogLock s) ?b" using keeps_trans [OF keeps_log(1) keeps_log(2)] .
  note r = keeps_section [OF assms(1) kb]
  let ?u = "released LogLock ?b"
  have iu: "idle ?u" by (rule keeps_idle [OF r(2) assms(1)])
  let ?c = "(acquired LogLock ?u)\<lparr>committing := False\<rparr>"
  note kc = keeps_log(2) [of "acquired LogLock ?u" False]
  note w = woken_keeps [OF table_free [OF iu kc]]
  note q = keeps_section [OF iu keeps_trans [OF kc w(2)]]
  have "end_op s = Ok () (released LogLock (woken (Some ChanLog) ?c))"
    using assms r(1) w(1) q(1)
    by (simp add: end_op_def commit_def acquire_ok [OF idle_lock [OF assms(1)]] acquire_ok [OF idle_lock [OF iu]] Let_def)
  then show ?thesis using that keeps_trans [OF r(2) q(2)] by simp
qed

lemma upd_sleep_keeps: "keeps s (upd_sleep l f s)"
  by (simp add: keeps_def same_procs_def same_space_def balanced_def me_def upd_sleep_def)

lemma sleep_lock_keeps:
  assumes "idle s"
  shows "keeps s (slept l s)" "keeps s (unslept l s)"
proof -
  show "keeps s (slept l s)" unfolding slept_def by (rule keeps_section(2) [OF assms upd_sleep_keeps])
  let ?u = "upd_sleep l (\<lambda>k. k\<lparr>sl_locked := False, sl_pid := 0\<rparr>) (acquired (SleepSpin l) s)"
  note w = woken_keeps(2) [OF table_free [OF assms upd_sleep_keeps]]
  show "keeps s (unslept l s)" unfolding unslept_def
    by (rule keeps_section(2) [OF assms keeps_trans [OF upd_sleep_keeps w]]) simp
qed

lemma sleep_lock_fields:
  "inodes (slept l s) = inodes s" "inodes (unslept l s) = inodes s"
  "outstanding (slept l s) = outstanding s" "outstanding (unslept l s) = outstanding s"
  "committing (slept l s) = committing s" "committing (unslept l s) = committing s"
  "lh_n (slept l s) = lh_n s" "lh_n (unslept l s) = lh_n s"
  by (simp_all add: slept_def unslept_def upd_sleep_def woken_def wakeup1_def)

lemma iput_stays:
  assumes "idle s" "inode_stays ip s"
  obtains t where "iput ip s = Ok () t" "keeps s t" "outstanding t = outstanding s" "committing t = committing s" "lh_n t = lh_n s"
proof -
  let ?a = "slept (InodeSleep ip) s"
  let ?b = "unslept (InodeSleep ip) ?a"
  note ka = sleep_lock_keeps(1) [OF assms(1), of "InodeSleep ip"]
  note ia = keeps_idle [OF ka assms(1)]
  note kb = sleep_lock_keeps(2) [OF ia, of "InodeSleep ip"]
  note ib = keeps_idle [OF kb ia]
  let ?c = "upd_inode ip (\<lambda>k. k\<lparr>i_ref := i_ref k - 1\<rparr>) (acquired IcacheLock ?b)"
  have kc: "keeps (acquired IcacheLock ?b) ?c"
    by (simp add: keeps_def same_procs_def same_space_def balanced_def me_def upd_inode_def)
  note r = keeps_section [OF ib kc]
  have "\<not> sl_locked (sleeps s (InodeSleep ip))" "\<not> (i_valid (inodes s ! ip) \<and> i_nlink (inodes s ! ip) = 0)"
    using assms(2) by (simp_all add: inode_stays_def)
  then have "iput ip s = Ok () (released IcacheLock ?c)"
    using r(1) by (cases "i_valid (inodes s ! ip)") (simp_all add: iput_def acquiresleep_free(1) [OF assms(1)] releasesleep_ok(1) [OF ia] sleep_lock_fields
        acquire_ok [OF idle_lock [OF ib]] Let_def)
  then show ?thesis
    using that keeps_trans [OF keeps_trans [OF ka kb] r(2)] by (simp add: sleep_lock_fields upd_inode_def)
qed

lemma pipeclose_ok:
  assumes "idle s" "if w then readopen (pipes s p) else writeopen (pipes s p)"
  obtains t where "pipeclose p w s = Ok () t" "keeps s t"
proof -
  let ?l = "PipeLock p" and ?a = "acquired (PipeLock p) s"
  let ?g = "\<lambda>k. if w then k\<lparr>writeopen := False\<rparr> else k\<lparr>readopen := False\<rparr>"
  let ?c = "Some (if w then ChanPipeRead p else ChanPipeWrite p)"
  let ?b = "upd_pipe p ?g ?a"
  let ?t = "released ?l (woken ?c ?b)"
  have c: "can_lock ?l s" using idle_lock [OF assms(1)] .
  have ab: "balanced ?a ?b" "same_space ?a ?b" using upd_pipe_space by simp_all
  have pc: "can_lock PtableLock ?b"
    using can_lock_acquired_other [OF c idle_lock [OF assms(1)], of PtableLock] can_lock_balanced [OF ab(1)] by simp
  have body: "balanced ?a (woken ?c ?b)" by (rule balanced_trans [OF ab(1) wakeup_eq(2) [OF pc]])
  have e: "pipeclose p w s = run (acquire ?l s) (\<lambda>_ s. run (wakeup ?c (upd_pipe p ?g s)) (\<lambda>_ s.
     if \<not> readopen (pipes s p) \<and> \<not> writeopen (pipes s p) then run (release ?l s) (\<lambda>_ s. kfree p s) else release ?l s))"
    by (cases w) (simp_all add: pipeclose_def Let_def)
  have "pipeclose p w s = Ok () ?t"
    unfolding e using acquire_ok [OF c] wakeup_eq(1) [OF pc, of ?c] release_balanced(1) [OF c body] assms(2)
    by (cases w) simp_all
  moreover have "balanced s ?t" by (rule release_balanced(2) [OF c body])
  moreover have "same_space s ?t"
    by (rule same_space_trans [OF same_space_trans [OF same_space_trans [OF same_space_locked(1) ab(2)] same_space_woken] same_space_locked(2)])
  moreover have "same_procs (procs s) (procs ?t)" by (simp add: same_procs_def wakeup1_def comp_def if_distrib cong: if_cong)
  moreover have "files ?t = files s" by (simp add: upd_pipe_def)
  ultimately show ?thesis using that by (simp add: keeps_def)
qed

lemma fileclose_last:
  assumes "idle s" "f < length (files s)" "f_ref (files s ! f) = 1" "closable s f"
    and t: "t = released FtableLock (upd_file f (\<lambda>k. k\<lparr>f_ref := 0, f_type := FD_NONE\<rparr>) (acquired FtableLock s))"
  obtains u where "fileclose f s = Ok () u" "keeps t u"
proof -
  let ?k = "files s ! f" and ?g = "\<lambda>k. k\<lparr>f_ref := 0, f_type := FD_NONE\<rparr> :: file_t"
  note sec = ftable_section [OF assms(1) t]
  have it: "idle t" by (rule idle_balanced [OF sec(2) assms(1)])
  have ft: "outstanding t = outstanding s" "committing t = committing s" "lh_n t = lh_n s" "inodes t = inodes s" "sleeps t = sleeps s"
    by (simp_all add: t upd_file_def)
  have tw: "upd_file f ?g (upd_file f (\<lambda>k. k\<lparr>f_ref := f_ref k - 1\<rparr>) (acquired FtableLock s)) = upd_file f ?g (acquired FtableLock s)"
    using assms(2) by (simp add: upd_file_def)
  have e: "fileclose f s = (if f_type ?k = FD_PIPE then pipeclose (f_pipe ?k) (f_writable ?k) t
      else if f_type ?k = FD_INODE then run (begin_op t) (\<lambda>_ s.
        run (case f_ip ?k of None \<Rightarrow> Panic ''undefined behaviour'' | Some ip \<Rightarrow> iput ip s) (\<lambda>_ s. end_op s)) else Ok () t)"
    using sec(1) acquire_ok [OF idle_lock [OF assms(1)]] assms(2,3) by (simp add: fileclose_def Let_def tw)
  show ?thesis
  proof (cases "f_type ?k")
    case FD_NONE
    then show ?thesis using that [of t] e by (simp add: keeps_def same_procs_def)
  next
    case FD_PIPE
    then have "if f_writable ?k then readopen (pipes t (f_pipe ?k)) else writeopen (pipes t (f_pipe ?k))"
      using assms(3,4) sec(6) by (simp add: closable_def Let_def)
    from pipeclose_ok [OF it this] obtain u where "pipeclose (f_pipe ?k) (f_writable ?k) t = Ok () u" "keeps t u" .
    then show ?thesis using that e FD_PIPE by simp
  next
    case FD_INODE
    then obtain ip where ip: "f_ip ?k = Some ip" "log_quiet t" "inode_stays ip t"
      using assms(3,4) ft by (auto simp: closable_def Let_def log_quiet_def inode_stays_def split: option.splits)
    obtain u where u: "begin_op t = Ok () u" "keeps t u" "outstanding u = 1" "\<not> committing u" "lh_n u = 0" "inodes u = inodes t" "sleeps u = sleeps t"
      using begin_op_quiet [OF it ip(2)] .
    have iu: "idle u" by (rule keeps_idle [OF u(2) it])
    have "inode_stays ip u" using ip(3) u(6,7) by (simp add: inode_stays_def)
    from iput_stays [OF iu this] obtain v where v: "iput ip u = Ok () v" "keeps u v" "outstanding v = 1" "\<not> committing v" "lh_n v = 0"
      using u(3-5) by auto
    obtain w where w: "end_op v = Ok () w" "keeps v w" using end_op_quiet [OF keeps_idle [OF v(2) iu] v(3-5)] .
    then show ?thesis using that [of w] e FD_INODE ip(1) u(1,2) v(1,2) keeps_trans by (simp, blast)
  qed
qed

lemma fileclose_ok:
  assumes "idle s" "f < length (files s)" "1 \<le> f_ref (files s ! f)" "closable s f"
  obtains t where "fileclose f s = Ok () t" "balanced s t" "same_space s t" "same_procs (procs s) (procs t)"
    "length (files t) = length (files s)"
    "\<And>g. g < length (files s) \<Longrightarrow> f_ref (files t ! g) = f_ref (files s ! g) - (if g = f then 1 else 0)"
proof (cases "2 \<le> f_ref (files s ! f)")
  case True
  note sec = ftable_section [OF assms(1) refl, of f "\<lambda>k. k\<lparr>f_ref := f_ref k - 1\<rparr>"]
  let ?t = "released FtableLock (upd_file f (\<lambda>k. k\<lparr>f_ref := f_ref k - 1\<rparr>) (acquired FtableLock s))"
  have "fileclose f s = Ok () ?t"
    using sec(1) acquire_ok [OF idle_lock [OF assms(1)]] True assms(2) by (simp add: fileclose_def Let_def)
  moreover have "same_procs (procs s) (procs ?t)" using sec(5) by (simp add: same_procs_def)
  ultimately show ?thesis using that [of ?t] sec(2,3,4) assms(2) by (simp add: nth_list_update)
next
  case False
  then have one: "f_ref (files s ! f) = 1" using assms(3) by simp
  let ?t = "released FtableLock (upd_file f (\<lambda>k. k\<lparr>f_ref := 0, f_type := FD_NONE\<rparr>) (acquired FtableLock s))"
  note sec = ftable_section [OF assms(1) refl, of f "\<lambda>k. k\<lparr>f_ref := 0, f_type := FD_NONE\<rparr>"]
  obtain u where u: "fileclose f s = Ok () u" "keeps ?t u" using fileclose_last [OF assms(1,2) one assms(4) refl] .
  then have k: "balanced ?t u" "same_space ?t u" "same_procs (procs ?t) (procs u)" "files u = files ?t" by (simp_all add: keeps_def)
  show ?thesis
    by (rule that [of u])
      (use u(1) k sec(2-5) one assms(2) in \<open>auto simp: nth_list_update intro: balanced_trans same_space_trans\<close>)
qed

lemma files_ok_cong:
  assumes "files_ok s" "same_procs (procs s) (procs t)" "files t = files s"
  shows "files_ok t"
  using assms(1,3) same_procsD(4,5) [OF assms(2)] by (simp add: files_ok_def)

lemma sys_close_ok:
  assumes "user_ok i s" "files_ok s" "can_close i s"
  shows "returns (sys_close s) (\<lambda>r t. user_ok i t \<and> files_ok t \<and>
     (case fd_arg i 0 s of None \<Rightarrow> r = -1 | Some (fd, f) \<Rightarrow> r = 0 \<and> ofile (procs t ! i) = (ofile (procs s ! i))[fd := None]))"
proof -
  obtain t1 where t1: "argfd 0 s = Ok (fd_arg i 0 s) t1" "read_only s t1" using argfd_ok [OF assms(1)] .
  note u1 = user_ok_read_only [OF assms(1) t1(2)]
  show ?thesis
  proof (cases "fd_arg i 0 s")
    case None
    have "files_ok t1" using read_only_fields [OF t1(2)] assms(2) by (simp add: files_ok_def)
    then show ?thesis using None t1(1) u1 by (simp add: sys_close_def arg_def)
  next
    case (Some x)
    obtain fd f where x: "x = (fd, f)" by (cases x)
    have il: "i < length (procs s)" by (rule user_okD(4) [OF assms(1)])
    note d = fd_arg_SomeD [OF Some [unfolded x] assms(2) il]
    obtain t2 where t2: "curproc t1 = Ok i t2" "read_only t1 t2" using curproc_read_only [OF u1] .
    note q = read_only_trans [OF t1(2) t2(2)]
    define t3 where "t3 = upd_proc i (\<lambda>q. q\<lparr>ofile := (ofile q)[fd := None]\<rparr>) t2"
    note b = upd_proc_space [where s = t2 and i = i and g = "\<lambda>q. q\<lparr>ofile := (ofile q)[fd := None]\<rparr>", folded t3_def]
    have q': "balanced s t2" "same_space s t2" using q by (simp_all only: read_only_def)
    have i3: "idle t3" using idle_balanced [OF balanced_trans [OF q'(1) b(2)] user_okD(1) [OF assms(1)]] .
    have f3: "files t3 = files s" "pipes t3 = pipes s" "inodes t3 = inodes s" "sleeps t3 = sleeps s"
        "outstanding t3 = outstanding s" "committing t3 = committing s" "lh_n t3 = lh_n s"
      using b read_only_fields [OF q] by simp_all
    have "closable s f" using assms(3) Some x by (simp add: can_close_def)
    then have c3: "closable t3 f" unfolding closable_def log_quiet_def inode_stays_def f3 .
    obtain t4 where t4: "fileclose f t3 = Ok () t4" "balanced t3 t4" "same_space t3 t4" "same_procs (procs t3) (procs t4)"
        "length (files t4) = length (files s)"
        "\<And>g. g < length (files s) \<Longrightarrow> f_ref (files t4 ! g) = f_ref (files s ! g) - (if g = f then 1 else 0)"
      using fileclose_ok [OF i3, of f] d(4,5) c3 unfolding f3 by blast
    let ?ps = "(procs s)[i := (procs s ! i)\<lparr>ofile := (ofile (procs s ! i))[fd := None]\<rparr>]"
    have p3: "procs t3 = ?ps" using read_only_fields(1) [OF q] by (simp add: t3_def upd_proc_def)
    note p4 = same_procsD [OF t4(4) [unfolded p3]]
    have "files_ok (t4\<lparr>procs := ?ps\<rparr>)"
    proof (rule files_ok_set [OF assms(2) il d(1)])
      show "f_ref (files (t4\<lparr>procs := ?ps\<rparr>) ! g) = f_ref (files s ! g) + (if None = Some g then 1 else 0) -
          (if ofile (procs s ! i) ! fd = Some g then 1 else 0)" if "g < NFILE" for g
        using t4(6) [of g] that assms(2) d(2) by (auto simp: files_ok_def)
    qed (use t4(5) assms(2) in \<open>simp_all add: files_ok_def\<close>)
    then have "files_ok t4" by (rule files_ok_cong) (use t4(4) p3 in simp_all)
    moreover have "user_ok i t4"
      by (rule user_ok_step [OF assms(1) balanced_trans [OF balanced_trans [OF q'(1) b(2)] t4(2)]
            same_space_trans [OF same_space_trans [OF q'(2) b(1)] t4(3)]])
        (use il p4(1,3) in simp_all)
    moreover have "map ofile (procs t4) ! i = map ofile ?ps ! i" using p4(2) by (simp only:)
    then have "ofile (procs t4 ! i) = (ofile (procs s ! i))[fd := None]" using il p4(1) by simp
    moreover have "sys_close s = Ok 0 t4"
      using t1(1) t2(1) t4(1) Some x by (simp add: sys_close_def arg_def t3_def)
    ultimately show ?thesis using Some x by simp
  qed
qed

text \<open>Sequences of the two calls of the running process.\<close>

inductive fd_calls :: "nat \<Rightarrow> 'z kernel_scheme \<Rightarrow> 'z kernel_scheme \<Rightarrow> bool" for i where
  fd_none: "fd_calls i s s"
| fd_dup: "fd_calls i s t \<Longrightarrow> sys_dup t = Ok r u \<Longrightarrow> fd_calls i s u"
| fd_close: "fd_calls i s t \<Longrightarrow> can_close i t \<Longrightarrow> sys_close t = Ok r u \<Longrightarrow> fd_calls i s u"

lemma fd_calls_ok:
  assumes "fd_calls i s t" "user_ok i s" "files_ok s"
  shows "user_ok i t \<and> files_ok t"
  using assms
proof (induction rule: fd_calls.induct)
  case (fd_dup s t r u)
  then show ?case using sys_dup_ok [of i t] by (auto simp: returns_iff)
next
  case (fd_close s t r u)
  then show ?case using sys_close_ok [of i t] by (auto simp: returns_iff)
qed simp

section \<open>Properties\<close>

definition kern_user :: traps where
  "kern_user = (lcr3 0x402000 kern0)
     \<lparr>mem := store32 0x80500044 0x100 (store32 0x80403000 0x404007 (store32 0x80402000 0x403007 (\<lambda>_. 0))),
      procs := (procs kern0)[0 := (procs kern0 ! 0)\<lparr>sz := 0x1000, tf := 0x80500000,
        ofile := (ofile (procs kern0 ! 0))[0 := Some 5, 1 := Some 5]\<rparr>],
      files := (files kern0)[5 := file0\<lparr>f_type := FD_INODE, f_ref := 2, f_ip := Some 3\<rparr>]\<rparr>"

lemma kern_user_mem: "load32 (mem kern_user) 0x80402000 = 0x403007" "load32 (mem kern_user) 0x80403000 = 0x404007"
  "load32 (mem kern_user) 0x80500044 = 0x100"
  by (simp_all add: kern_user_def load32_def store32_def)

lemma kern_user_lcr3:
  "cpus kern_user = cpus (lcr3 0x402000 kern0)" "me kern_user = me (lcr3 0x402000 kern0)" "balanced (lcr3 0x402000 kern0) kern_user"
  by (simp_all add: kern_user_def me_def balanced_def)

lemma kern_user_walk:
  assumes "unat a < 0x1000"
  shows "mmu_walk PTE_P a kern_user = Some (0x80404000 + (a AND 0xFFF))"
proof -
  have c: "cr3 (my_cpu kern_user) = V2P 0x80402000"
    unfolding kern_user_lcr3 cr3_lcr3 [OF idle_cpu [OF kern0_idle]] by (simp add: V2P_def)
  have "unat a div 4096 = 0" using assms by simp
  moreover have "entry (mem kern_user) 0x80402000 0 = 0x404007"
    using kern_user_mem(1,2) by (simp add: entry_at_def pw_def tab_def present_def PTE_ADDR_def P2V_def)
  ultimately show ?thesis unfolding mmu_walk_entry [OF c] by (simp add: present_def PTE_ADDR_def P2V_def)
qed

lemma kern_user_procs:
  "procs kern_user = (procs ptable0)[0 := proc1\<lparr>sz := 0x1000, tf := 0x80500000, ofile := [Some 5, Some 5] @ replicate 14 None\<rparr>]"
  by (simp add: kern_user_def kern0_fields ptable0_fields proc1_def slot0_def numeral_eq_Suc)

lemma kern_user_proc0: "procs kern_user ! 0 = proc1\<lparr>sz := 0x1000, tf := 0x80500000, ofile := [Some 5, Some 5] @ replicate 14 None\<rparr>"
  by (simp add: kern_user_procs ptable0_fields)

lemma kern_user_ok: "user_ok 0 kern_user"
proof -
  have b: "balanced kern0 kern_user" by (rule balanced_trans [OF lcr3_frame(1) kern_user_lcr3(3)])
  have "idle kern_user" "cur kern_user = Some 0"
    using idle_balanced [OF b kern0_idle] cur_balanced [OF b idle_cpu [OF kern0_idle]] kern0_cpu(1) by simp_all
  then show ?thesis
    using kern_user_walk by (simp add: user_ok_def kern_user_procs ptable0_fields word_less_nat_alt)
qed

lemma kern_user_files: "files_ok kern_user"
proof -
  have "fd_refs (procs kern_user) f = (if f = 5 then 2 else 0)" for f
    by (simp add: fd_refs_def kern_user_procs ptable0_fields proc1_def proc2_def slot0_def)
  moreover have "list_all fds_ok (procs kern_user)"
    by (auto simp: list_all_iff fds_ok_def kern_user_procs ptable0_fields proc1_def proc2_def slot0_def)
  moreover have "files kern_user = (replicate NFILE file0)[5 := file0\<lparr>f_type := FD_INODE, f_ref := 2, f_ip := Some 3\<rparr>]"
    by (simp add: kern_user_def kern0_fields)
  ultimately show ?thesis by (simp add: files_ok_def nth_list_update file0_def)
qed

text \<open>
  C35: the open-file table stays well typed.  After any sequence of \<open>dup\<close> calls and of \<open>close\<close> calls
  of the kinds of \<open>can_close\<close> every descriptor names a slot of the table and the reference count of
  every slot is the number of descriptors that name it; then the next \<open>dup\<close> returns, and so does the
  next \<open>close\<close> of these kinds, without any of the panics about stray references, and the table is
  well typed again.  \<open>can_close\<close> leaves out the last descriptor of a pipe whose other end is closed
  already, which frees the page of the pipe, and the last descriptor of an inode that has no links,
  or whose lock is held, or during another file-system operation.
\<close>

theorem file_table_typed:
  assumes "user_ok i s" "files_ok s" "fd_calls i s t"
  shows "files_ok t \<and> returns (sys_dup t) (\<lambda>_ u. files_ok u) \<and> (can_close i t \<longrightarrow> returns (sys_close t) (\<lambda>_ u. files_ok u))"
proof -
  have t: "user_ok i t" "files_ok t" using fd_calls_ok [OF assms(3,1,2)] by simp_all
  have "returns (sys_dup t) (\<lambda>_ u. files_ok u)" by (rule returns_mono [OF sys_dup_ok [OF t]]) simp
  moreover have "returns (sys_close t) (\<lambda>_ u. files_ok u)" if "can_close i t"
    by (rule returns_mono [OF sys_close_ok [OF t that]]) simp
  ultimately show ?thesis using t(2) by simp
qed

lemma kern_user_arg: "int_arg 0 0 kern_user = Some 0" "fd_arg 0 0 kern_user = Some (0, 5)"
proof -
  have a: "arg_addr 0 0 kern_user = 0x104"
    using kern_user_mem(3) by (simp add: arg_addr_def kern_user_proc0)
  have "mem kern_user 0x80404104 = 0" "mem kern_user 0x80404105 = 0" "mem kern_user 0x80404106 = 0" "mem kern_user 0x80404107 = 0"
    by (simp_all add: kern_user_def store32_def)
  then have "user_bytes 0x104 4 kern_user = [0, 0, 0, 0]" by (simp add: user_bytes_def upt_rec kern_user_walk)
  then have "get32 (user_bytes 0x104 4 kern_user) 0 = 0" by (simp add: get32_def le_word_def)
  then show i: "int_arg 0 0 kern_user = Some 0" using a by (simp add: int_arg_def kern_user_proc0)
  then show "fd_arg 0 0 kern_user = Some (0, 5)" by (simp add: fd_arg_def kern_user_proc0)
qed

theorem file_table_typed_witness:
  "files_ok kern_user \<and> can_close 0 kern_user \<and> returns (sys_dup kern_user) (\<lambda>_ u. files_ok u) \<and>
     returns (sys_close kern_user) (\<lambda>_ u. files_ok u)"
proof -
  have "can_close 0 kern_user" using kern_user_arg(2) by (simp add: can_close_def closable_def kern_user_def kern0_fields)
  then show ?thesis using file_table_typed [OF kern_user_ok kern_user_files fd_none] by simp
qed

text \<open>
  C36: a pointer that \<open>argptr\<close> accepts is safe.  The call returns for every user stack; it
  accepts exactly the argument words whose block of the given size lies inside the memory of the
  process, without wrap-around, and every byte of an accepted block is mapped.
\<close>

theorem argptr_safe:
  assumes "user_ok i s" "int_range n0"
  shows "returns (argptr n n0 s) (\<lambda>r t. procs t = procs s \<and> mem t = mem s \<and>
     (case r of
        None \<Rightarrow> (case int_arg i n s of None \<Rightarrow> True
          | Some p \<Rightarrow> n0 < 0 \<or> sz (procs s ! i) \<le> p \<or> unat (sz (procs s ! i)) < unat p + nat n0)
      | Some p \<Rightarrow> int_arg i n s = Some p \<and> 0 \<le> n0 \<and> p < sz (procs s ! i) \<and> unat p + nat n0 \<le> unat (sz (procs s ! i)) \<and>
          list_all (\<lambda>k. mmu_walk PTE_P (p + of_nat k) t \<noteq> None) [0..<nat n0]))"
proof -
  obtain t where t: "read_only s t" "argptr n n0 s = Ok (case int_arg i n s of None \<Rightarrow> None
     | Some p \<Rightarrow> if 0 \<le> n0 \<and> p < sz (procs s ! i) \<and> unat p + nat n0 \<le> unat (sz (procs s ! i)) then Some p else None) t"
    using argptr_ok [OF assms] .
  have p: "procs t = procs s" "mem t = mem s" using read_only_fields [OF t(1)] by simp_all
  have m: "list_all (\<lambda>k. mmu_walk PTE_P (p + of_nat k) t \<noteq> None) [0..<nat n0]"
    if "unat p + nat n0 \<le> unat (sz (procs s ! i))" for p
    using mapped_range [OF user_ok_read_only [OF assms(1) t(1)]] that \<open>procs t = procs s\<close> by (simp add: list_all_iff)
  show ?thesis
  proof (cases "int_arg i n s")
    case None
    then show ?thesis using t(2) p by simp
  next
    case (Some p)
    then show ?thesis using t(2) \<open>procs t = procs s\<close> \<open>mem t = mem s\<close> m by (auto simp: not_le not_less)
  qed
qed

theorem argptr_safe_witness:
  "returns (argptr 0 16 kern_user) (\<lambda>r t. r = Some 0 \<and> list_all (\<lambda>k. mmu_walk PTE_P (0 + of_nat k) t \<noteq> None) [0..<16])"
  by (rule returns_mono [OF argptr_safe [OF kern_user_ok]])
    (use kern_user_arg(1) in \<open>auto simp: int_range_def kern_user_proc0 split: option.splits\<close>)

end
