(* ===== verification/Wakeup.thy ===== *)
theory Wakeup
  imports Sched Trap
begin

text \<open>
  Sleeping and waking on several processors.  Every processor has the list of the atomic
  sections it still has to run, and a schedule lets any processor run its next section on the
  shared state, seen through its own identity and interrupt flag; a processor that finds a lock
  taken spins and has no step.  The sections are those of \<open>sleep\<close>, \<open>wakeup\<close> and the scheduler in
  \<open>lab2/proc.c\<close>.
\<close>

section \<open>Processors that take turns\<close>

record 's smp =
  shared :: 's
  iflag :: "nat \<Rightarrow> bool"
  todo :: "nat \<Rightarrow> 's sections"

definition seen_by :: "nat \<Rightarrow> 'z machine_scheme smp \<Rightarrow> 'z machine_scheme" where
  "seen_by c k = (shared k)\<lparr>lapic_id := apicid (cpus (shared k) ! c), intr := iflag k c\<rparr>"

definition advance :: "nat \<Rightarrow> 'z machine_scheme \<Rightarrow> 'z machine_scheme smp \<Rightarrow> 'z machine_scheme smp" where
  "advance c t k = \<lparr>shared = t, iflag = (iflag k)(c := intr t), todo = (todo k)(c := tl (todo k c))\<rparr>"

text \<open>A section that ends in a switch is followed by what the scheduler of the processor does.\<close>

inductive smp_step :: "'z machine_scheme smp \<Rightarrow> 'z machine_scheme smp \<Rightarrow> bool" where
  smp_ok: "c < length (cpus (shared k)) \<Longrightarrow> todo k c \<noteq> [] \<Longrightarrow> hd (todo k c) (seen_by c k) = Ok () t \<Longrightarrow>
     smp_step k (advance c t k)"
| smp_switch: "c < length (cpus (shared k)) \<Longrightarrow> todo k c \<noteq> [] \<Longrightarrow> hd (todo k c) (seen_by c k) = Switch t \<Longrightarrow>
     smp_step k (advance c t k)"

definition smp_panics :: "'z machine_scheme smp \<Rightarrow> bool" where
  "smp_panics k \<longleftrightarrow> (\<exists>c e. c < length (cpus (shared k)) \<and> todo k c \<noteq> [] \<and> hd (todo k c) (seen_by c k) = Panic e)"

section \<open>The code of the processors\<close>

text \<open>The scheduler, when a process has switched to it and no other is to be run.\<close>

definition sched_tail :: "nat \<Rightarrow> 'z vm_scheme sections" where
  "sched_tail c = [\<lambda>s. Ok () (set_proc c None (switchkvm s)), release PtableLock]"

text \<open>
  The code that wakes the sleepers on a channel: it changes, by \<open>f\<close>, the data that they wait for
  and calls \<open>wakeup\<close>, both under the lock that they sleep with.
\<close>

definition signal_code :: "lockid \<Rightarrow> chan option \<Rightarrow> ('z ptable_scheme \<Rightarrow> 'z ptable_scheme) \<Rightarrow> 'z ptable_scheme sections" where
  "signal_code l ch f = [acquire l, \<lambda>s. Ok () (f s)] @ wakeup_code ch @ [release l]"

definition shares :: "('z ptable_scheme \<Rightarrow> 'z ptable_scheme) \<Rightarrow> bool" where
  "shares f \<longleftrightarrow> (\<forall>s. cpus (f s) = cpus s \<and> locks (f s) = locks s \<and> intr (f s) = intr s \<and> procs (f s) = procs s)"

text \<open>The scheduler of processor \<open>c\<close> picks process \<open>i\<close>, which goes on behind its switch in \<open>sleep\<close>.\<close>

definition resume_on :: "nat \<Rightarrow> nat \<Rightarrow> lockid \<Rightarrow> bool \<Rightarrow> 'z vm_scheme \<Rightarrow> ('z vm_scheme, unit) res" where
  "resume_on c i l saved s =
     run (acquire PtableLock s) (\<lambda>_ s.
     if pstate (procs s ! i) \<noteq> RUNNABLE then release PtableLock s
     else
       let s = set_proc c (Some i) s in
       run (switchuvm (Some i) s) (\<lambda>_ s.
       let s = upd_proc i (\<lambda>q. q\<lparr>pstate := RUNNING\<rparr>) s in
       sleep_resume i l saved s))"

definition sleep_script :: "chan option \<Rightarrow> lockid \<Rightarrow> nat \<Rightarrow> nat \<Rightarrow> nat set \<Rightarrow> (nat \<Rightarrow> 'z vm_scheme \<Rightarrow> 'z vm_scheme) \<Rightarrow>
    nat \<Rightarrow> 'z vm_scheme sections" where
  "sleep_script ch l i a W f c =
     (if c = a then sleep_code ch l i @ sched_tail a else if c \<in> W then signal_code l ch (f c) else [])"

text \<open>The clock interrupt and the release of a sleep lock wake their sleepers in this way.\<close>

lemma seq_fun: "seq [] = Ok ()" "seq (g # gs) = (\<lambda>s. run (g s) (\<lambda>_. seq gs))"
  by (rule ext, simp)+

lemma timer_signals:
  "timer s = run (cpuid s) (\<lambda>c s. if c = 0 then seq (signal_code TicksLock (Some ChanTicks) (\<lambda>s. s\<lparr>ticks := ticks s + 1\<rparr>)) s
     else Ok () s)"
  by (simp add: timer_def signal_code_def wakeup_def wakeup_code_def Let_def seq_fun cong: if_cong)

lemma releasesleep_signals:
  "releasesleep l = seq (signal_code (SleepSpin l) (Some (ChanSleeplock l)) (upd_sleep l (\<lambda>k. k\<lparr>sl_locked := False, sl_pid := 0\<rparr>)))"
  by (rule ext) (simp add: releasesleep_def signal_code_def wakeup_def wakeup_code_def Let_def seq_fun)

section \<open>Who holds a lock\<close>

definition owned :: "nat set \<Rightarrow> spinlock \<Rightarrow> (nat \<Rightarrow> bool) \<Rightarrow> bool" where
  "owned A k H \<longleftrightarrow> (case holder k of None \<Rightarrow> \<forall>c\<in>A. \<not> H c | Some d \<Rightarrow> \<exists>c\<in>A. d = Some c \<and> (\<forall>x\<in>A. H x \<longleftrightarrow> x = c))"

lemma owned_acquire:
  "owned A k H \<Longrightarrow> holder k = None \<Longrightarrow> c \<in> A \<Longrightarrow> holder k' = Some (Some c) \<Longrightarrow> H' c \<Longrightarrow>
     (\<And>d. d \<in> A \<Longrightarrow> d \<noteq> c \<Longrightarrow> H' d = H d) \<Longrightarrow> owned A k' H'"
  by (auto simp: owned_def)

lemma owned_release:
  "owned A k H \<Longrightarrow> H c \<Longrightarrow> c \<in> A \<Longrightarrow> holder k' = None \<Longrightarrow> \<not> H' c \<Longrightarrow>
     (\<And>d. d \<in> A \<Longrightarrow> d \<noteq> c \<Longrightarrow> H' d = H d) \<Longrightarrow> owned A k' H'"
  by (auto simp: owned_def split: option.splits) metis

lemma owned_same:
  "owned A k H \<Longrightarrow> holder k' = holder k \<Longrightarrow> (\<And>d. d \<in> A \<Longrightarrow> H' d = H d) \<Longrightarrow> owned A k' H'"
  by (auto simp: owned_def split: option.splits)

lemma owned_holder:
  assumes "owned A k H" "c \<in> A"
  shows "holder k = Some (Some c) \<longleftrightarrow> H c"
  using assms by (auto simp: owned_def split: option.splits)

lemma owned_free: "owned A k H \<Longrightarrow> holder k = None \<longleftrightarrow> (\<forall>c\<in>A. \<not> H c)"
  by (auto simp: owned_def split: option.splits)

section \<open>A processor in its own view\<close>

definition runs_on :: "nat \<Rightarrow> 'z machine_scheme \<Rightarrow> bool" where
  "runs_on c v \<longleftrightarrow> distinct (map apicid (cpus v)) \<and> c < length (cpus v) \<and> lapic_id v = apicid (cpus v ! c) \<and>
     0 \<le> ncli (cpus v ! c) \<and> (intr v \<longrightarrow> ncli (cpus v ! c) = 0)"

text \<open>\<open>only c v t\<close>: of the processors, only \<open>c\<close> differs, and it keeps its identity.\<close>

definition only :: "nat \<Rightarrow> 'z machine_scheme \<Rightarrow> 'y machine_scheme \<Rightarrow> bool" where
  "only c v t \<longleftrightarrow> (\<exists>x. cpus t = (cpus v)[c := x] \<and> apicid x = apicid (cpus v ! c))"

lemma runs_on_cpu:
  assumes "runs_on c v"
  shows "me v = c" "cpu_inv v"
proof -
  have f: "find_index (\<lambda>k. apicid k = apicid (cpus v ! c)) (cpus v) = Some c"
  proof (cases "find_index (\<lambda>k. apicid k = apicid (cpus v ! c)) (cpus v)")
    case None
    then have "\<forall>k \<in> set (cpus v). apicid k \<noteq> apicid (cpus v ! c)" by (simp only: find_index_None)
    then show ?thesis using assms nth_mem [of c "cpus v"] by (auto simp: runs_on_def)
  next
    case (Some d)
    from find_index_SomeD [OF Some] have "d < length (cpus v)" "apicid (cpus v ! d) = apicid (cpus v ! c)" by auto
    then have "d = c" using assms nth_eq_iff_index_eq [of "map apicid (cpus v)" d c] by (simp add: runs_on_def)
    then show ?thesis using Some by simp
  qed
  then show m: "me v = c" using assms by (simp add: me_def runs_on_def)
  show "cpu_inv v" using assms by (simp add: cpu_inv_iff m runs_on_def)
qed

lemma only_cpus:
  assumes "only c v t" "c < length (cpus v)"
  shows "length (cpus t) = length (cpus v)" "map apicid (cpus t) = map apicid (cpus v)" "d \<noteq> c \<Longrightarrow> cpus t ! d = cpus v ! d"
  using assms by (auto simp: only_def map_update_same)

lemma acquired_on:
  assumes "runs_on c v" "t = acquired l v"
  shows "only c v t" "ncli (cpus t ! c) = ncli (cpus v ! c) + 1" "cpu_proc (cpus t ! c) = cpu_proc (cpus v ! c)" "\<not> intr t"
    "holder (locks t k) = (if k = l then Some (Some c) else holder (locks v k))"
proof -
  note m = runs_on_cpu [OF assms(1)]
  show "only c v t" by (auto simp: only_def assms(2) acquired_def cpus_pushed m(1))
  show "ncli (cpus t ! c) = ncli (cpus v ! c) + 1" "cpu_proc (cpus t ! c) = cpu_proc (cpus v ! c)"
    using acquired_depth [OF m(2), of l] cpu_proc_locked(1) [OF m(2), of l] by (simp_all add: assms(2) m(1))
  show "\<not> intr t" by (simp add: assms(2) acquired_def upd_lock_def pushed_fields)
  show "holder (locks t k) = (if k = l then Some (Some c) else holder (locks v k))"
    using holder_locked_other(1) [of k l v] holder_acquired [of l v] by (simp add: assms(2) m(1))
qed

lemma released_on:
  assumes "runs_on c v" "t = released l v" "holder (locks v l) = Some (Some c)" "1 \<le> ncli (cpus v ! c)"
  shows "release l v = Ok () t" "only c v t" "ncli (cpus t ! c) = ncli (cpus v ! c) - 1"
    "cpu_proc (cpus t ! c) = cpu_proc (cpus v ! c)" "intr t \<Longrightarrow> ncli (cpus t ! c) = 0"
    "holder (locks t k) = (if k = l then None else holder (locks v k))"
proof -
  note m = runs_on_cpu [OF assms(1)]
  have "in_crit l v" using assms(1,3,4) m by (auto simp: in_crit_def held_holder runs_on_def)
  then show "release l v = Ok () t" unfolding assms(2) by (rule release_ok)
  show "only c v t" by (auto simp: only_def assms(2) released_def cpus_popped m(1))
  show d: "ncli (cpus t ! c) = ncli (cpus v ! c) - 1" "cpu_proc (cpus t ! c) = cpu_proc (cpus v ! c)"
    using released_depth [OF m(2), of l] cpu_proc_locked(2) [OF m(2), of l] by (simp_all add: assms(2) m(1))
  show "intr t \<Longrightarrow> ncli (cpus t ! c) = 0" using d by (auto simp: assms(2) released_def popped_def m(1))
  show "holder (locks t k) = (if k = l then None else holder (locks v k))"
    using holder_locked_other(2) [of k l v] by (cases "k = l") (simp_all add: holder_def assms(2))
qed

lemma acquire_on:
  assumes "runs_on c v" "holder (locks v l) \<noteq> Some (Some c)"
  shows "acquire l v = (if holder (locks v l) = None then Ok () (acquired l v) else Spin)"
  using acquire_cases [OF runs_on_cpu(2) [OF assms(1)], of l] assms(2) runs_on_cpu(1) [OF assms(1)]
  by (simp add: held_holder locked_holder)

section \<open>The protocol\<close>

text \<open>
  \<open>n c\<close> is the number of sections that processor \<open>c\<close> has run.  The sleeper holds \<open>l\<close> up to its
  second section and the table lock from its first to its last; a waker holds \<open>l\<close> throughout and
  the table lock around \<open>wakeup1\<close>.
\<close>

definition has_lk :: "nat \<Rightarrow> (nat \<Rightarrow> nat) \<Rightarrow> nat \<Rightarrow> bool" where
  "has_lk a n c \<longleftrightarrow> (if c = a then n c \<le> 1 else 1 \<le> n c \<and> n c \<le> 5)"

definition has_pt :: "nat \<Rightarrow> (nat \<Rightarrow> nat) \<Rightarrow> nat \<Rightarrow> bool" where
  "has_pt a n c \<longleftrightarrow> (if c = a then 1 \<le> n c \<and> n c \<le> 6 else 3 \<le> n c \<and> n c \<le> 4)"

text \<open>How far the others may have come, and what has become of the process.\<close>

definition in_order :: "nat \<Rightarrow> nat set \<Rightarrow> (nat \<Rightarrow> nat) \<Rightarrow> bool" where
  "in_order a W n \<longleftrightarrow> n a \<le> 7 \<and> (\<forall>c\<in>W. n c \<le> 6 \<and> (n a \<le> 1 \<longrightarrow> n c = 0) \<and> (n a \<le> 6 \<longrightarrow> n c \<le> 2))"

definition status :: "chan option \<Rightarrow> nat \<Rightarrow> nat set \<Rightarrow> (nat \<Rightarrow> nat) \<Rightarrow> proc \<Rightarrow> bool" where
  "status ch a W n p \<longleftrightarrow> kstack p \<noteq> 0 \<and> pgdir p \<noteq> 0 \<and> (3 \<le> n a \<longrightarrow> chan p = ch) \<and>
     (4 \<le> n a \<longrightarrow> pstate p = (if \<exists>c\<in>W. 4 \<le> n c then RUNNABLE else SLEEPING))"

definition cpus_ok :: "nat \<Rightarrow> nat set \<Rightarrow> nat \<Rightarrow> (nat \<Rightarrow> nat) \<Rightarrow> (nat \<Rightarrow> bool) \<Rightarrow> cpu list \<Rightarrow> bool" where
  "cpus_ok a W i n fl cs \<longleftrightarrow> distinct (map apicid cs) \<and> insert a W \<subseteq> {..<length cs} \<and> a \<notin> W \<and>
     (\<forall>c\<in>insert a W. ncli (cs ! c) = of_bool (has_lk a n c) + of_bool (has_pt a n c) \<and> (fl c \<longrightarrow> ncli (cs ! c) = 0)) \<and>
     (n a \<le> 5 \<longrightarrow> cpu_proc (cs ! a) = Some i)"

definition protocol :: "chan option \<Rightarrow> lockid \<Rightarrow> nat \<Rightarrow> nat \<Rightarrow> nat set \<Rightarrow> (nat \<Rightarrow> nat) \<Rightarrow> (nat \<Rightarrow> bool) \<Rightarrow>
    'z vm_scheme \<Rightarrow> bool" where
  "protocol ch l i a W n fl s \<longleftrightarrow> cpus_ok a W i n fl (cpus s) \<and> in_order a W n \<and>
     owned (insert a W) (locks s l) (has_lk a n) \<and> owned (insert a W) (locks s PtableLock) (has_pt a n) \<and>
     i < length (procs s) \<and> status ch a W n (procs s ! i)"

abbreviation tick :: "nat \<Rightarrow> (nat \<Rightarrow> nat) \<Rightarrow> nat \<Rightarrow> nat" where
  "tick c n \<equiv> n(c := Suc (n c))"

lemma cpus_ok_step:
  assumes "cpus_ok a W i n fl (cpus s)" "c \<in> insert a W" "only c s t"
    and "ncli (cpus t ! c) = of_bool (has_lk a (tick c n) c) + of_bool (has_pt a (tick c n) c)"
    and "intr t \<Longrightarrow> ncli (cpus t ! c) = 0"
    and "c = a \<Longrightarrow> n a < 5 \<Longrightarrow> cpu_proc (cpus t ! a) = Some i"
  shows "cpus_ok a W i (tick c n) (fl(c := intr t)) (cpus t)"
proof -
  have c: "c < length (cpus s)" using assms(1,2) by (auto simp: cpus_ok_def)
  note o = only_cpus [OF assms(3) c]
  have "has_lk a (tick c n) d = has_lk a n d" "has_pt a (tick c n) d = has_pt a n d" if "d \<noteq> c" for d
    using that by (simp_all add: has_lk_def has_pt_def)
  then have "ncli (cpus t ! d) = of_bool (has_lk a (tick c n) d) + of_bool (has_pt a (tick c n) d) \<and>
      ((fl(c := intr t)) d \<longrightarrow> ncli (cpus t ! d) = 0)" if "d \<in> insert a W" for d
    using that assms(1,4,5) o(3) [of d] by (cases "d = c") (auto simp: cpus_ok_def)
  moreover have "(tick c n) a \<le> 5 \<longrightarrow> cpu_proc (cpus t ! a) = Some i"
    using assms(1,6) o(3) [of a] by (cases "c = a") (auto simp: cpus_ok_def)
  moreover have "distinct (map apicid (cpus t))" "insert a W \<subseteq> {..<length (cpus t)}" "a \<notin> W"
    using assms(1) o(1,2) by (simp_all add: cpus_ok_def)
  ultimately show ?thesis unfolding cpus_ok_def by blast
qed

lemma seen_by_fields:
  "cpus (seen_by c k) = cpus (shared k)" "locks (seen_by c k) = locks (shared k)" "intr (seen_by c k) = iflag k c"
  "lapic_id (seen_by c k) = apicid (cpus (shared k) ! c)"
  by (simp_all add: seen_by_def)

lemma procs_seen_by: "procs (seen_by c k) = procs (shared k)"
  by (simp add: seen_by_def)

lemma protocol_runs_on:
  assumes "protocol ch l i a W n (iflag k) (shared k)" "c \<in> insert a W"
  shows "runs_on c (seen_by c k)"
    "ncli (cpus (seen_by c k) ! c) = of_bool (has_lk a n c) + of_bool (has_pt a n c)"
    "holder (locks (seen_by c k) l) = Some (Some c) \<longleftrightarrow> has_lk a n c"
    "holder (locks (seen_by c k) PtableLock) = Some (Some c) \<longleftrightarrow> has_pt a n c"
    "iflag k c \<Longrightarrow> \<not> has_lk a n c \<and> \<not> has_pt a n c"
proof -
  have o: "owned (insert a W) (locks (shared k) l) (has_lk a n)" "owned (insert a W) (locks (shared k) PtableLock) (has_pt a n)"
    using assms(1) by (simp_all add: protocol_def)
  show "holder (locks (seen_by c k) l) = Some (Some c) \<longleftrightarrow> has_lk a n c"
    "holder (locks (seen_by c k) PtableLock) = Some (Some c) \<longleftrightarrow> has_pt a n c"
    using owned_holder [OF o(1) assms(2)] owned_holder [OF o(2) assms(2)] by (simp_all add: seen_by_fields)
  have "c < length (cpus (shared k))" "distinct (map apicid (cpus (shared k)))"
    and d: "ncli (cpus (shared k) ! c) = of_bool (has_lk a n c) + of_bool (has_pt a n c)" "iflag k c \<longrightarrow> ncli (cpus (shared k) ! c) = 0"
    using assms by (auto simp: protocol_def cpus_ok_def)
  then show "runs_on c (seen_by c k)" by (simp add: runs_on_def seen_by_fields)
  show "ncli (cpus (seen_by c k) ! c) = of_bool (has_lk a n c) + of_bool (has_pt a n c)" using d(1) by (simp add: seen_by_fields)
  show "iflag k c \<Longrightarrow> \<not> has_lk a n c \<and> \<not> has_pt a n c" using d by (auto simp: of_bool_def split: if_splits)
qed

definition has :: "lockid \<Rightarrow> nat \<Rightarrow> (nat \<Rightarrow> nat) \<Rightarrow> nat \<Rightarrow> bool" where
  "has x = (if x = PtableLock then has_pt else has_lk)"

lemma has_other: "d \<noteq> c \<Longrightarrow> has x a (tick c n) d = has x a n d"
  by (simp add: has_def has_pt_def has_lk_def)

lemma protocol_step:
  assumes p: "protocol ch l i a W n (iflag k) (shared k)" and ne: "l \<noteq> PtableLock" and c: "c \<in> insert a W"
    and cs: "only c (seen_by c k) t" "ncli (cpus t ! c) = of_bool (has l a (tick c n) c) + of_bool (has PtableLock a (tick c n) c)"
      "intr t \<Longrightarrow> ncli (cpus t ! c) = 0" "c = a \<Longrightarrow> n a < 5 \<Longrightarrow> cpu_proc (cpus t ! c) = cpu_proc (cpus (seen_by c k) ! c)"
    and ls: "\<And>x. x \<in> {l, PtableLock} \<Longrightarrow> owned (insert a W) (locks t x) (has x a (tick c n))"
    and ps: "in_order a W (tick c n)" "length (procs t) = length (procs (shared k))" "status ch a W (tick c n) (procs t ! i)"
  shows "protocol ch l i a W (tick c n) (iflag (advance c t k)) (shared (advance c t k))"
proof -
  have "cpus_ok a W i n (iflag k) (cpus (seen_by c k))" using p by (simp add: protocol_def seen_by_fields)
  then have "cpus_ok a W i (tick c n) ((iflag k)(c := intr t)) (cpus t)"
    by (rule cpus_ok_step) (use cs c ne p in \<open>auto simp: has_def protocol_def cpus_ok_def seen_by_fields\<close>)
  then show ?thesis using p ps ls [of l] ls [of PtableLock] ne by (simp add: protocol_def advance_def has_def)
qed

lemma protocol_owned:
  assumes "protocol ch l i a W n fl s" "l \<noteq> PtableLock" "x \<in> {l, PtableLock}"
  shows "owned (insert a W) (locks s x) (has x a n)"
  using assms by (auto simp: protocol_def has_def)

text \<open>The three kinds of sections.\<close>

lemma step_local:
  assumes p: "protocol ch l i a W n (iflag k) (shared k)" and ne: "l \<noteq> PtableLock" and c: "c \<in> insert a W"
    and t: "only c (seen_by c k) t" "ncli (cpus t ! c) = ncli (cpus (seen_by c k) ! c)" "intr t = iflag k c"
      "c = a \<Longrightarrow> n a < 5 \<Longrightarrow> cpu_proc (cpus t ! c) = cpu_proc (cpus (seen_by c k) ! c)" "locks t = locks (shared k)"
    and h: "has_lk a (tick c n) c = has_lk a n c" "has_pt a (tick c n) c = has_pt a n c"
    and ps: "in_order a W (tick c n)" "length (procs t) = length (procs (shared k))" "status ch a W (tick c n) (procs t ! i)"
  shows "protocol ch l i a W (tick c n) (iflag (advance c t k)) (shared (advance c t k))"
proof (rule protocol_step [OF p ne c t(1) _ _ t(4) _ ps])
  note r = protocol_runs_on [OF p c]
  show "ncli (cpus t ! c) = of_bool (has l a (tick c n) c) + of_bool (has PtableLock a (tick c n) c)"
    using t(2) r(2) h ne by (simp add: has_def)
  show "intr t \<Longrightarrow> ncli (cpus t ! c) = 0" using t(2,3) r(2,5) by simp
  fix x assume x: "x \<in> {l, PtableLock}"
  show "owned (insert a W) (locks t x) (has x a (tick c n))"
    by (rule owned_same [OF protocol_owned [OF p ne x]])
      (use t(5) h in \<open>auto simp: has_def has_lk_def has_pt_def\<close>)
qed

lemma step_acquire:
  assumes p: "protocol ch l i a W n (iflag k) (shared k)" and ne: "l \<noteq> PtableLock" and c: "c \<in> insert a W"
    and xy: "x = l \<and> y = PtableLock \<or> x = PtableLock \<and> y = l"
    and h: "\<not> has x a n c" "has x a (tick c n) c" "has y a (tick c n) c = has y a n c"
    and ps: "\<forall>d\<in>insert a W. \<not> has x a n d \<Longrightarrow> in_order a W (tick c n)" "status ch a W (tick c n) (procs (shared k) ! i)"
  shows "acquire x (seen_by c k) = (if \<forall>d\<in>insert a W. \<not> has x a n d then Ok () (acquired x (seen_by c k)) else Spin)"
    "\<forall>d\<in>insert a W. \<not> has x a n d \<Longrightarrow>
      protocol ch l i a W (tick c n) (iflag (advance c (acquired x (seen_by c k)) k)) (shared (advance c (acquired x (seen_by c k)) k))"
proof -
  have x: "x \<in> {l, PtableLock}" "y \<in> {l, PtableLock}" "x \<noteq> y" using xy ne by auto
  note r = protocol_runs_on [OF p c]
  have o: "owned (insert a W) (locks (seen_by c k) z) (has z a n)" if "z \<in> {l, PtableLock}" for z
    using protocol_owned [OF p ne that] by (simp add: seen_by_fields)
  have nh: "holder (locks (seen_by c k) x) \<noteq> Some (Some c)" using owned_holder [OF o [OF x(1)] c] h(1) by simp
  show "acquire x (seen_by c k) = (if \<forall>d\<in>insert a W. \<not> has x a n d then Ok () (acquired x (seen_by c k)) else Spin)"
    using acquire_on [OF r(1) nh] owned_free [OF o [OF x(1)]] by simp
  assume free: "\<forall>d\<in>insert a W. \<not> has x a n d"
  have dep: "ncli (cpus (seen_by c k) ! c) = of_bool (has x a n c) + of_bool (has y a n c)"
    using r(2) ne xy by (auto simp: has_def)
  let ?t = "acquired x (seen_by c k)"
  note t = acquired_on [OF r(1) refl, of x]
  show "protocol ch l i a W (tick c n) (iflag (advance c ?t k)) (shared (advance c ?t k))"
  proof (rule protocol_step [OF p ne c t(1) _ _ t(3) _ ps(1) [OF free]])
    have "ncli (cpus ?t ! c) = of_bool (has x a (tick c n) c) + of_bool (has y a (tick c n) c)"
      using t(2) dep h by simp
    then show "ncli (cpus ?t ! c) = of_bool (has l a (tick c n) c) + of_bool (has PtableLock a (tick c n) c)"
      using xy by auto
    fix z assume z: "z \<in> {l, PtableLock}"
    show "owned (insert a W) (locks ?t z) (has z a (tick c n))"
    proof (cases "z = x")
      case True
      show ?thesis unfolding True
        by (rule owned_acquire [OF o [OF x(1)] _ c]) (use free owned_free [OF o [OF x(1)]] t(5) h(2) in \<open>simp_all add: has_other\<close>)
    next
      case False
      then have y: "z = y" using z x xy by auto
      have hd: "has y a (tick c n) d = has y a n d" for d using h(3) has_other [of d c y a n] by (cases "d = c") simp_all
      show ?thesis unfolding y
        by (rule owned_same [OF o [OF x(2)]]) (use t(5) [of y] x(3) hd in simp_all)
    qed
  qed (use t(4) ps(2) in \<open>simp_all add: procs_seen_by\<close>)
qed

lemma step_release:
  assumes p: "protocol ch l i a W n (iflag k) (shared k)" and ne: "l \<noteq> PtableLock" and c: "c \<in> insert a W"
    and xy: "x = l \<and> y = PtableLock \<or> x = PtableLock \<and> y = l"
    and h: "has x a n c" "\<not> has x a (tick c n) c" "has y a (tick c n) c = has y a n c"
    and ps: "in_order a W (tick c n)" "status ch a W (tick c n) (procs (shared k) ! i)"
  shows "release x (seen_by c k) = Ok () (released x (seen_by c k))"
    "protocol ch l i a W (tick c n) (iflag (advance c (released x (seen_by c k)) k)) (shared (advance c (released x (seen_by c k)) k))"
proof -
  have x: "x \<in> {l, PtableLock}" "y \<in> {l, PtableLock}" "x \<noteq> y" using xy ne by auto
  note r = protocol_runs_on [OF p c]
  have o: "owned (insert a W) (locks (seen_by c k) z) (has z a n)" if "z \<in> {l, PtableLock}" for z
    using protocol_owned [OF p ne that] by (simp add: seen_by_fields)
  have hh: "holder (locks (seen_by c k) x) = Some (Some c)" using owned_holder [OF o [OF x(1)] c] h(1) by simp
  have dep: "ncli (cpus (seen_by c k) ! c) = of_bool (has x a n c) + of_bool (has y a n c)"
    using r(2) ne xy by (auto simp: has_def)
  let ?t = "released x (seen_by c k)"
  have one: "1 \<le> ncli (cpus (seen_by c k) ! c)" using dep h(1) by simp
  note t = released_on [OF r(1) refl hh one]
  show "release x (seen_by c k) = Ok () ?t" by (rule t(1))
  show "protocol ch l i a W (tick c n) (iflag (advance c ?t k)) (shared (advance c ?t k))"
  proof (rule protocol_step [OF p ne c t(2) _ t(5) t(4) _ ps(1)])
    have "ncli (cpus ?t ! c) = of_bool (has x a (tick c n) c) + of_bool (has y a (tick c n) c)"
      using t(3) dep h by simp
    then show "ncli (cpus ?t ! c) = of_bool (has l a (tick c n) c) + of_bool (has PtableLock a (tick c n) c)"
      using xy by auto
    fix z assume z: "z \<in> {l, PtableLock}"
    show "owned (insert a W) (locks ?t z) (has z a (tick c n))"
    proof (cases "z = x")
      case True
      show ?thesis unfolding True
        by (rule owned_release [OF o [OF x(1)] h(1) c]) (use t(6) h(2) in \<open>simp_all add: has_other\<close>)
    next
      case False
      then have y: "z = y" using z x xy by auto
      have hd: "has y a (tick c n) d = has y a n d" for d using h(3) has_other [of d c y a n] by (cases "d = c") simp_all
      show ?thesis unfolding y
        by (rule owned_same [OF o [OF x(2)]]) (use t(6) [of y] x(3) hd in simp_all)
    qed
  qed (use ps(2) in \<open>simp_all add: procs_seen_by\<close>)
qed

section \<open>The steps of the sleeper and of the wakers\<close>

lemma sleeper_script:
  assumes "l \<noteq> PtableLock"
  shows "sleep_script ch l i a W f a =
     [acquire PtableLock, release l, \<lambda>s. Ok () (upd_proc i (\<lambda>q. q\<lparr>chan := ch\<rparr>) s),
      \<lambda>s. Ok () (upd_proc i (\<lambda>q. q\<lparr>pstate := SLEEPING\<rparr>) s), sched,
      \<lambda>s. Ok () (set_proc a None (switchkvm s)), release PtableLock]"
  using assms by (simp add: sleep_script_def sleep_code_def sched_tail_def)

lemma waker_script:
  assumes "c \<in> W" "a \<notin> W"
  shows "sleep_script ch l i a W f c =
     [acquire l, \<lambda>s. Ok () (f c s), acquire PtableLock, \<lambda>s. Ok () (wakeup1 ch s), release PtableLock, release l]"
  using assms by (auto simp: sleep_script_def signal_code_def wakeup_code_def)

definition proceeds :: "('z vm_scheme, unit) res \<Rightarrow> ('z vm_scheme \<Rightarrow> bool) \<Rightarrow> bool" where
  "proceeds r Q \<longleftrightarrow> (case r of Ok _ t \<Rightarrow> Q t | Switch t \<Rightarrow> Q t | _ \<Rightarrow> False)"

lemma proceeds_simps [simp]:
  "proceeds (Ok u t) Q = Q t" "proceeds (Switch t) Q = Q t" "proceeds Spin Q = False" "proceeds (Panic e) Q = False"
  by (simp_all add: proceeds_def)

lemma only_same: "cpus t = cpus v \<Longrightarrow> only c v t"
  unfolding only_def by (metis list_update_id)

lemma protocolD:
  assumes "protocol ch l i a W n fl s"
  shows "in_order a W n" "i < length (procs s)" "status ch a W n (procs s ! i)" "a \<notin> W" "a < length (cpus s)"
    "n a \<le> 5 \<Longrightarrow> cpu_proc (cpus s ! a) = Some i"
  using assms by (auto simp: protocol_def cpus_ok_def)

text \<open>A section that writes to the process table while the table lock is held.\<close>

lemma step_table:
  assumes p: "protocol ch l i a W n (iflag k) (shared k)" and ne: "l \<noteq> PtableLock" and c: "c \<in> insert a W"
    and t: "cpus t = cpus (shared k)" "locks t = locks (shared k)" "intr t = iflag k c" "length (procs t) = length (procs (shared k))"
    and h: "has_lk a (tick c n) c = has_lk a n c" "has_pt a (tick c n) c = has_pt a n c"
    and ps: "in_order a W (tick c n)" "status ch a W (tick c n) (procs t ! i)"
  shows "protocol ch l i a W (tick c n) (iflag (advance c t k)) (shared (advance c t k))"
  by (rule step_local [OF p ne c only_same _ t(3) _ t(2) h ps(1) t(4) ps(2)]) (simp_all add: t(1) seen_by_fields)

lemma sleeper_step:
  assumes p: "protocol ch l i a W n (iflag k) (shared k)" and ne: "l \<noteq> PtableLock" and lt: "n a < 7"
  shows "proceeds ((sleep_script ch l i a W f a ! n a) (seen_by a k)) (\<lambda>t.
     protocol ch l i a W (tick a n) (iflag (advance a t k)) (shared (advance a t k)))"
proof -
  note d = protocolD [OF p]
  have a: "a \<in> insert a W" by simp
  note r = protocol_runs_on [OF p a] and s = sleeper_script [OF ne, of ch i a W f]
  have two: "n c \<le> 2" if "c \<in> W" for c using d(1) lt that by (auto simp: in_order_def)
  have table: "protocol ch l i a W (tick a n) (iflag (advance a (upd_proc i g (seen_by a k)) k)) (shared (advance a (upd_proc i g (seen_by a k)) k))"
    if "n a \<in> {2, 3, 4}" "in_order a W (tick a n)" "status ch a W (tick a n) (g (procs (shared k) ! i))" for g
    using that d(2) by (intro step_table [OF p ne a]) (auto simp: seen_by_fields procs_seen_by has_lk_def has_pt_def)
  consider "n a = 0" | "n a = 1" | "n a = 2" | "n a = 3" | "n a = 4" | "n a = 5" | "n a = 6" using lt by linarith
  then show ?thesis
  proof cases
    case 1
    have free: "\<forall>e\<in>insert a W. \<not> has PtableLock a n e" using 1 d(1) by (auto simp: has_def has_pt_def in_order_def)
    have "in_order a W (tick a n)" "status ch a W (tick a n) (procs (shared k) ! i)"
      using 1 d by (auto simp: in_order_def status_def)
    with step_acquire [OF p ne a, of PtableLock l] free show ?thesis
      using 1 ne by (simp add: s has_def has_pt_def has_lk_def)
  next
    case 2
    have "in_order a W (tick a n)" "status ch a W (tick a n) (procs (shared k) ! i)"
      using 2 d by (auto simp: in_order_def status_def)
    with step_release [OF p ne a, of l PtableLock] show ?thesis
      using 2 ne by (simp add: s has_def has_pt_def has_lk_def)
  next
    case 3
    have "in_order a W (tick a n)" using 3 d two by (auto simp: in_order_def)
    moreover have "status ch a W (tick a n) ((procs (shared k) ! i)\<lparr>chan := ch\<rparr>)" using 3 d by (simp add: status_def)
    ultimately show ?thesis using table [of "\<lambda>q. q\<lparr>chan := ch\<rparr>"] 3 by (simp add: s)
  next
    case 4
    have "in_order a W (tick a n)" using 4 d two by (auto simp: in_order_def)
    moreover have "status ch a W (tick a n) ((procs (shared k) ! i)\<lparr>pstate := SLEEPING\<rparr>)"
      using 4 d two d(4) by (force simp: status_def)
    ultimately show ?thesis using table [of "\<lambda>q. q\<lparr>pstate := SLEEPING\<rparr>"] 4 by (simp add: s)
  next
    case 5
    have st: "pstate (procs (shared k) ! i) = SLEEPING" using 5 d(3) two by (force simp: status_def)
    have m: "me (seen_by a k) = a" "cpu_inv (seen_by a k)" using runs_on_cpu [OF r(1)] by simp_all
    have "has_pt a n a" "\<not> has_lk a n a" using 5 by (simp_all add: has_pt_def has_lk_def)
    then have "in_crit PtableLock (seen_by a k)" "ncli (my_cpu (seen_by a k)) = 1"
      using m r(2,4,5) by (auto simp: in_crit_def held_holder seen_by_fields(3))
    moreover have "cur (seen_by a k) = Some i" using d(6) 5 m by (simp add: cur_def seen_by_fields)
    ultimately have sw: "sched (seen_by a k) = Switch (upd_proc i (\<lambda>q. q\<lparr>pcontext := ctx_esp (seen_by a k)\<rparr>) (seen_by a k))"
      using st by (intro sched_switches) (simp add: sched_ready_def procs_seen_by)
    have "in_order a W (tick a n)" using 5 d two by (auto simp: in_order_def)
    moreover have "status ch a W (tick a n) ((procs (shared k) ! i)\<lparr>pcontext := x\<rparr>)" for x
      using 5 d(3,4) two by (force simp: status_def)
    ultimately show ?thesis using table [of "\<lambda>q. q\<lparr>pcontext := ctx_esp (seen_by a k)\<rparr>"] 5 by (simp add: s sw)
  next
    case 6
    let ?t = "set_proc a None (switchkvm (seen_by a k))"
    have m: "me (seen_by a k) = a" using runs_on_cpu [OF r(1)] by simp
    let ?x = "(cpus (seen_by a k) ! a)\<lparr>cr3 := V2P (kpgdir (seen_by a k)), cpu_proc := None\<rparr>"
    have c: "cpus ?t = (cpus (seen_by a k))[a := ?x]"
      using d(5) by (simp add: set_proc_def switchkvm_def lcr3_def upd_cpu_def m seen_by_fields)
    then have "only a (seen_by a k) ?t" unfolding only_def by (intro exI [of _ ?x] conjI) simp_all
    moreover have "ncli (cpus ?t ! a) = ncli (cpus (seen_by a k) ! a)" using c d(5) by (simp add: seen_by_fields)
    moreover have "intr ?t = iflag k a" "locks ?t = locks (shared k)" "procs ?t = procs (shared k)"
      by (simp_all add: set_proc_def switchkvm_def lcr3_def upd_cpu_def seen_by_def)
    moreover have "in_order a W (tick a n)" using 6 d two by (auto simp: in_order_def)
    moreover have "status ch a W (tick a n) (procs (shared k) ! i)" using 6 d(3,4) two by (force simp: status_def)
    ultimately have "protocol ch l i a W (tick a n) (iflag (advance a ?t k)) (shared (advance a ?t k))"
      using 6 by (intro step_local [OF p ne a]) (simp_all add: has_lk_def has_pt_def)
    then show ?thesis using 6 by (simp add: s)
  next
    case 7
    have "in_order a W (tick a n)" using 7 d(1) two by (force simp: in_order_def)
    moreover have "status ch a W (tick a n) (procs (shared k) ! i)"
      using 7 d(3,4) two by (force simp: status_def)
    ultimately show ?thesis
      using step_release [OF p ne a, of PtableLock l] 7 ne by (simp add: s has_def has_pt_def has_lk_def)
  qed
qed

lemma wakeup1_nth:
  "i < length (procs s) \<Longrightarrow> procs (wakeup1 ch s) ! i =
     (if pstate (procs s ! i) = SLEEPING \<and> chan (procs s ! i) = ch then (procs s ! i)\<lparr>pstate := RUNNABLE\<rparr> else procs s ! i)"
  by (simp add: wakeup1_def)

lemma waker_step:
  assumes p: "protocol ch l i a W n (iflag k) (shared k)" and ne: "l \<noteq> PtableLock" and c: "c \<in> W" and lt: "n c < 6" and f: "shares (f c)"
  shows "(sleep_script ch l i a W f c ! n c) (seen_by c k) = Spin \<and>
       (n c = 0 \<and> (\<exists>d\<in>insert a W. has_lk a n d) \<or> n c = 2 \<and> (\<exists>d\<in>insert a W. has_pt a n d)) \<or>
     proceeds ((sleep_script ch l i a W f c ! n c) (seen_by c k)) (\<lambda>t.
       protocol ch l i a W (tick c n) (iflag (advance c t k)) (shared (advance c t k)))"
proof -
  note d = protocolD [OF p]
  have A: "c \<in> insert a W" and ca: "c \<noteq> a" using c d(4) by auto
  note s = waker_script [OF c d(4), of ch l i f]
  have seven: "n a = 7" if "3 \<le> n c" using d(1) c that by (force simp: in_order_def)
  consider "n c = 0" | "n c = 1" | "n c = 2" | "n c = 3" | "n c = 4" | "n c = 5" using lt by linarith
  then show ?thesis
  proof cases
    case 1
    have i1: "in_order a W (tick c n)" if "\<forall>e\<in>insert a W. \<not> has l a n e"
      using that 1 d(1) ca ne by (force simp: in_order_def has_def has_lk_def)
    have "status ch a W (tick c n) (procs (shared k) ! i)" using 1 d(3) ca by (auto simp: status_def)
    with step_acquire [OF p ne A, of l PtableLock] i1 show ?thesis
      using 1 ne ca by (simp add: s has_def has_pt_def [of _ _ c] has_lk_def [of _ _ c])
  next
    case 2
    have "in_order a W (tick c n)" using 2 d(1) ca by (force simp: in_order_def)
    moreover have "status ch a W (tick c n) (procs (shared k) ! i)" using 2 d(3) ca by (auto simp: status_def)
    ultimately have "protocol ch l i a W (tick c n) (iflag (advance c (f c (seen_by c k)) k)) (shared (advance c (f c (seen_by c k)) k))"
      using 2 f ca by (intro step_table [OF p ne A]) (simp_all add: shares_def seen_by_fields procs_seen_by has_lk_def has_pt_def)
    then show ?thesis using 2 by (simp add: s)
  next
    case 3
    have i3: "in_order a W (tick c n)" if "\<forall>e\<in>insert a W. \<not> has PtableLock a n e"
      using that 3 d(1) ca c by (force simp: in_order_def has_def has_pt_def)
    have "status ch a W (tick c n) (procs (shared k) ! i)" using 3 d(3) ca by (auto simp: status_def)
    with step_acquire [OF p ne A, of PtableLock l] i3 show ?thesis
      using 3 ne ca by (simp add: s has_def has_pt_def [of _ _ c] has_lk_def [of _ _ c])
  next
    case 4
    have "in_order a W (tick c n)" using 4 d(1) ca seven by (force simp: in_order_def)
    moreover have "status ch a W (tick c n) (procs (wakeup1 ch (seen_by c k)) ! i)"
      using 4 d(2,3) c seven ca by (auto simp: status_def wakeup1_nth procs_seen_by)
    ultimately have "protocol ch l i a W (tick c n) (iflag (advance c (wakeup1 ch (seen_by c k)) k)) (shared (advance c (wakeup1 ch (seen_by c k)) k))"
      using 4 ca by (intro step_table [OF p ne A]) (simp_all add: wakeup1_def seen_by_fields procs_seen_by has_lk_def has_pt_def)
    then show ?thesis using 4 by (simp add: s)
  next
    case 5
    have "in_order a W (tick c n)" using 5 d(1) ca seven by (force simp: in_order_def)
    moreover have "status ch a W (tick c n) (procs (shared k) ! i)" using 5 d(3) ca c by (auto simp: status_def)
    ultimately show ?thesis
      using step_release [OF p ne A, of PtableLock l] 5 ne ca by (simp add: s has_def has_pt_def has_lk_def)
  next
    case 6
    have "in_order a W (tick c n)" using 6 d(1) ca seven by (force simp: in_order_def)
    moreover have "status ch a W (tick c n) (procs (shared k) ! i)" using 6 d(3) ca c by (auto simp: status_def)
    ultimately show ?thesis
      using step_release [OF p ne A, of l PtableLock] 6 ne ca by (simp add: s has_def has_pt_def has_lk_def)
  qed
qed

section \<open>Schedules\<close>

definition progress :: "chan option \<Rightarrow> lockid \<Rightarrow> nat \<Rightarrow> nat \<Rightarrow> nat set \<Rightarrow> (nat \<Rightarrow> 'z vm_scheme \<Rightarrow> 'z vm_scheme) \<Rightarrow>
    (nat \<Rightarrow> nat) \<Rightarrow> 'z vm_scheme smp \<Rightarrow> bool" where
  "progress ch l i a W f n k \<longleftrightarrow> protocol ch l i a W n (iflag k) (shared k) \<and>
     (\<forall>c. todo k c = drop (n c) (sleep_script ch l i a W f c))"

lemma script_length:
  assumes "l \<noteq> PtableLock" "a \<notin> W"
  shows "length (sleep_script ch l i a W f c) = (if c = a then 7 else if c \<in> W then 6 else 0)"
proof -
  have "sleep_script ch l i a W f c = []" if "c \<noteq> a" "c \<notin> W" using that by (simp add: sleep_script_def)
  then show ?thesis using sleeper_script [OF assms(1), of ch i a W f] waker_script [OF _ assms(2), of c ch l i f]
    by (cases "c = a"; cases "c \<in> W") auto
qed

text \<open>The next section of a processor runs, or it is an acquire and the lock is taken.\<close>

lemma progress_step:
  assumes "progress ch l i a W f n k" "l \<noteq> PtableLock" "\<forall>c\<in>W. shares (f c)" "todo k c \<noteq> []"
  shows "c \<in> insert a W \<and> c < length (cpus (shared k)) \<and>
     (hd (todo k c) (seen_by c k) = Spin \<and>
        (c \<in> W \<and> (n c = 0 \<and> (\<exists>d\<in>insert a W. has_lk a n d) \<or> n c = 2 \<and> (\<exists>d\<in>insert a W. has_pt a n d))) \<or>
      proceeds (hd (todo k c) (seen_by c k)) (\<lambda>t. progress ch l i a W f (tick c n) (advance c t k)))"
proof -
  have p: "protocol ch l i a W n (iflag k) (shared k)" and td: "\<And>c. todo k c = drop (n c) (sleep_script ch l i a W f c)"
    using assms(1) by (simp_all add: progress_def)
  note len = script_length [OF assms(2) protocolD(4) [OF p], of ch i f c]
  have lt: "n c < length (sleep_script ch l i a W f c)" using assms(4) td [of c] by simp
  then have c: "c \<in> insert a W" using len by (auto split: if_splits)
  have "c < length (cpus (shared k))" using p c by (auto simp: protocol_def cpus_ok_def)
  moreover have hd: "hd (todo k c) = sleep_script ch l i a W f c ! n c" using lt td [of c] by (simp add: hd_drop_conv_nth)
  moreover have "progress ch l i a W f (tick c n) (advance c t k)"
    if "protocol ch l i a W (tick c n) (iflag (advance c t k)) (shared (advance c t k))" for t
    using that td by (auto simp: progress_def advance_def tl_drop drop_Suc)
  then have mono: "proceeds r (\<lambda>t. progress ch l i a W f (tick c n) (advance c t k))"
    if "proceeds r (\<lambda>t. protocol ch l i a W (tick c n) (iflag (advance c t k)) (shared (advance c t k)))" for r
    using that by (cases r) simp_all
  moreover have "n a < 7" if "c = a" using that lt len by simp
  moreover have "n c < 6" "c \<in> W" if "c \<noteq> a" using that lt len c by auto
  ultimately show ?thesis
    using c sleeper_step [OF p assms(2), of f] waker_step [OF p assms(2), of c f] assms(3)
    by (cases "c = a") auto
qed

lemma progress_smp_step:
  assumes "progress ch l i a W f n k" "l \<noteq> PtableLock" "\<forall>c\<in>W. shares (f c)" "smp_step k k'"
  shows "\<exists>c\<in>insert a W. progress ch l i a W f (tick c n) k'"
  using assms(4)
proof cases
  case (smp_ok c t)
  with progress_step [OF assms(1-3) smp_ok(3)] show ?thesis by auto
next
  case (smp_switch c t)
  with progress_step [OF assms(1-3) smp_switch(3)] show ?thesis by auto
qed

lemma proceeds_smp_step:
  assumes "c < length (cpus (shared k))" "todo k c \<noteq> []" "proceeds (hd (todo k c) (seen_by c k)) Q"
  shows "\<exists>k'. smp_step k k'"
  using assms smp_ok [OF assms(1,2)] smp_switch [OF assms(1,2)]
  by (cases "hd (todo k c) (seen_by c k)") auto

lemma progress_no_panic:
  assumes "progress ch l i a W f n k" "l \<noteq> PtableLock" "\<forall>c\<in>W. shares (f c)"
  shows "\<not> smp_panics k"
proof
  assume "smp_panics k"
  then obtain c e where "todo k c \<noteq> []" "hd (todo k c) (seen_by c k) = Panic e" by (auto simp: smp_panics_def)
  with progress_step [OF assms, of c] show False by auto
qed

text \<open>Someone can go on: the sleeper, or the holder of the table lock, or the holder of \<open>l\<close>, or anyone.\<close>

lemma progress_not_stuck:
  assumes "progress ch l i a W f n k" "l \<noteq> PtableLock" "\<forall>c\<in>W. shares (f c)" "todo k b \<noteq> []"
  shows "\<exists>k'. smp_step k k'"
proof -
  have p: "protocol ch l i a W n (iflag k) (shared k)" and td: "\<And>c. todo k c = drop (n c) (sleep_script ch l i a W f c)"
    using assms(1) by (simp_all add: progress_def)
  note d = protocolD [OF p]
  note len = script_length [OF assms(2) d(4), of ch i f]
  have go: "\<exists>k'. smp_step k k'"
    if "todo k c \<noteq> []" "\<not> (c \<in> W \<and> (n c = 0 \<and> (\<exists>e\<in>insert a W. has_lk a n e) \<or> n c = 2 \<and> (\<exists>e\<in>insert a W. has_pt a n e)))" for c
    using progress_step [OF assms(1-3) that(1)] that proceeds_smp_step [of c k] by auto
  show ?thesis
  proof (cases "n a < 7")
    case True
    then have "todo k a \<noteq> []" using td [of a] len [of a] by simp
    then show ?thesis using d(4) by (intro go [of a]) auto
  next
    case False
    then have a: "\<not> has_lk a n a" "\<not> has_pt a n a" "n a = 7" using d(1) by (auto simp: has_lk_def has_pt_def in_order_def)
    have w: "todo k c \<noteq> []" if "c \<in> W" "n c < 6" for c using that td [of c] len [of c] d(4) by auto
    show ?thesis
    proof (cases "\<exists>c\<in>W. has_lk a n c")
      case True
      then obtain c where c: "c \<in> W" "has_lk a n c" by blast
      then have n: "1 \<le> n c" "n c \<le> 5" using d(4) by (auto simp: has_lk_def split: if_splits)
      show ?thesis
      proof (cases "\<exists>e\<in>W. has_pt a n e")
        case True
        then obtain e where "e \<in> W" "3 \<le> n e" "n e \<le> 4" using d(4) by (auto simp: has_pt_def split: if_splits)
        then show ?thesis using w [of e] by (intro go [of e]) auto
      next
        case False
        then show ?thesis using c n w [of c] a by (intro go [of c]) auto
      qed
    next
      case False
      have "b \<in> W" "n b < 6" using assms(4) td [of b] len [of b] a(3) by (auto split: if_splits)
      moreover have "n b = 0" using False calculation d(4) by (auto simp: has_lk_def split: if_splits)
      ultimately show ?thesis using assms(4) False a(1) by (intro go [of b]) auto
    qed
  qed
qed

lemma progress_finite: "progress ch l i a W f n k \<Longrightarrow> finite W"
  by (auto simp: progress_def protocol_def cpus_ok_def intro: finite_subset [of W "{..<length (cpus (shared k))}"])

lemma progress_steps:
  assumes "(smp_step ^^ m) k0 k" "progress ch l i a W f n0 k0" "l \<noteq> PtableLock" "\<forall>c\<in>W. shares (f c)"
  shows "\<exists>n. progress ch l i a W f n k \<and> sum n (insert a W) = sum n0 (insert a W) + m"
  using assms(1)
proof (induction m arbitrary: k)
  case 0
  then show ?case using assms(2) by auto
next
  case (Suc m)
  then obtain j where j: "(smp_step ^^ m) k0 j" "smp_step j k" by auto
  from Suc.IH [OF j(1)] obtain n where n: "progress ch l i a W f n j" "sum n (insert a W) = sum n0 (insert a W) + m" by blast
  from progress_smp_step [OF n(1) assms(3,4) j(2)] obtain c where c: "c \<in> insert a W" "progress ch l i a W f (tick c n) k" by blast
  have fin: "finite (insert a W)" using progress_finite [OF n(1)] by simp
  have "sum (tick c n) (insert a W - {c}) = sum n (insert a W - {c})" by (rule sum.cong) simp_all
  then have "sum (tick c n) (insert a W) = Suc (sum n (insert a W))"
    using sum.remove [OF fin c(1), of n] sum.remove [OF fin c(1), of "tick c n"] by (simp only: fun_upd_same add_Suc)
  then show ?case using c(2) n(2) by auto
qed

lemma progress_bound:
  assumes "progress ch l i a W f n k"
  shows "sum n (insert a W) \<le> 7 + 6 * card W"
proof -
  have p: "in_order a W n" "a \<notin> W" using assms by (auto simp: progress_def dest: protocolD)
  have "sum n W \<le> of_nat (card W) * 6" by (rule sum_bounded_above) (use p in \<open>simp add: in_order_def\<close>)
  then show ?thesis using p progress_finite [OF assms] by (simp add: in_order_def)
qed

lemma progress_done:
  assumes "progress ch l i a W f n k" "l \<noteq> PtableLock" "\<forall>c. todo k c = []"
  shows "n a = 7" "\<And>c. c \<in> W \<Longrightarrow> n c = 6"
proof -
  have p: "protocol ch l i a W n (iflag k) (shared k)" and td: "\<And>c. drop (n c) (sleep_script ch l i a W f c) = []"
    using assms(1,3) by (simp_all add: progress_def)
  note d = protocolD [OF p] and len = script_length [OF assms(2) protocolD(4) [OF p], of ch i f]
  show "n a = 7" using td [of a] len [of a] d(1) by (simp add: in_order_def)
  show "n c = 6" if c: "c \<in> W" for c
  proof -
    have "c \<noteq> a" using c d(4) by auto
    then have "6 \<le> n c" using td [of c] len [of c] c by simp
    moreover have "n c \<le> 6" using d(1) c by (simp add: in_order_def)
    ultimately show ?thesis by simp
  qed
qed

text \<open>When all is done and the scheduler of one of the processors picks the process, \<open>sleep\<close> returns.\<close>

lemma resume_on_ok:
  assumes "can_lock PtableLock s" "ncli (my_cpu s) = 0" "me s = c" "l \<noteq> PtableLock" "locked (locks s l) = 0"
    and "i < length (procs s)" "kstack (procs s ! i) \<noteq> 0" "pgdir (procs s ! i) \<noteq> 0" "pstate (procs s ! i) = RUNNABLE"
  shows "returns (resume_on c i l saved s) (\<lambda>_ t. in_crit l t \<and> locked (locks t PtableLock) = 0 \<and>
     pstate (procs t ! i) = RUNNING \<and> chan (procs t ! i) = None)"
proof -
  let ?a = "acquired PtableLock s"
  have ci: "cpu_inv s" using assms(1) by (simp add: can_lock_def)
  have ca: "in_crit PtableLock ?a" "me ?a = c" "ncli (my_cpu ?a) = 1"
    using in_crit_acquired [OF assms(1)] assms(2,3) acquired_depth [OF ci, of PtableLock] by simp_all
  have len: "c < length (cpus ?a)" using me_less [of ?a] ca(1,2) by (simp add: in_crit_def)
  let ?b = "set_proc c (Some i) ?a"
  have mb: "me ?b = c" using ca(2) me_cong [of ?b ?a] by (simp add: set_proc_def upd_cpu_def map_update_same)
  have fb: "cpus ?b ! c = (cpus ?a ! c)\<lparr>cpu_proc := Some i\<rparr>" "locks ?b = locks ?a" "intr ?b = intr ?a" "lapic_id ?b = lapic_id ?a"
      "procs ?b = procs s" "length (cpus ?b) = length (cpus ?a)"
    using len by (simp_all add: set_proc_def upd_cpu_def)
  have cb: "in_crit PtableLock ?b" "ncli (my_cpu ?b) = 1"
    using ca len by (simp_all add: in_crit_def cpu_inv_iff held_def mb fb)
  then have ib: "cpu_inv ?b" by (simp add: in_crit_def)
  obtain u where u: "switchuvm (Some i) ?b = Ok () u" "balanced ?b u" "machine.more u = machine.more ?b"
    using switchuvm_ok [OF ib, of i] assms(7,8) fb(5) by (auto simp: returns_iff)
  have cu: "in_crit PtableLock u" "ncli (my_cpu u) = 1" "procs u = procs s"
    using in_crit_balanced [OF u(2) cb(1)] balanced_my_cpu [OF u(2) me_less [OF ib]] cb(2) machine_more_vm [OF u(3)] fb(5)
    by (simp_all add: cpu_view_def)
  have hu: "locked (locks u l) = 0"
    using assms(4,5) u(2) fb(2) by (simp add: balanced_def locked_holder holder_locked_other)
  let ?v = "upd_proc i (\<lambda>q. q\<lparr>pstate := RUNNING\<rparr>) u"
  have "returns (sleep_resume i l saved ?v) (\<lambda>_ t. in_crit l t \<and> locked (locks t PtableLock) = 0 \<and>
     procs t = (procs ?v)[i := (procs ?v ! i)\<lparr>chan := None\<rparr>])"
    using cu hu assms(4) by (intro sleep_resume_ok) simp_all
  then have "returns (sleep_resume i l saved ?v) (\<lambda>_ t. in_crit l t \<and> locked (locks t PtableLock) = 0 \<and>
     pstate (procs t ! i) = RUNNING \<and> chan (procs t ! i) = None)"
    using cu(3) assms(6) by (auto elim!: returns_mono)
  then show ?thesis using assms(9) u(1) by (simp add: resume_on_def acquire_ok [OF assms(1)] Let_def)
qed

lemma progress_resume:
  assumes "progress ch l i a W f n k" "l \<noteq> PtableLock" "\<forall>c. todo k c = []" "W \<noteq> {}" "c \<in> insert a W"
  shows "returns (resume_on c i l saved (seen_by c k)) (\<lambda>_ t. in_crit l t \<and> locked (locks t PtableLock) = 0 \<and>
     pstate (procs t ! i) = RUNNING \<and> chan (procs t ! i) = None)"
proof (rule resume_on_ok [OF _ _ _ assms(2)])
  have p: "protocol ch l i a W n (iflag k) (shared k)" using assms(1) by (simp add: progress_def)
  note e = progress_done [OF assms(1,2,3)] and d = protocolD [OF p] and r = protocol_runs_on [OF p assms(5)]
  have no: "\<not> has_lk a n x" "\<not> has_pt a n x" if "x \<in> insert a W" for x using that e d(4) by (auto simp: has_lk_def has_pt_def)
  show m: "me (seen_by c k) = c" using runs_on_cpu [OF r(1)] by simp
  show "ncli (my_cpu (seen_by c k)) = 0" using r(2) no [OF assms(5)] m by simp
  have free: "holder (locks (seen_by c k) x) = None" if "x \<in> {l, PtableLock}" for x
    using owned_free [OF protocol_owned [OF p assms(2) that]] no by (simp add: seen_by_fields has_def)
  then show "can_lock PtableLock (seen_by c k)" "locked (locks (seen_by c k) l) = 0"
    using runs_on_cpu(2) [OF r(1)] by (simp_all add: can_lock_def locked_holder)
  show "i < length (procs (seen_by c k))" "kstack (procs (seen_by c k) ! i) \<noteq> 0" "pgdir (procs (seen_by c k) ! i) \<noteq> 0"
    using d(2,3) by (simp_all add: procs_seen_by status_def)
  show "pstate (procs (seen_by c k) ! i) = RUNNABLE" using d(3) e assms(4) by (auto simp: procs_seen_by status_def)
qed

section \<open>Properties\<close>

definition sleep_start :: "chan option \<Rightarrow> lockid \<Rightarrow> nat \<Rightarrow> nat \<Rightarrow> nat set \<Rightarrow> (nat \<Rightarrow> 'z vm_scheme \<Rightarrow> 'z vm_scheme) \<Rightarrow>
    (nat \<Rightarrow> bool) \<Rightarrow> 'z vm_scheme \<Rightarrow> 'z vm_scheme smp" where
  "sleep_start ch l i a W f fl s = \<lparr>shared = s, iflag = fl(a := False), todo = sleep_script ch l i a W f\<rparr>"

lemma progress_start:
  assumes "in_crit l s" "can_lock PtableLock s" "me s = a" "ncli (my_cpu s) = 1" "cur s = Some i"
    and "i < length (procs s)" "kstack (procs s ! i) \<noteq> 0" "pgdir (procs s ! i) \<noteq> 0"
    and "distinct (map apicid (cpus s))" "a \<notin> W" "\<forall>c\<in>W. c < length (cpus s) \<and> ncli (cpus s ! c) = 0"
  shows "progress ch l i a W f (\<lambda>_. 0) (sleep_start ch l i a W f fl s)"
proof -
  have h: "holder (locks s l) = Some (Some a)" "holder (locks s PtableLock) = None"
    using assms(1,2,3) by (simp_all add: in_crit_def can_lock_def held_holder locked_holder)
  have "a < length (cpus s)" using me_less [of s] assms(1,3) by (simp add: in_crit_def)
  then have "cpus_ok a W i (\<lambda>_. 0) (fl(a := False)) (cpus s)"
    using assms(3,4,5,9,10,11) by (auto simp: cpus_ok_def has_lk_def has_pt_def cur_def)
  then show ?thesis
    using assms(6,7,8) h by (auto simp: progress_def protocol_def sleep_start_def in_order_def status_def owned_def has_lk_def has_pt_def)
qed

text \<open>
  C14: no wakeup is lost.  A process sleeps on a channel under lock \<open>l\<close> on processor \<open>a\<close>, while the
  processors \<open>W\<close> each take \<open>l\<close>, change the data it protects and wake the channel; the processors may
  take their steps in any order.  No step panics, no processor waits for ever, and every schedule
  ends after a bounded number of steps.  At the end the process has been woken if there was a waker
  at all: none of the wakeups ran between the moment the process gave up \<open>l\<close> and the moment it was
  marked as sleeping.  When a scheduler then picks it, \<open>sleep\<close> returns with \<open>l\<close> held again.
\<close>

theorem sleep_no_lost_wakeup:
  assumes "in_crit l s" "can_lock PtableLock s" "me s = a" "ncli (my_cpu s) = 1" "cur s = Some i"
    and "i < length (procs s)" "kstack (procs s ! i) \<noteq> 0" "pgdir (procs s ! i) \<noteq> 0"
    and "distinct (map apicid (cpus s))" "a \<notin> W" "\<forall>c\<in>W. c < length (cpus s) \<and> ncli (cpus s ! c) = 0 \<and> shares (f c)"
    and "(smp_step ^^ m) (sleep_start ch l i a W f fl s) k"
  shows "m \<le> 7 + 6 * card W \<and> \<not> smp_panics k \<and> ((\<exists>c. todo k c \<noteq> []) \<longrightarrow> (\<exists>k'. smp_step k k')) \<and>
     ((\<forall>c. todo k c = []) \<longrightarrow>
        pstate (procs (shared k) ! i) = (if W = {} then SLEEPING else RUNNABLE) \<and> chan (procs (shared k) ! i) = ch \<and>
        (W \<noteq> {} \<longrightarrow> (\<forall>c\<in>insert a W. returns (resume_on c i l saved (seen_by c k)) (\<lambda>_ t. in_crit l t \<and>
           locked (locks t PtableLock) = 0 \<and> pstate (procs t ! i) = RUNNING \<and> chan (procs t ! i) = None))))"
proof -
  have ne: "l \<noteq> PtableLock" using can_lock_not_held [OF assms(1,2)] by simp
  have sh: "\<forall>c\<in>W. shares (f c)" and w: "\<forall>c\<in>W. c < length (cpus s) \<and> ncli (cpus s ! c) = 0" using assms(11) by simp_all
  note st = progress_start [OF assms(1-10) w, of ch f fl]
  obtain n where n: "progress ch l i a W f n k" "sum n (insert a W) = m"
    using progress_steps [OF assms(12) st ne sh] by auto
  have p: "protocol ch l i a W n (iflag k) (shared k)" using n(1) by (simp add: progress_def)
  have "m \<le> 7 + 6 * card W" using progress_bound [OF n(1)] n(2) by simp
  moreover have "\<not> smp_panics k" by (rule progress_no_panic [OF n(1) ne sh])
  moreover have "(\<exists>c. todo k c \<noteq> []) \<longrightarrow> (\<exists>k'. smp_step k k')" using progress_not_stuck [OF n(1) ne sh] by blast
  moreover have "pstate (procs (shared k) ! i) = (if W = {} then SLEEPING else RUNNABLE) \<and> chan (procs (shared k) ! i) = ch"
    if "\<forall>c. todo k c = []"
    using progress_done [OF n(1) ne that] protocolD(3) [OF p] by (auto simp: status_def)
  ultimately show ?thesis using progress_resume [OF n(1) ne] by blast
qed

text \<open>Two processors: process 0 runs on the second one and waits for the clock, which the first one serves.\<close>

definition smp_cpu :: "u8 \<Rightarrow> nat option \<Rightarrow> cpu" where
  "smp_cpu a p = \<lparr>apicid = a, cpu_ts = \<lparr>esp0 = 0, ss0 = 0, iomb = 0\<rparr>, gdt = [], started = True,
     ncli = 0, intena = False, cpu_proc = p, cr3 = 0, tr = 0\<rparr>"

definition duo :: vm where
  "duo = vm0\<lparr>cpus := [smp_cpu 0 None, smp_cpu 1 (Some 0)], lapic_id := 1, procs := [procA\<lparr>pstate := RUNNING\<rparr>]\<rparr>"

theorem sleep_no_lost_wakeup_witness:
  "\<exists>m k. (smp_step ^^ m) (sleep_start (Some ChanTicks) TicksLock 0 1 {0} (\<lambda>_ s. s\<lparr>ticks := ticks s + 1\<rparr>) (\<lambda>_. True)
       (acquired TicksLock duo)) k \<and> (\<forall>c. todo k c = []) \<and> pstate (procs (shared k) ! 0) = RUNNABLE \<and>
     returns (resume_on 0 0 TicksLock True (seen_by 0 k)) (\<lambda>_ t. in_crit TicksLock t)"
proof -
  let ?f = "\<lambda>_ s. s\<lparr>ticks := ticks s + 1\<rparr> :: vm" and ?s = "acquired TicksLock duo"
  let ?k = "sleep_start (Some ChanTicks) TicksLock 0 1 {0} ?f (\<lambda>_. True) ?s"
  have c: "cpus duo = [smp_cpu 0 None, smp_cpu 1 (Some 0)]" "lapic_id duo = 1" "procs duo = [procA\<lparr>pstate := RUNNING\<rparr>]"
      "locks duo = locks vm0"
    by (simp_all add: duo_def)
  have m: "me duo = 1" by (simp add: me_def c smp_cpu_def)
  have ci: "cpu_inv duo" by (simp add: cpu_inv_iff m c smp_cpu_def)
  have free: "can_lock x duo" for x using ci vm0_cpu(4) [of x] by (simp add: can_lock_def c)
  have o: "cpus ?s ! 0 = smp_cpu 0 None" "length (cpus ?s) = 2" "map apicid (cpus ?s) = [0, 1]"
    by (simp_all add: acquired_def cpus_pushed m c smp_cpu_def)
  have ok: "m \<le> 13 \<and> \<not> smp_panics k \<and> ((\<exists>c. todo k c \<noteq> []) \<longrightarrow> (\<exists>k'. smp_step k k')) \<and>
      ((\<forall>c. todo k c = []) \<longrightarrow> pstate (procs (shared k) ! 0) = RUNNABLE \<and>
        returns (resume_on 0 0 TicksLock True (seen_by 0 k)) (\<lambda>_ t. in_crit TicksLock t))"
    if "(smp_step ^^ m) ?k k" for m k
  proof -
    have "can_lock PtableLock ?s" "me ?s = 1" "ncli (my_cpu ?s) = 1" "cur ?s = Some 0"
      using free [of PtableLock] m acquired_depth [OF ci, of TicksLock] cpu_proc_locked(1) [OF ci, of TicksLock]
      by (simp_all add: can_lock_def cur_def c smp_cpu_def)
    from sleep_no_lost_wakeup [OF in_crit_acquired [OF free] this _ _ _ _ _ _ that, of True]
    show ?thesis using o
      by (auto simp: c procA_def shares_def smp_cpu_def elim!: returns_mono)
  qed
  define P where "P m \<longleftrightarrow> (\<exists>k. (smp_step ^^ m) ?k k)" for m
  have P0: "P 0" unfolding P_def by (rule exI [of _ ?k]) simp
  have Pb: "\<forall>j. P j \<longrightarrow> j < 14" unfolding P_def using conjunct1 [OF ok] by fastforce
  from ex_has_greatest_nat [of P 0 "\<lambda>x. x", OF P0 Pb] obtain m where m: "P m" "\<And>j. P j \<Longrightarrow> j \<le> m" by blast
  from m(1) obtain k where k: "(smp_step ^^ m) ?k k" unfolding P_def by blast
  have "\<forall>c. todo k c = []"
  proof (rule ccontr)
    assume "\<not> (\<forall>c. todo k c = [])"
    then obtain k' where "smp_step k k'" using ok [OF k] by blast
    with k have "(smp_step ^^ Suc m) ?k k'" by (rule relpowp_Suc_I)
    then have "P (Suc m)" unfolding P_def by (rule exI [of _ k'])
    from m(2) [OF this] show False by simp
  qed
  then show ?thesis using ok [OF k] k by blast
qed

end
