(* ===== verification/Grep.thy ===== *)
theory Grep
  imports Prelude
begin

text \<open>
  The user program \<open>lab2/grep.c\<close>: the matcher for patterns with \<open>^ . * $\<close> and the loop that
  reads a file through a buffer of 1024 bytes and prints the lines that match.  A C string is
  the list of its bytes; the end of the list is the terminator.

  The reference for the matcher is a language: a pattern is read as a list of elements, each
  with a set of strings, and a text matches if one of its factors is in the concatenation.
  The reference for the loop is the list of the lines of the file.
\<close>

abbreviation (input) CARET :: u8 where "CARET \<equiv> 0x5e"
abbreviation (input) DOLLAR :: u8 where "DOLLAR \<equiv> 0x24"
abbreviation (input) STAR :: u8 where "STAR \<equiv> 0x2a"
abbreviation (input) DOT :: u8 where "DOT \<equiv> 0x2e"
abbreviation (input) NL :: u8 where "NL \<equiv> 0x0a"

section \<open>The matcher\<close>

function matchhere :: "u8 list \<Rightarrow> u8 list \<Rightarrow> bool"
  and matchstar :: "u8 \<Rightarrow> u8 list \<Rightarrow> u8 list \<Rightarrow> bool" where
  "matchhere re tx =
     (case re of
        [] \<Rightarrow> True
      | c # re' \<Rightarrow>
          if re' \<noteq> [] \<and> hd re' = STAR then matchstar c (tl re') tx
          else if c = DOLLAR \<and> re' = [] then tx = []
          else if tx \<noteq> [] \<and> (c = DOT \<or> c = hd tx) then matchhere re' (tl tx)
          else False)"
| "matchstar c re tx =
     (if matchhere re tx then True
      else if tx \<noteq> [] \<and> (hd tx = c \<or> c = DOT) then matchstar c re (tl tx)
      else False)"
  by pat_completeness auto
termination
  by (relation "inv_image (less_than <*lex*> less_than)
       (\<lambda>x. case x of Inl (re, tx) \<Rightarrow> (2 * length re, length tx)
                    | Inr (c, re, tx) \<Rightarrow> (2 * length re + 1, length tx))")
    (auto simp: neq_Nil_conv)

declare matchhere.simps [simp del] matchstar.simps [simp del]

fun match_from :: "u8 list \<Rightarrow> u8 list \<Rightarrow> bool" where
  "match_from re [] = matchhere re []"
| "match_from re (c # tx) = (matchhere re (c # tx) \<or> match_from re tx)"

definition match_re :: "u8 list \<Rightarrow> u8 list \<Rightarrow> bool" where
  "match_re re tx = (if re \<noteq> [] \<and> hd re = CARET then matchhere (tl re) tx else match_from re tx)"

section \<open>Patterns as languages\<close>

datatype elem = One u8 | Many u8

definition accepts :: "u8 \<Rightarrow> u8 \<Rightarrow> bool" where
  "accepts c x \<longleftrightarrow> c = DOT \<or> x = c"

fun elem_lang :: "elem \<Rightarrow> u8 list set" where
  "elem_lang (One c) = {[x] | x. accepts c x}"
| "elem_lang (Many c) = {w. list_all (accepts c) w}"

fun lang :: "elem list \<Rightarrow> u8 list set" where
  "lang [] = {[]}"
| "lang (e # es) = {u @ v | u v. u \<in> elem_lang e \<and> v \<in> lang es}"

text \<open>The elements of a pattern, and whether it ends with the anchor \<open>$\<close>.\<close>

fun elems :: "u8 list \<Rightarrow> elem list \<times> bool" where
  "elems [] = ([], False)"
| "elems [c] = (if c = DOLLAR then ([], True) else ([One c], False))"
| "elems (c # d # re) =
     (if d = STAR then (case elems re of (es, a) \<Rightarrow> (Many c # es, a))
      else (case elems (d # re) of (es, a) \<Rightarrow> (One c # es, a)))"

definition in_pattern :: "elem list \<times> bool \<Rightarrow> u8 list \<Rightarrow> bool" where
  "in_pattern p tx \<longleftrightarrow> (\<exists>w post. tx = w @ post \<and> w \<in> lang (fst p) \<and> (snd p \<longrightarrow> post = []))"

lemma in_pattern_Nil: "in_pattern ([], a) tx \<longleftrightarrow> (a \<longrightarrow> tx = [])"
  by (auto simp: in_pattern_def)

lemma lang_One: "w \<in> lang (One c # es) \<longleftrightarrow> (\<exists>x v. w = x # v \<and> accepts c x \<and> v \<in> lang es)"
proof
  assume "\<exists>x v. w = x # v \<and> accepts c x \<and> v \<in> lang es"
  then obtain x v where "w = [x] @ v" "accepts c x" "v \<in> lang es" by auto
  then show "w \<in> lang (One c # es)" unfolding lang.simps elem_lang.simps mem_Collect_eq by blast
qed auto

lemma in_pattern_One:
  "in_pattern (One c # es, a) tx \<longleftrightarrow> tx \<noteq> [] \<and> accepts c (hd tx) \<and> in_pattern (es, a) (tl tx)"
proof (cases tx)
  case (Cons y ys)
  have "(\<exists>w post. y # ys = w @ post \<and> w \<in> lang (One c # es) \<and> (a \<longrightarrow> post = [])) \<longleftrightarrow>
        (\<exists>v post. accepts c y \<and> ys = v @ post \<and> v \<in> lang es \<and> (a \<longrightarrow> post = []))"
    (is "?L \<longleftrightarrow> ?R")
  proof
    assume ?L
    then obtain w post x v where "y # ys = w @ post" "w = x # v" "accepts c x" "v \<in> lang es" "a \<longrightarrow> post = []"
      unfolding lang_One by blast
    then show ?R by (intro exI [of _ v] exI [of _ post]) simp
  next
    assume ?R
    then obtain v post where "accepts c y" "ys = v @ post" "v \<in> lang es" "a \<longrightarrow> post = []" by blast
    then show ?L unfolding lang_One by (intro exI [of _ "y # v"] exI [of _ post]) simp
  qed
  then show ?thesis unfolding in_pattern_def Cons fst_conv snd_conv list.sel by blast
qed (simp add: in_pattern_def lang_One del: lang.simps)

lemma in_pattern_Many_iff:
  "in_pattern (Many c # es, a) tx \<longleftrightarrow>
     (\<exists>u v post. tx = u @ v @ post \<and> list_all (accepts c) u \<and> v \<in> lang es \<and> (a \<longrightarrow> post = []))"
proof
  assume "in_pattern (Many c # es, a) tx"
  then obtain w post u v where "tx = w @ post" "w = u @ v" "list_all (accepts c) u" "v \<in> lang es" "a \<longrightarrow> post = []"
    unfolding in_pattern_def lang.simps elem_lang.simps fst_conv snd_conv mem_Collect_eq by blast
  then show "\<exists>u v post. tx = u @ v @ post \<and> list_all (accepts c) u \<and> v \<in> lang es \<and> (a \<longrightarrow> post = [])"
    by (metis append_assoc)
next
  assume "\<exists>u v post. tx = u @ v @ post \<and> list_all (accepts c) u \<and> v \<in> lang es \<and> (a \<longrightarrow> post = [])"
  then obtain u v post where e: "tx = u @ v @ post" "list_all (accepts c) u" "v \<in> lang es" "a \<longrightarrow> post = []" by blast
  then have "u @ v \<in> lang (Many c # es)" by auto
  then show "in_pattern (Many c # es, a) tx"
    using e unfolding in_pattern_def fst_conv snd_conv by (intro exI [of _ "u @ v"] exI [of _ post]) simp
qed

lemma in_pattern_iff: "in_pattern (es, a) tx \<longleftrightarrow> (\<exists>v post. tx = v @ post \<and> v \<in> lang es \<and> (a \<longrightarrow> post = []))"
  by (simp add: in_pattern_def)

lemma in_pattern_Many:
  "in_pattern (Many c # es, a) tx \<longleftrightarrow>
     in_pattern (es, a) tx \<or> (tx \<noteq> [] \<and> accepts c (hd tx) \<and> in_pattern (Many c # es, a) (tl tx))"
  (is "?L \<longleftrightarrow> ?R")
proof
  assume ?L
  then obtain u v post where e: "tx = u @ v @ post" "list_all (accepts c) u" "v \<in> lang es" "a \<longrightarrow> post = []"
    unfolding in_pattern_Many_iff by blast
  show ?R
  proof (cases u)
    case Nil
    then show ?thesis using e unfolding in_pattern_iff by auto
  next
    case (Cons x u')
    then have "in_pattern (Many c # es, a) (u' @ v @ post)" unfolding in_pattern_Many_iff using e by auto
    then show ?thesis using e Cons by simp
  qed
next
  assume ?R
  then show ?L
  proof
    assume "in_pattern (es, a) tx"
    then show ?thesis unfolding in_pattern_Many_iff by (metis append_Nil list.pred_inject(1) in_pattern_iff)
  next
    assume r: "tx \<noteq> [] \<and> accepts c (hd tx) \<and> in_pattern (Many c # es, a) (tl tx)"
    then obtain u v post where e: "tl tx = u @ v @ post" "list_all (accepts c) u" "v \<in> lang es" "a \<longrightarrow> post = []"
      unfolding in_pattern_Many_iff by blast
    then have "tx = (hd tx # u) @ v @ post" "list_all (accepts c) (hd tx # u)" using r by (cases tx; simp)+
    then show ?thesis unfolding in_pattern_Many_iff using e(3,4) by blast
  qed
qed

lemma elems_split:
  "elems (c # re') =
     (if re' \<noteq> [] \<and> hd re' = STAR then (Many c # fst (elems (tl re')), snd (elems (tl re')))
      else if c = DOLLAR \<and> re' = [] then ([], True)
      else (One c # fst (elems re'), snd (elems re')))"
  by (cases re') (auto split: prod.split)

lemma matchhere_lang:
  "matchhere re tx \<longleftrightarrow> in_pattern (elems re) tx"
  "matchstar c re tx \<longleftrightarrow> in_pattern (Many c # fst (elems re), snd (elems re)) tx"
proof (induction re tx and c re tx rule: matchhere_matchstar.induct)
  case (1 re tx)
  then show ?case
    by (subst matchhere.simps, cases re)
      (auto simp: elems_split in_pattern_Nil in_pattern_One accepts_def simp del: elems.simps(2,3))
next
  case (2 c re tx)
  then show ?case
    using in_pattern_Many [of c "fst (elems re)" "snd (elems re)" tx]
    by (subst matchstar.simps) (auto simp: accepts_def)
qed

lemma match_from_lang: "match_from re tx \<longleftrightarrow> (\<exists>pre rest. tx = pre @ rest \<and> in_pattern (elems re) rest)"
proof (induction tx)
  case Nil
  then show ?case by (simp add: matchhere_lang)
next
  case (Cons c tx)
  then show ?case by (auto simp: matchhere_lang Cons_eq_append_conv)
qed

section \<open>The loop over the lines\<close>

text \<open>
  What a descriptor delivers is a list of chunks: one read returns bytes of the first chunk
  only, as a pipe does when the writer is slower than the reader.  A regular file is one
  chunk.
\<close>

fun read_fd :: "nat \<Rightarrow> u8 list list \<Rightarrow> u8 list \<times> u8 list list" where
  "read_fd n [] = ([], [])"
| "read_fd n (c # cs) = (take n c, if length c \<le> n then cs else drop n c # cs)"

fun strchr :: "u8 list \<Rightarrow> u8 \<Rightarrow> nat option" where
  "strchr [] c = None"
| "strchr (x # xs) c = (if x = 0 then None else if x = c then Some 0 else map_option Suc (strchr xs c))"

lemma strchr_less: "strchr xs c = Some q \<Longrightarrow> q < length xs"
  by (induction xs arbitrary: q) (auto split: if_splits)

function grep_lines :: "u8 list \<Rightarrow> u8 list \<Rightarrow> u8 list \<Rightarrow> u8 list \<times> u8 list" where
  "grep_lines pattern p out =
     (case strchr p NL of
        None \<Rightarrow> (p, out)
      | Some q \<Rightarrow>
          let out = (if match_re pattern (take q p) then out @ take (q + 1) p else out) in
          grep_lines pattern (drop (q + 1) p) out)"
  by pat_completeness auto
termination
  by (relation "measure (\<lambda>(pattern, p, out). length p)") (auto dest: strchr_less)

declare grep_lines.simps [simp del]

function grep :: "u8 list \<Rightarrow> u8 list list \<Rightarrow> u8 list \<Rightarrow> u8 list \<Rightarrow> u8 list" where
  "grep pattern fd buf out =
     (case read_fd (1024 - length buf - 1) fd of (got, fd) \<Rightarrow>
      if got = [] then out
      else
        let buf = buf @ got in
        case grep_lines pattern buf out of (p, out) \<Rightarrow>
        let buf = (if length p = length buf then [] else p) in
        grep pattern fd buf out)"
  by pat_completeness auto
termination
proof (relation "measure (\<lambda>(pattern, fd, buf, out). sum_list (map length fd))", goal_cases)
  case (2 pattern fd buf out x got fd')
  then show ?case by (cases fd) (auto split: if_splits)
qed simp

declare grep.simps [simp del]

text \<open>The terminated lines of a text, and what follows the last newline.\<close>

fun lines_of :: "u8 list \<Rightarrow> u8 list list \<times> u8 list" where
  "lines_of [] = ([], [])"
| "lines_of (x # xs) =
     (case lines_of xs of (ls, r) \<Rightarrow>
      if x = NL then ([] # ls, r)
      else case ls of [] \<Rightarrow> ([], x # r) | l # ls' \<Rightarrow> ((x # l) # ls', r))"

definition selected :: "u8 list \<Rightarrow> u8 list list \<Rightarrow> u8 list" where
  "selected pattern ls = concat (map (\<lambda>l. l @ [NL]) (filter (match_re pattern) ls))"

lemma selected_append: "selected r (ks @ ls) = selected r ks @ selected r ls"
  by (simp add: selected_def)

lemma lines_of_append:
  "lines_of (a @ b) = (let (ls, r) = lines_of a; (ks, r') = lines_of (r @ b) in (ls @ ks, r'))"
proof (induction a)
  case (Cons x a)
  then show ?case by (cases "lines_of a") (auto split: prod.splits list.splits)
qed simp

lemma lines_of_strchr:
  assumes "0 \<notin> set p"
  shows "strchr p NL = None \<Longrightarrow> lines_of p = ([], p)"
    and "strchr p NL = Some q \<Longrightarrow> lines_of p = (take q p # fst (lines_of (drop (q + 1) p)), snd (lines_of (drop (q + 1) p)))"
    and "strchr p NL = Some q \<Longrightarrow> take (q + 1) p = take q p @ [NL]"
  using assms by (induction p arbitrary: q) (auto split: prod.splits if_splits)

lemma grep_lines_ok:
  assumes "0 \<notin> set p"
  shows "grep_lines pattern p out = (snd (lines_of p), out @ selected pattern (fst (lines_of p)))"
  using assms
proof (induction pattern p out rule: grep_lines.induct)
  case (1 pattern p out)
  show ?case
  proof (cases "strchr p NL")
    case None
    then show ?thesis using lines_of_strchr(1) [OF "1.prems"] by (simp add: grep_lines.simps [of _ p] selected_def)
  next
    case (Some q)
    have z: "0 \<notin> set (drop (q + 1) p)" using "1.prems" by (meson in_set_dropD)
    note l = lines_of_strchr(2,3) [OF "1.prems" Some]
    show ?thesis
      using "1.IH" [OF Some refl z] l Some
      by (simp add: grep_lines.simps [of _ p] Let_def selected_def)
  qed
qed

definition short_lines :: "u8 list \<Rightarrow> bool" where
  "short_lines f \<longleftrightarrow> (\<forall>l \<in> set (fst (lines_of f)). length l < 1023) \<and> length (snd (lines_of f)) < 1023"

lemma lines_of_fst_append:
  "fst (lines_of (a @ b)) = fst (lines_of a) @ fst (lines_of (snd (lines_of a) @ b))"
  "snd (lines_of (a @ b)) = snd (lines_of (snd (lines_of a) @ b))"
  by (subst lines_of_append, simp split: prod.split)+

lemma lines_of_snd [simp]: "lines_of (snd (lines_of a)) = ([], snd (lines_of a))"
  by (induction a) (auto split: prod.splits list.splits)

lemma set_snd_lines: "set (snd (lines_of a)) \<subseteq> set a"
  by (induction a) (auto split: prod.splits list.splits)

lemma snd_lines_all: "fst (lines_of a) = [] \<Longrightarrow> snd (lines_of a) = a"
  by (induction a) (auto split: prod.splits list.splits)

lemma snd_lines_length: "length (snd (lines_of a)) = length a \<longleftrightarrow> fst (lines_of a) = []"
proof -
  have "length (snd (lines_of a)) + length (fst (lines_of a)) \<le> length a"
    by (induction a) (auto split: prod.splits list.splits)
  then show ?thesis using snd_lines_all [of a] by auto
qed

lemma lines_of_prefix:
  assumes "NL \<notin> set a"
  shows "lines_of (a @ b) = (case fst (lines_of b) of [] \<Rightarrow> ([], a @ snd (lines_of b)) | l # ls \<Rightarrow> ((a @ l) # ls, snd (lines_of b)))"
  using assms
proof (induction a)
  case Nil
  then show ?case by (cases "lines_of b") (simp split: list.split)
next
  case (Cons x a)
  then show ?case by (cases "fst (lines_of b)") auto
qed

lemma no_newline: "fst (lines_of a) = [] \<Longrightarrow> NL \<notin> set a"
  by (induction a) (auto split: prod.splits list.splits if_splits)

text \<open>A buffer without a newline is a part of a line, so it is not full.\<close>

lemma no_line_short:
  assumes "fst (lines_of a) = []" "short_lines (a @ b)"
  shows "length a < 1023"
  using assms(2) lines_of_prefix [OF no_newline [OF assms(1)], of b]
  by (cases "fst (lines_of b)") (auto simp: short_lines_def)

lemma grep_selects:
  assumes "lines_of buf = ([], buf)" "short_lines (buf @ f)" "0 \<notin> set buf" "0 \<notin> set f"
  shows "grep pattern [f] buf out = out @ selected pattern (fst (lines_of (buf @ f)))"
  using assms
proof (induction "length f" arbitrary: f buf out rule: less_induct)
  case less
  have lb: "length buf < 1023" using no_line_short [OF _ less.prems(2)] less.prems(1) by simp
  define n where "n = 1023 - length buf"
  show ?case
  proof (cases "f = []")
    case True
    then show ?thesis using less.prems(1) by (simp add: grep.simps [of _ "[[]]"] selected_def)
  next
    case False
    then have got: "take n f \<noteq> []" using lb by (simp add: n_def)
    let ?b = "buf @ take n f"
    have z: "0 \<notin> set ?b" using less.prems(3,4) by (auto dest: in_set_takeD)
    have bf: "buf @ f = ?b @ drop n f" by simp
    let ?r = "snd (lines_of ?b)" and ?o = "out @ selected pattern (fst (lines_of ?b))"
    have sb: "short_lines (?b @ drop n f)" using less.prems(2) unfolding bf .
    have n': "1024 - length buf - 1 = n" by (simp add: n_def)
    have step: "grep pattern [f] buf out =
        grep pattern (if length f \<le> n then [] else [drop n f]) (if length ?r = length ?b then [] else ?r) ?o"
      using got grep_lines_ok [OF z, of pattern out] unfolding grep.simps [of pattern "[f]" buf out] n' read_fd.simps
      by (simp only: prod.case Let_def if_False)
    show ?thesis
    proof (cases "length f \<le> n")
      case True
      then show ?thesis using step by (simp add: grep.simps [of _ "[]"])
    next
      case big: False
      then have "length ?b = 1023" using lb by (simp add: n_def)
      then have "fst (lines_of ?b) \<noteq> []" using no_line_short [of ?b "drop n f", OF _ sb] by auto
      then have e: "grep pattern [f] buf out = grep pattern [drop n f] ?r ?o" using step big snd_lines_length [of ?b] by simp
      have "short_lines (?r @ drop n f)"
        using sb unfolding short_lines_def lines_of_fst_append [of ?b "drop n f"] set_append by blast
      moreover have shrink: "length (drop n f) < length f" using False lb unfolding n_def by (cases f) auto
      moreover have "0 \<notin> set ?r" using z set_snd_lines by blast
      moreover have "0 \<notin> set (drop n f)" using less.prems(4) by (meson in_set_dropD)
      ultimately have "grep pattern [drop n f] ?r ?o = ?o @ selected pattern (fst (lines_of (?r @ drop n f)))"
        using less.hyps [of "drop n f" ?r ?o, OF shrink] by simp
      then show ?thesis unfolding e bf lines_of_fst_append [of ?b "drop n f"] selected_append by (simp only: append_assoc)
    qed
  qed
qed

section \<open>Parts of lines\<close>

text \<open>A chunk of whole lines that fits into the buffer.\<close>

definition whole_lines :: "u8 list \<Rightarrow> bool" where
  "whole_lines c \<longleftrightarrow> c \<noteq> [] \<and> last c = NL \<and> length c < 1024 \<and> 0 \<notin> set c"

lemma strchr_None: "c \<notin> set p \<Longrightarrow> strchr p c = None"
  by (induction p) auto

lemma grep_drops:
  assumes "x \<noteq> []" "length buf < 1023" "NL \<notin> set (buf @ take (1023 - length buf) x)"
  shows "grep pattern (x # ds) buf out = grep pattern (snd (read_fd (1023 - length buf) (x # ds))) [] out"
proof -
  let ?b = "buf @ take (1023 - length buf) x"
  have "grep_lines pattern ?b out = (?b, out)" by (simp add: grep_lines.simps [of _ ?b] strchr_None [OF assms(3)])
  moreover have "take (1023 - length buf) x \<noteq> []" using assms(1,2) by simp
  moreover have "1024 - length buf - 1 = 1023 - length buf" by simp
  ultimately show ?thesis
    unfolding grep.simps [of pattern "x # ds" buf out] by (simp only: read_fd.simps prod.case if_False Let_def snd_conv if_True refl)
qed

lemma snd_lines_last: "a \<noteq> [] \<Longrightarrow> last a = NL \<Longrightarrow> snd (lines_of a) = []"
proof (induction a)
  case (Cons x a)
  then show ?case using snd_lines_all [of a] by (cases "a = []") (auto split: prod.splits list.splits)
qed simp

lemma grep_whole_chunks:
  assumes "\<forall>c \<in> set cs. whole_lines c"
  shows "grep pattern (cs @ ds) [] out = grep pattern ds [] (out @ selected pattern (concat (map (\<lambda>c. fst (lines_of c)) cs)))"
  using assms
proof (induction cs arbitrary: out)
  case (Cons c cs)
  then have c: "c \<noteq> []" "last c = NL" "length c \<le> 1023" "0 \<notin> set c" by (auto simp: whole_lines_def)
  have l: "grep_lines pattern c out = ([], out @ selected pattern (fst (lines_of c)))"
    using grep_lines_ok [OF c(4)] snd_lines_last [OF c(1,2)] by simp
  have "grep pattern (c # cs @ ds) [] out = grep pattern (cs @ ds) [] (out @ selected pattern (fst (lines_of c)))"
    unfolding grep.simps [of pattern "c # cs @ ds" "[]" out] using c(1,3) l by (simp add: Let_def)
  then show ?case using Cons by (simp add: selected_append)
qed (simp add: selected_def)

section \<open>Properties\<close>

definition re_lang :: "u8 list \<Rightarrow> u8 list set" where
  "re_lang re = (let anchored = (re \<noteq> [] \<and> hd re = CARET); p = elems (if anchored then tl re else re) in
     {pre @ w @ post | pre w post. w \<in> lang (fst p) \<and> (anchored \<longrightarrow> pre = []) \<and> (snd p \<longrightarrow> post = [])})"

text \<open>
  C30: the matcher of \<open>grep\<close> decides the language of its pattern: \<open>match\<close> accepts a text exactly
  if some factor of it is a concatenation of strings of the elements of the pattern, where the
  factor stands at the front after \<open>^\<close> and at the end before \<open>$\<close>.
\<close>

theorem match_language: "match_re re tx \<longleftrightarrow> tx \<in> re_lang re"
proof (cases "re \<noteq> [] \<and> hd re = CARET")
  case True
  then show ?thesis by (auto simp: match_re_def re_lang_def matchhere_lang in_pattern_def Let_def)
next
  case False
  then show ?thesis by (auto simp: match_re_def re_lang_def match_from_lang in_pattern_def Let_def)
qed

text \<open>
  C31: on a regular file without NUL bytes whose lines fit into the buffer, \<open>grep\<close> prints
  exactly the terminated lines that match, in order, however the lines fall across the reads.
\<close>

theorem grep_prints_matches:
  assumes "short_lines f" "0 \<notin> set f"
  shows "grep pattern [f] [] [] = concat (map (\<lambda>l. l @ [NL]) (filter (match_re pattern) (fst (lines_of f))))"
  using grep_selects [of "[]" f pattern "[]"] assms by (simp add: selected_def)

theorem grep_prints_matches_witness:
  "grep [0x61] [[0x61, NL, 0x62, NL, 0x62, 0x61, NL]] [] [] = [0x61, NL, 0x62, 0x61, NL]"
  using grep_prints_matches [of "[0x61, NL, 0x62, NL, 0x62, 0x61, NL]" "[0x61]"]
  by (simp add: short_lines_def match_re_def matchhere.simps)

text \<open>
  C32: a part of a line that a read delivers without a newline is lost.  In any state of the loop, if
  neither the carried bytes nor the bytes read hold a newline, the loop goes on as if none of them
  had ever been there.  So after any chunks of whole lines, as from a slow pipe, a chunk that holds
  only a part of a line does not influence the output.
\<close>

theorem grep_drops_partial_line:
  assumes "x \<noteq> []" "length buf < 1023" "NL \<notin> set (buf @ take (1023 - length buf) x)"
    and "\<forall>c \<in> set cs. whole_lines c" "y \<noteq> []" "length y < 1024" "NL \<notin> set y"
  shows "grep pattern (x # ds) buf out = grep pattern (snd (read_fd (1023 - length buf) (x # ds))) [] out \<and>
     grep pattern (cs @ y # ds) [] [] = grep pattern (cs @ ds) [] []"
proof
  show "grep pattern (x # ds) buf out = grep pattern (snd (read_fd (1023 - length buf) (x # ds))) [] out"
    by (rule grep_drops [OF assms(1-3)])
  have "grep pattern (y # ds) [] o1 = grep pattern ds [] o1" for o1
    using grep_drops [of y "[]" pattern ds o1] assms(5-7) by simp
  then show "grep pattern (cs @ y # ds) [] [] = grep pattern (cs @ ds) [] []"
    by (simp only: grep_whole_chunks [OF assms(4)])
qed

theorem grep_drops_partial_line_witness:
  "grep [0x61, 0x62] ([[0x61, 0x62, NL]] @ [0x61] # [[0x62, NL]]) [] [] = [0x61, 0x62, NL]"
  using conjunct2 [OF grep_drops_partial_line [of "[0x61]" "[]" "[[0x61, 0x62, NL]]" "[0x61]" "[0x61, 0x62]" "[[0x62, NL]]" "[]"]]
  by (simp add: whole_lines_def grep.simps grep_lines.simps match_re_def matchhere.simps)

end
