(* ===== verification/Shell.thy ===== *)
theory Shell
  imports Prelude
begin

text \<open>
  The parser of the shell, \<open>lab2/sh.c\<close>.  The input line is a list of bytes without its
  terminator.  A pointer into the line is the number of bytes from there to its end \<open>es\<close>; the
  parse position \<open>*ps\<close> is the rest of the line itself and is the state of the parser.  An
  argument is the pair \<open>(q, eq)\<close> of the pointers to its first byte and behind its last.

  The constructors of commands allocate with \<open>malloc\<close>, which is taken to succeed.  The
  parser of a simple command keeps the command apart from the redirections read so far and
  puts them around it at the end, where the code keeps a pointer to the command inside.  The
  recursion through parentheses uses fuel; \<open>parsecmd\<close> provides enough of it for its input.
\<close>

section \<open>Tokens\<close>

abbreviation (input) BAR :: u8 where "BAR \<equiv> 0x7c"
abbreviation (input) LPAR :: u8 where "LPAR \<equiv> 0x28"
abbreviation (input) RPAR :: u8 where "RPAR \<equiv> 0x29"
abbreviation (input) SEMI :: u8 where "SEMI \<equiv> 0x3b"
abbreviation (input) AMP :: u8 where "AMP \<equiv> 0x26"
abbreviation (input) LT :: u8 where "LT \<equiv> 0x3c"
abbreviation (input) GT :: u8 where "GT \<equiv> 0x3e"
abbreviation (input) PLUS :: u8 where "PLUS \<equiv> 0x2b"
abbreviation (input) WORD :: u8 where "WORD \<equiv> 0x61"
abbreviation (input) SPACE :: u8 where "SPACE \<equiv> 0x20"

definition whitespace :: "u8 list" where
  "whitespace = [0x20, 0x09, 0x0d, 0x0a, 0x0b]"

definition symbols :: "u8 list" where
  "symbols = [LT, BAR, GT, AMP, SEMI, LPAR, RPAR]"

abbreviation MAXARGS :: nat where "MAXARGS \<equiv> 10"

definition skip_space :: "u8 list \<Rightarrow> u8 list" where
  "skip_space s = dropWhile (\<lambda>c. c \<in> set whitespace) s"

definition word_char :: "u8 \<Rightarrow> bool" where
  "word_char c \<longleftrightarrow> c \<notin> set whitespace \<and> c \<notin> set symbols"

definition scan :: "u8 list \<Rightarrow> u8 \<times> u8 list" where
  "scan s =
     (case s of
        [] \<Rightarrow> (0, s)
      | c # r \<Rightarrow>
          if c = 0 then (0, s)
          else if c \<in> set [BAR, LPAR, RPAR, SEMI, AMP, LT] then (c, r)
          else if c = GT then (if r \<noteq> [] \<and> hd r = GT then (PLUS, tl r) else (GT, r))
          else (WORD, dropWhile word_char s))"

definition gettoken :: "u8 list \<Rightarrow> u8 \<times> (nat \<times> nat) \<times> u8 list" where
  "gettoken ps =
     (let s = skip_space ps; (ret, e) = scan s in (ret, (length s, length e), skip_space e))"

definition peek :: "u8 list \<Rightarrow> u8 list \<Rightarrow> bool \<times> u8 list" where
  "peek ps toks = (let s = skip_space ps in (s \<noteq> [] \<and> hd s \<noteq> 0 \<and> hd s \<in> set toks, s))"

section \<open>Commands\<close>

datatype 'a cmd =
    EXEC "'a list"
  | REDIR "'a cmd" 'a (mode: u32) (fd: nat)
  | PIPE "'a cmd" "'a cmd"
  | LIST "'a cmd" "'a cmd"
  | BACK "'a cmd"

abbreviation (input) O_RDONLY :: u32 where "O_RDONLY \<equiv> 0"
abbreviation (input) O_WRONLY_CREATE :: u32 where "O_WRONLY_CREATE \<equiv> 0x201"

type_synonym slice = "nat \<times> nat"
type_synonym 'a redir = "'a \<times> u32 \<times> nat"

fun redircmd :: "'a cmd \<Rightarrow> 'a redir list \<Rightarrow> 'a cmd" where
  "redircmd c [] = c"
| "redircmd c ((f, m, d) # rs) = redircmd (REDIR c f m d) rs"

section \<open>The parser\<close>

lemma skip_space_length: "length (skip_space s) \<le> length s"
  by (simp add: skip_space_def length_dropWhile_le)

lemma skip_space_idem [simp]: "skip_space (skip_space s) = skip_space s"
  by (simp add: skip_space_def)

lemma skip_space_hd: "skip_space (c # s) = c # s \<Longrightarrow> c \<notin> set whitespace"
  by (metis dropWhile_eq_Cons_conv skip_space_def)

lemma scan_length:
  "length (snd (scan s)) \<le> length s"
  "fst (scan s) \<noteq> 0 \<Longrightarrow> skip_space s = s \<Longrightarrow> length (snd (scan s)) < length s"
proof -
  have l: "length (dropWhile word_char r) \<le> length r" for r by (rule length_dropWhile_le)
  show "length (snd (scan s)) \<le> length s"
    using l by (cases s) (auto simp: scan_def le_SucI)
  assume n: "fst (scan s) \<noteq> 0" "skip_space s = s"
  show "length (snd (scan s)) < length s"
  proof (cases s)
    case (Cons c r)
    then have "c \<notin> set whitespace" using skip_space_hd n(2) by simp
    then show ?thesis using l [of r] Cons n(1) by (auto simp: scan_def word_char_def symbols_def le_imp_less_Suc)
  qed (use n in \<open>simp add: scan_def\<close>)
qed

lemma gettoken_length:
  assumes "gettoken s = (t, x, r)"
  shows "length r \<le> length s" "t \<noteq> 0 \<Longrightarrow> length r < length s"
proof -
  let ?z = "skip_space s"
  have e: "t = fst (scan ?z)" "r = skip_space (snd (scan ?z))"
    using assms by (auto simp: gettoken_def Let_def split: prod.splits)
  show "length r \<le> length s" "t \<noteq> 0 \<Longrightarrow> length r < length s"
    using e scan_length [of ?z] skip_space_length [of s] skip_space_length [of "snd (scan ?z)"] skip_space_idem by auto
qed

lemma peek_length: "length (snd (peek s toks)) \<le> length s"
  using skip_space_length [of s] by (simp add: peek_def Let_def)

text \<open>One turn of the loop of \<open>parseredirs\<close>, and the loop: the redirections in the order of the text.\<close>

definition parse_redir :: "u8 list \<Rightarrow> (u8 list, slice redir) res" where
  "parse_redir ps =
     (case gettoken ps of (tok, _, ps) \<Rightarrow>
      case gettoken ps of (t, q, ps) \<Rightarrow>
      if t \<noteq> WORD then Panic ''missing file for redirection''
      else Ok (if tok = LT then (q, O_RDONLY, 0) else (q, O_WRONLY_CREATE, 1)) ps)"

lemma parse_redir_length: "parse_redir s = Ok r s' \<Longrightarrow> length s' < length s"
  using gettoken_length(1) gettoken_length(2)
  by (fastforce simp: parse_redir_def split: prod.splits if_splits intro: less_le_trans)

function parseredirs :: "u8 list \<Rightarrow> (u8 list, slice redir list) res" where
  "parseredirs ps =
     (if \<not> fst (peek ps [LT, GT]) then Ok [] (snd (peek ps [LT, GT]))
      else
        run (parse_redir (snd (peek ps [LT, GT]))) (\<lambda>r ps.
        run (parseredirs ps) (\<lambda>rs ps. Ok (r # rs) ps)))"
  by pat_completeness auto
termination
  by (relation "measure length") (auto dest: parse_redir_length intro: less_le_trans [OF _ peek_length])

declare parseredirs.simps [simp del]

lemma parseredirs_length: "parseredirs s = Ok rs r \<Longrightarrow> length r \<le> length s"
proof (induction s arbitrary: rs r rule: parseredirs.induct)
  case (1 ps)
  note p = peek_length [of ps "[LT, GT]"]
  show ?case
  proof (cases "fst (peek ps [LT, GT])")
    case False
    then show ?thesis using "1.prems" p by (simp add: parseredirs.simps [of ps])
  next
    case True
    then obtain x s' rs' where x: "parse_redir (snd (peek ps [LT, GT])) = Ok x s'" "parseredirs s' = Ok rs' r"
      using "1.prems" by (auto simp: parseredirs.simps [of ps] run_eq_Ok)
    then show ?thesis using "1.IH" [OF _ x] True parse_redir_length [OF x(1)] p by simp
  qed
qed

lemma args_step:
  assumes "(tok, q, ps1) = gettoken (snd (peek ps T))" "tok \<noteq> 0" "parseredirs ps1 = Ok rs ps2"
  shows "length ps2 < length ps"
  using gettoken_length(2) [OF assms(1) [symmetric] assms(2)] parseredirs_length [OF assms(3)] peek_length [of ps T] by simp

lemma peek_token:
  assumes "fst (peek ps T)" "(tok, q, r) = gettoken (snd (peek ps T))"
  shows "length r < length ps"
proof -
  have "tok \<noteq> 0"
  proof (cases "skip_space ps")
    case (Cons a l)
    moreover from this have "skip_space (a # l) = a # l" by (metis skip_space_idem)
    ultimately show ?thesis using assms by (auto simp: peek_def gettoken_def scan_def Let_def split: if_splits)
  qed (use assms in \<open>simp add: peek_def Let_def\<close>)
  then show ?thesis using gettoken_length(2) [OF assms(2) [symmetric]] peek_length [of ps T] by simp
qed

text \<open>The loop of \<open>parseexec\<close> over the arguments.\<close>

function parse_args :: "u8 list \<Rightarrow> slice list \<Rightarrow> slice redir list \<Rightarrow> (u8 list, slice list \<times> slice redir list) res" where
  "parse_args ps args rs =
     (if fst (peek ps [BAR, RPAR, AMP, SEMI]) then Ok (args, rs) (snd (peek ps [BAR, RPAR, AMP, SEMI]))
      else
        case gettoken (snd (peek ps [BAR, RPAR, AMP, SEMI])) of (tok, q, ps) \<Rightarrow>
        if tok = 0 then Ok (args, rs) ps
        else if tok \<noteq> WORD then Panic ''syntax''
        else if length args + 1 \<ge> MAXARGS then Panic ''too many args''
        else run (parseredirs ps) (\<lambda>rs' ps. parse_args ps (args @ [q]) (rs @ rs')))"
  by pat_completeness auto
termination
  by (relation "measure (\<lambda>(ps, args, rs). length ps)") (auto dest: args_step)

declare parse_args.simps [simp del]

fun wrap_exec :: "slice list \<times> slice redir list \<Rightarrow> slice cmd" where
  "wrap_exec (args, rs) = redircmd (EXEC args) rs"

text \<open>The loop of \<open>parseline\<close> over \<open>&\<close>.\<close>

function parse_backs :: "slice cmd \<Rightarrow> u8 list \<Rightarrow> (u8 list, slice cmd) res" where
  "parse_backs c ps =
     (if fst (peek ps [AMP])
      then case gettoken (snd (peek ps [AMP])) of (_, _, ps) \<Rightarrow> parse_backs (BACK c) ps
      else Ok c (snd (peek ps [AMP])))"
  by pat_completeness auto
termination
  by (relation "measure (\<lambda>(c, ps). length ps)") (auto dest: peek_token)

declare parse_backs.simps [simp del]

section \<open>The recursive part\<close>

fun parseline :: "nat \<Rightarrow> u8 list \<Rightarrow> (u8 list, slice cmd) res"
  and parsepipe :: "nat \<Rightarrow> u8 list \<Rightarrow> (u8 list, slice cmd) res"
  and parseexec :: "nat \<Rightarrow> u8 list \<Rightarrow> (u8 list, slice cmd) res"
  and parseblock :: "nat \<Rightarrow> u8 list \<Rightarrow> (u8 list, slice cmd) res" where
  "parseline 0 ps = Spin"
| "parseline (Suc n) ps =
     run (parsepipe n ps) (\<lambda>cmd ps.
     run (parse_backs cmd ps) (\<lambda>cmd ps.
     if fst (peek ps [SEMI])
     then case gettoken (snd (peek ps [SEMI])) of (_, _, ps) \<Rightarrow> run (parseline n ps) (\<lambda>r ps. Ok (LIST cmd r) ps)
     else Ok cmd (snd (peek ps [SEMI]))))"
| "parsepipe 0 ps = Spin"
| "parsepipe (Suc n) ps =
     run (parseexec n ps) (\<lambda>cmd ps.
     if fst (peek ps [BAR])
     then case gettoken (snd (peek ps [BAR])) of (_, _, ps) \<Rightarrow> run (parsepipe n ps) (\<lambda>r ps. Ok (PIPE cmd r) ps)
     else Ok cmd (snd (peek ps [BAR])))"
| "parseexec 0 ps = Spin"
| "parseexec (Suc n) ps =
     (if fst (peek ps [LPAR]) then parseblock n (snd (peek ps [LPAR]))
      else
        run (parseredirs (snd (peek ps [LPAR]))) (\<lambda>rs ps.
        run (parse_args ps [] rs) (\<lambda>x ps. Ok (wrap_exec x) ps)))"
| "parseblock 0 ps = Spin"
| "parseblock (Suc n) ps =
     (if \<not> fst (peek ps [LPAR]) then Panic ''parseblock''
      else
        case gettoken (snd (peek ps [LPAR])) of (_, _, ps) \<Rightarrow>
        run (parseline n ps) (\<lambda>cmd ps.
        if \<not> fst (peek ps [RPAR]) then Panic ''syntax - missing )''
        else
          case gettoken (snd (peek ps [RPAR])) of (_, _, ps) \<Rightarrow>
          run (parseredirs ps) (\<lambda>rs ps. Ok (redircmd cmd rs) ps)))"

declare parseline.simps(2) [simp del] parsepipe.simps(2) [simp del] parseexec.simps(2) [simp del] parseblock.simps(2) [simp del]

text \<open>
  \<open>nulterminate\<close> writes a terminator behind every argument and file name; \<open>n\<close> is the length of
  the line.
\<close>

primrec nulterminate :: "nat \<Rightarrow> slice cmd \<Rightarrow> u8 list \<Rightarrow> u8 list" where
  "nulterminate n (EXEC args) b = foldl (\<lambda>b (q, e). b[n - e := 0]) b args"
| "nulterminate n (REDIR c f m d) b = (nulterminate n c b)[n - snd f := 0]"
| "nulterminate n (PIPE l r) b = nulterminate n r (nulterminate n l b)"
| "nulterminate n (LIST l r) b = nulterminate n r (nulterminate n l b)"
| "nulterminate n (BACK c) b = nulterminate n c b"

definition parsecmd :: "u8 list \<Rightarrow> (u8 list, slice cmd) res" where
  "parsecmd s =
     run (parseline (4 * length s + 4) s) (\<lambda>cmd ps.
     if snd (peek ps []) \<noteq> [] then Panic ''syntax''
     else Ok cmd (nulterminate (length s) cmd (s @ [0])))"

section \<open>Termination\<close>

lemma parse_args_length: "parse_args ps args rs = Ok x r \<Longrightarrow> length r \<le> length ps"
proof (induction ps args rs rule: parse_args.induct)
  case (1 ps args rs)
  let ?T = "[BAR, RPAR, AMP, SEMI]"
  obtain tok q ps1 where g: "gettoken (snd (peek ps ?T)) = (tok, q, ps1)" by (metis prod_cases3)
  note l = peek_length [of ps ?T] gettoken_length(1) [OF g]
  show ?case
  proof (cases "fst (peek ps ?T) \<or> tok = 0")
    case True
    then show ?thesis using "1.prems" l g by (auto simp: parse_args.simps [of ps] split: if_splits)
  next
    case False
    then obtain rs' ps2 where x: "tok = WORD" "\<not> length args + 1 \<ge> MAXARGS" "parseredirs ps1 = Ok rs' ps2"
        "parse_args ps2 (args @ [q]) (rs @ rs') = Ok x r"
      using "1.prems" g by (auto simp: parse_args.simps [of ps] run_eq_Ok split: if_splits)
    have "length r \<le> length ps2" using "1.IH" [OF _ g [symmetric] refl _ _ x(2,3,4)] False x(1) by simp
    then show ?thesis using parseredirs_length [OF x(3)] l by simp
  qed
qed

lemma parse_backs_total: "\<exists>c' r. parse_backs c ps = Ok c' r \<and> length r \<le> length ps"
proof (induction c ps rule: parse_backs.induct)
  case (1 c ps)
  obtain tok q r where g: "gettoken (snd (peek ps [AMP])) = (tok, q, r)" by (metis prod_cases3)
  show ?case
  proof (cases "fst (peek ps [AMP])")
    case True
    then show ?thesis using "1.IH" [OF True g [symmetric] refl] peek_token [OF True g [symmetric]] g
      by (auto simp: parse_backs.simps [of c ps])
  next
    case False
    then show ?thesis using peek_length [of ps "[AMP]"] by (simp add: parse_backs.simps [of c ps])
  qed
qed

lemma parseredirs_runs: "parseredirs s \<noteq> Spin"
proof (induction s rule: parseredirs.induct)
  case (1 ps)
  show ?case
  proof (cases "fst (peek ps [LT, GT])")
    case True
    show ?thesis
    proof (cases "parse_redir (snd (peek ps [LT, GT]))")
      case (Ok r s)
      then show ?thesis using "1.IH" [OF _ Ok] True by (cases "parseredirs s") (auto simp: parseredirs.simps [of ps])
    qed (use True in \<open>auto simp: parseredirs.simps [of ps] parse_redir_def split: prod.splits if_splits\<close>)
  qed (simp add: parseredirs.simps [of ps])
qed

lemma parse_args_runs: "parse_args ps args rs \<noteq> Spin"
proof (induction ps args rs rule: parse_args.induct)
  case (1 ps args rs)
  let ?T = "[BAR, RPAR, AMP, SEMI]"
  obtain tok q ps1 where g: "gettoken (snd (peek ps ?T)) = (tok, q, ps1)" by (metis prod_cases3)
  show ?case
  proof (cases "fst (peek ps ?T) \<or> tok \<noteq> WORD \<or> length args + 1 \<ge> MAXARGS")
    case True
    then show ?thesis using g by (auto simp: parse_args.simps [of ps])
  next
    case False
    then have e: "parse_args ps args rs = run (parseredirs ps1) (\<lambda>rs' ps. parse_args ps (args @ [q]) (rs @ rs'))"
      using g by (simp add: parse_args.simps [of ps])
    show ?thesis
    proof (cases "parseredirs ps1")
      case (Ok rs' s)
      then show ?thesis unfolding e using "1.IH" [OF _ g [symmetric] refl _ _ _ Ok] False by simp
    qed (use e parseredirs_runs [of ps1] in simp_all)
  qed
qed

text \<open>A call that follows a token: the rest is shorter.\<close>

lemma after_token:
  assumes "fst (peek ps T)"
  obtains tok q r where "gettoken (snd (peek ps T)) = (tok, q, r)" "length r < length ps"
  using peek_token [OF assms] by (metis prod_cases3)

lemma parse_length:
  "parseline n s = Ok c r \<Longrightarrow> length r \<le> length s" "parsepipe n s = Ok c r \<Longrightarrow> length r \<le> length s"
  "parseexec n s = Ok c r \<Longrightarrow> length r \<le> length s" "parseblock n s = Ok c r \<Longrightarrow> length r \<le> length s"
proof (induction n arbitrary: s c r)
  case (Suc n)
  {
    case 1
    then obtain c1 s1 c2 s2 where a: "parsepipe n s = Ok c1 s1" "parse_backs c1 s1 = Ok c2 s2"
      by (auto simp: parseline.simps(2) run_eq_Ok)
    have l: "length s2 \<le> length s" using Suc.IH(2) [OF a(1)] parse_backs_total [of c1 s1] a(2) by simp
    show ?case
    proof (cases "fst (peek s2 [SEMI])")
      case True
      from after_token [OF True] obtain tok q u where u: "gettoken (snd (peek s2 [SEMI])) = (tok, q, u)" "length u < length s2" .
      then obtain c3 where "parseline n u = Ok c3 r" using 1 a True by (auto simp: parseline.simps(2) run_eq_Ok)
      then show ?thesis using Suc.IH(1) u(2) l by fastforce
    next
      case False
      then show ?thesis using 1 a l peek_length [of s2 "[SEMI]"] by (simp add: parseline.simps(2))
    qed
  next
    case 2
    then obtain c1 s1 where a: "parseexec n s = Ok c1 s1" by (auto simp: parsepipe.simps(2) run_eq_Ok)
    note l = Suc.IH(3) [OF a]
    show ?case
    proof (cases "fst (peek s1 [BAR])")
      case True
      from after_token [OF True] obtain tok q u where u: "gettoken (snd (peek s1 [BAR])) = (tok, q, u)" "length u < length s1" .
      then obtain c3 where "parsepipe n u = Ok c3 r" using 2 a True by (auto simp: parsepipe.simps(2) run_eq_Ok)
      then show ?thesis using Suc.IH(2) u(2) l by fastforce
    next
      case False
      then show ?thesis using 2 a l peek_length [of s1 "[BAR]"] by (simp add: parsepipe.simps(2))
    qed
  next
    case 3
    note l = peek_length [of s "[LPAR]"]
    show ?case
    proof (cases "fst (peek s [LPAR])")
      case True
      then show ?thesis using 3 Suc.IH(4) l by (fastforce simp: parseexec.simps(2))
    next
      case False
      then obtain rs s1 x where "parseredirs (snd (peek s [LPAR])) = Ok rs s1" "parse_args s1 [] rs = Ok x r"
        using 3 by (auto simp: parseexec.simps(2) run_eq_Ok)
      then show ?thesis using parseredirs_length parse_args_length l by fastforce
    qed
  next
    case 4
    then have t: "fst (peek s [LPAR])" by (auto simp: parseblock.simps(2) split: if_splits)
    from after_token [OF t] obtain tok q u where u: "gettoken (snd (peek s [LPAR])) = (tok, q, u)" "length u < length s" .
    then obtain c1 s1 where a: "parseline n u = Ok c1 s1" "fst (peek s1 [RPAR])"
      using 4 t by (auto simp: parseblock.simps(2) run_eq_Ok split: if_splits)
    from after_token [OF a(2)] obtain tok' q' v where v: "gettoken (snd (peek s1 [RPAR])) = (tok', q', v)" "length v < length s1" .
    then obtain rs where "parseredirs v = Ok rs r" using 4 t u a by (auto simp: parseblock.simps(2) run_eq_Ok)
    then show ?case using parseredirs_length Suc.IH(1) [OF a(1)] u(2) v(2) by fastforce
  }
qed simp_all

lemma run_not_Spin: "m \<noteq> Spin \<Longrightarrow> (\<And>a s. m = Ok a s \<Longrightarrow> f a s \<noteq> Spin) \<Longrightarrow> run m f \<noteq> Spin"
  by (cases m) auto

lemma token_runs:
  assumes "fst (peek s T)" "\<And>u. length u < length s \<Longrightarrow> f u \<noteq> Spin"
  shows "(case gettoken (snd (peek s T)) of (_, _, ps) \<Rightarrow> f ps) \<noteq> Spin"
  using after_token [OF assms(1)] assms(2) by (metis (no_types, lifting) case_prod_conv)

lemma parse_runs:
  "4 * length s + 4 \<le> n \<Longrightarrow> parseline n s \<noteq> Spin" "4 * length s + 3 \<le> n \<Longrightarrow> parsepipe n s \<noteq> Spin"
  "4 * length s + 2 \<le> n \<Longrightarrow> parseexec n s \<noteq> Spin" "4 * length s + 1 \<le> n \<Longrightarrow> parseblock n s \<noteq> Spin"
proof (induction n arbitrary: s)
  case (Suc n)
  {
    case 1
    show ?case unfolding parseline.simps(2)
    proof (rule run_not_Spin)
      show "parsepipe n s \<noteq> Spin" using Suc.IH(2) 1 by simp
      fix c1 s1 assume a: "parsepipe n s = Ok c1 s1"
      obtain c2 s2 where b: "parse_backs c1 s1 = Ok c2 s2" "length s2 \<le> length s1" using parse_backs_total by blast
      have l: "length s2 \<le> length s" using parse_length(2) [OF a] b by simp
      have "parseline n u \<noteq> Spin" if "length u < length s2" for u using Suc.IH(1) [of u] that l 1 by simp
      then show "run (parse_backs c1 s1) (\<lambda>cmd ps. if fst (peek ps [SEMI])
         then case gettoken (snd (peek ps [SEMI])) of (_, _, ps) \<Rightarrow> run (parseline n ps) (\<lambda>r ps. Ok (LIST cmd r) ps)
         else Ok cmd (snd (peek ps [SEMI]))) \<noteq> Spin"
        using b(1) by (simp add: token_runs run_not_Spin)
    qed
  next
    case 2
    show ?case unfolding parsepipe.simps(2)
    proof (rule run_not_Spin)
      show "parseexec n s \<noteq> Spin" using Suc.IH(3) 2 by simp
      fix c1 s1 assume a: "parseexec n s = Ok c1 s1"
      have "parsepipe n u \<noteq> Spin" if "length u < length s1" for u using Suc.IH(2) [of u] that parse_length(3) [OF a] 2 by simp
      then show "(if fst (peek s1 [BAR])
         then case gettoken (snd (peek s1 [BAR])) of (_, _, ps) \<Rightarrow> run (parsepipe n ps) (\<lambda>r ps. Ok (PIPE c1 r) ps)
         else Ok c1 (snd (peek s1 [BAR]))) \<noteq> Spin"
        by (simp add: token_runs run_not_Spin)
    qed
  next
    case 3
    then show ?case using Suc.IH(4) [of "snd (peek s [LPAR])"] peek_length [of s "[LPAR]"]
      by (simp add: parseexec.simps(2) run_not_Spin parseredirs_runs parse_args_runs)
  next
    case 4
    have "parseline n u \<noteq> Spin" if "length u < length s" for u using Suc.IH(1) [of u] that 4 by simp
    then show ?case unfolding parseblock.simps(2)
      by (simp add: token_runs run_not_Spin parseredirs_runs)
  }
qed simp_all

text \<open>More fuel does not change an outcome.\<close>

lemma run_stable:
  assumes "run m f \<noteq> Spin" "m \<noteq> Spin \<Longrightarrow> m' = m" "\<And>a s. m = Ok a s \<Longrightarrow> f a s \<noteq> Spin \<Longrightarrow> f' a s = f a s"
  shows "run m' f' = run m f"
  using assms by (cases m) auto

lemma token_stable:
  assumes "(case g of (_, _, ps) \<Rightarrow> f ps) \<noteq> Spin" "\<And>u. f u \<noteq> Spin \<Longrightarrow> f' u = f u"
  shows "(case g of (_, _, ps) \<Rightarrow> f' ps) = (case g of (_, _, ps) \<Rightarrow> f ps)"
  using assms by (auto split: prod.splits)

lemma parse_stable:
  "parseline n s \<noteq> Spin \<Longrightarrow> parseline (Suc n) s = parseline n s"
  "parsepipe n s \<noteq> Spin \<Longrightarrow> parsepipe (Suc n) s = parsepipe n s"
  "parseexec n s \<noteq> Spin \<Longrightarrow> parseexec (Suc n) s = parseexec n s"
  "parseblock n s \<noteq> Spin \<Longrightarrow> parseblock (Suc n) s = parseblock n s"
proof (induction n arbitrary: s)
  case (Suc n)
  {
    case 1
    then show ?case unfolding parseline.simps(2) [of "Suc n" s] parseline.simps(2) [of n s]
    proof (rule run_stable)
      fix c s1
      assume "run (parse_backs c s1) (\<lambda>cmd ps. if fst (peek ps [SEMI])
         then case gettoken (snd (peek ps [SEMI])) of (_, _, ps) \<Rightarrow> run (parseline n ps) (\<lambda>r ps. Ok (LIST cmd r) ps)
         else Ok cmd (snd (peek ps [SEMI]))) \<noteq> Spin"
      then show "run (parse_backs c s1) (\<lambda>cmd ps. if fst (peek ps [SEMI])
         then case gettoken (snd (peek ps [SEMI])) of (_, _, ps) \<Rightarrow> run (parseline (Suc n) ps) (\<lambda>r ps. Ok (LIST cmd r) ps)
         else Ok cmd (snd (peek ps [SEMI]))) = run (parse_backs c s1) (\<lambda>cmd ps. if fst (peek ps [SEMI])
         then case gettoken (snd (peek ps [SEMI])) of (_, _, ps) \<Rightarrow> run (parseline n ps) (\<lambda>r ps. Ok (LIST cmd r) ps)
         else Ok cmd (snd (peek ps [SEMI])))"
        by (rule run_stable) (auto intro!: token_stable run_stable Suc.IH(1) split: if_splits)
    qed (rule Suc.IH(2))
  next
    case 2
    then show ?case unfolding parsepipe.simps(2) [of "Suc n" s] parsepipe.simps(2) [of n s]
      by (rule run_stable) (auto intro!: Suc.IH(2,3) token_stable run_stable split: if_splits)
  next
    case 3
    then show ?case using Suc.IH(4) unfolding parseexec.simps(2) [of "Suc n" s] parseexec.simps(2) [of n s] by (simp split: if_splits)
  next
    case 4
    then show ?case unfolding parseblock.simps(2) [of "Suc n" s] parseblock.simps(2) [of n s]
      by (auto intro!: token_stable run_stable Suc.IH(1) split: if_splits)
  }
qed simp_all

lemma parseline_stable: "parseline n s \<noteq> Spin \<Longrightarrow> parseline (n + k) s = parseline n s"
  by (induction k) (use parse_stable(1) in auto)

section \<open>Printing\<close>

text \<open>
  The text of a command with the parentheses it needs: level 0 is a line, level 1 its part
  before \<open>;\<close>, level 2 a pipeline and level 3 a command of a pipeline.
\<close>

definition paren :: "bool \<Rightarrow> u8 list \<Rightarrow> u8 list" where
  "paren b s = (if b then LPAR # s @ [RPAR] else s)"

definition sh_redir :: "u8 list redir \<Rightarrow> u8 list" where
  "sh_redir r = (case r of (f, m, d) \<Rightarrow> (if m = O_RDONLY then LT else GT) # f @ [SPACE])"

definition sh_words :: "u8 list list \<Rightarrow> u8 list" where
  "sh_words ws = concat (map (\<lambda>w. w @ [SPACE]) ws)"

definition sh_redirs :: "u8 list redir list \<Rightarrow> u8 list" where
  "sh_redirs rs = concat (map sh_redir rs)"

primrec sh :: "nat \<Rightarrow> u8 list cmd \<Rightarrow> u8 list" where
  "sh k (EXEC ws) = sh_words ws"
| "sh k (REDIR c f m d) = sh 3 c @ sh_redir (f, m, d)"
| "sh k (PIPE l r) = paren (2 < k) (sh 3 l @ BAR # sh 2 r)"
| "sh k (LIST l r) = paren (0 < k) (sh 1 l @ SEMI # sh 0 r)"
| "sh k (BACK c) = paren (1 < k) (sh 1 c @ [AMP])"

definition word :: "u8 list \<Rightarrow> bool" where
  "word w \<longleftrightarrow> w \<noteq> [] \<and> list_all (\<lambda>c. word_char c \<and> c \<noteq> 0) w"

definition wf_redir :: "u8 list redir \<Rightarrow> bool" where
  "wf_redir r \<longleftrightarrow> word (fst r) \<and> snd r \<in> {(O_RDONLY, 0), (O_WRONLY_CREATE, 1)}"

primrec wf_cmd :: "u8 list cmd \<Rightarrow> bool" where
  "wf_cmd (EXEC ws) = (length ws < MAXARGS \<and> list_all word ws)"
| "wf_cmd (REDIR c f m d) = (wf_cmd c \<and> wf_redir (f, m, d))"
| "wf_cmd (PIPE l r) = (wf_cmd l \<and> wf_cmd r)"
| "wf_cmd (LIST l r) = (wf_cmd l \<and> wf_cmd r)"
| "wf_cmd (BACK c) = wf_cmd c"

text \<open>A slice of the line \<open>s\<close> that holds the word \<open>w\<close> and ends at the end of a word.\<close>

definition at_slice :: "u8 list \<Rightarrow> slice \<Rightarrow> u8 list \<Rightarrow> bool" where
  "at_slice s x w \<longleftrightarrow> word w \<and> (\<exists>u v. s = u @ w @ v \<and> x = (length (w @ v), length v) \<and> (v \<noteq> [] \<longrightarrow> \<not> word_char (hd v)))"

lemma at_slice_mono: "at_slice s x w \<Longrightarrow> at_slice (u @ s) x w"
  unfolding at_slice_def by (metis append_assoc)

lemma at_cmd_mono: "rel_cmd (at_slice s) c d \<Longrightarrow> rel_cmd (at_slice (u @ s)) c d"
  by (erule cmd.rel_mono_strong) (rule at_slice_mono)

lemma skip_space_suffix: obtains u where "s = u @ skip_space s"
  unfolding skip_space_def by (metis takeWhile_dropWhile_id)

lemma skip_space_Cons [simp]: "c \<notin> set whitespace \<Longrightarrow> skip_space (c # s) = c # s"
  by (simp add: skip_space_def)

lemma skip_space_SPACE [simp]: "skip_space (SPACE # s) = skip_space s"
  by (simp add: skip_space_def whitespace_def)

lemma word_hd:
  assumes "word w"
  obtains c w' where "w = c # w'" "word_char c" "c \<noteq> 0" "c \<notin> set whitespace" "c \<notin> set symbols"
  using assms by (cases w) (auto simp: word_def word_char_def)

lemma skip_space_word [simp]: "word w \<Longrightarrow> skip_space (w @ s) = w @ s"
  by (erule word_hd) simp

lemma gettoken_word:
  assumes "word w"
  shows "gettoken (w @ SPACE # v) = (WORD, (length (w @ SPACE # v), length (SPACE # v)), skip_space v)"
proof -
  obtain c w' where c: "w = c # w'" "word_char c" "c \<noteq> 0" "c \<notin> set whitespace" "c \<notin> set symbols" using word_hd [OF assms] .
  have "\<not> word_char SPACE" by (simp add: word_char_def whitespace_def)
  then have "dropWhile word_char (w @ SPACE # v) = SPACE # v"
    using assms by (simp add: word_def list_all_iff dropWhile_append2)
  then have "scan (w @ SPACE # v) = (WORD, SPACE # v)"
    using c by (simp add: scan_def symbols_def)
  then show ?thesis using assms by (simp add: gettoken_def)
qed

lemma gettoken_symbol:
  assumes "c \<in> set [BAR, LPAR, RPAR, SEMI, AMP, LT]"
  shows "gettoken (c # v) = (c, (Suc (length v), length v), skip_space v)"
proof -
  have "c \<notin> set whitespace" using assms by (auto simp: whitespace_def)
  then show ?thesis using assms by (auto simp: gettoken_def scan_def)
qed

lemma peek_Cons: "c \<notin> set whitespace \<Longrightarrow> c \<noteq> 0 \<Longrightarrow> peek (c # v) T = (c \<in> set T, c # v)"
  by (simp add: peek_def Let_def)

lemma peek_word:
  assumes "word w" "set T \<subseteq> set symbols"
  shows "peek (w @ v) T = (False, w @ v)"
proof -
  obtain c w' where "w = c # w'" "c \<noteq> 0" "c \<notin> set whitespace" "c \<notin> set symbols" using word_hd [OF assms(1)] by metis
  then show ?thesis using assms(2) by (auto simp: peek_Cons)
qed

lemma peek_skip [simp]: "peek (skip_space s) T = peek s T" "snd (peek s T) = skip_space s"
  by (simp_all add: peek_def Let_def)

text \<open>What may follow a part of a line.\<close>

definition ends :: "u8 list \<Rightarrow> u8 list \<Rightarrow> bool" where
  "ends T s \<longleftrightarrow> (case skip_space s of [] \<Rightarrow> True | c # _ \<Rightarrow> c \<in> set T)"

lemma ends_peek: "ends T s \<Longrightarrow> set T \<inter> set U = {} \<Longrightarrow> \<not> fst (peek s U)"
  by (auto simp: ends_def peek_def Let_def split: list.splits)

lemma ends_mono: "ends T s \<Longrightarrow> set T \<subseteq> set U \<Longrightarrow> ends U s"
  by (auto simp: ends_def split: list.splits)

lemma ends_Cons: "c \<notin> set whitespace \<Longrightarrow> ends T (c # s) \<longleftrightarrow> c \<in> set T"
  by (simp add: ends_def)

section \<open>The parser reads what is printed\<close>

abbreviation at_redir :: "u8 list \<Rightarrow> slice redir \<Rightarrow> u8 list redir \<Rightarrow> bool" where
  "at_redir s \<equiv> rel_prod (at_slice s) (=)"

lemma at_redirs_mono: "list_all2 (at_redir s) xs ys \<Longrightarrow> list_all2 (at_redir (u @ s)) xs ys"
  by (erule list.rel_mono_strong) (auto intro: at_slice_mono elim!: prod.rel_mono_strong)

lemma at_slices_mono: "list_all2 (at_slice s) xs ys \<Longrightarrow> list_all2 (at_slice (u @ s)) xs ys"
  by (erule list.rel_mono_strong) (rule at_slice_mono)

lemma at_slice_here: "word w \<Longrightarrow> at_slice (u @ w @ SPACE # v) (length (w @ SPACE # v), length (SPACE # v)) w"
  by (fastforce simp: at_slice_def word_char_def whitespace_def)

lemma redircmd_rel:
  "rel_cmd R c d \<Longrightarrow> list_all2 (rel_prod R (=)) rs qs \<Longrightarrow> rel_cmd R (redircmd c rs) (redircmd d qs)"
  by (induction rs arbitrary: c d qs) (auto simp: list_all2_Cons1)

lemma parseredirs_skip [simp]: "parseredirs (skip_space s) = parseredirs s"
  by (simp add: parseredirs.simps [of "skip_space s"] parseredirs.simps [of s])

lemma parse_redir_ok:
  assumes "wf_redir r"
  shows "\<exists>x. parse_redir (sh_redir r @ s) = Ok x (skip_space s) \<and> at_redir (sh_redir r @ s) x r"
    and "\<exists>c. sh_redir r @ s = c # fst r @ SPACE # s \<and> c \<in> {LT, GT}"
proof -
  obtain f m d where r: "r = (f, m, d)" "word f" "(m, d) \<in> {(O_RDONLY, 0), (O_WRONLY_CREATE, 1)}"
    using assms by (cases r) (simp add: wf_redir_def)
  let ?v = "f @ SPACE # s"
  obtain c f' where c: "f = c # f'" "c \<notin> set symbols" using word_hd [OF r(2)] by metis
  then have h: "hd ?v \<noteq> GT" "?v \<noteq> []" by (auto simp: symbols_def)
  have g: "gettoken (GT # ?v) = (GT, (Suc (length ?v), length ?v), ?v)"
    using h r(2) by (simp add: gettoken_def scan_def whitespace_def)
  have l: "gettoken (LT # ?v) = (LT, (Suc (length ?v), length ?v), ?v)"
    using gettoken_symbol [of LT ?v] r(2) by simp
  have a: "at_slice (c # ?v) (length ?v, length (SPACE # s)) f" for c
    using at_slice_here [OF r(2), of "[c]" s] by simp
  show "\<exists>x. parse_redir (sh_redir r @ s) = Ok x (skip_space s) \<and> at_redir (sh_redir r @ s) x r"
    using r g l a gettoken_word [OF r(2), of s] by (auto simp: parse_redir_def sh_redir_def)
  show "\<exists>c. sh_redir r @ s = c # fst r @ SPACE # s \<and> c \<in> {LT, GT}" using r by (simp add: sh_redir_def)
qed

lemma parseredirs_ok:
  assumes "list_all wf_redir rs" "\<not> fst (peek post [LT, GT])"
  shows "\<exists>xs. parseredirs (sh_redirs rs @ post) = Ok xs (skip_space post) \<and> list_all2 (at_redir (sh_redirs rs @ post)) xs rs"
  using assms(1)
proof (induction rs)
  case Nil
  then show ?case using assms(2) by (simp add: sh_redirs_def parseredirs.simps [of post])
next
  case (Cons r rs)
  let ?s = "sh_redirs rs @ post"
  have e: "sh_redirs (r # rs) @ post = sh_redir r @ ?s" by (simp add: sh_redirs_def)
  obtain xs where xs: "parseredirs ?s = Ok xs (skip_space post)" "list_all2 (at_redir ?s) xs rs" using Cons by auto
  obtain x where x: "parse_redir (sh_redir r @ ?s) = Ok x (skip_space ?s)" "at_redir (sh_redir r @ ?s) x r"
    using parse_redir_ok(1) [of r ?s] Cons.prems by auto
  obtain c where c: "sh_redir r @ ?s = c # fst r @ SPACE # ?s" "c \<in> {LT, GT}" using parse_redir_ok(2) [of r ?s] Cons.prems by auto
  then have p: "peek (sh_redir r @ ?s) [LT, GT] = (True, sh_redir r @ ?s)" by (auto simp: peek_Cons whitespace_def)
  have "parseredirs (sh_redir r @ ?s) = Ok (x # xs) (skip_space post)"
    unfolding parseredirs.simps [of "sh_redir r @ ?s"] p using x(1) xs(1) by simp
  then show ?case unfolding e using x(2) at_redirs_mono [OF xs(2), of "sh_redir r"] by auto
qed

lemma parse_args_end:
  assumes "ends [BAR, RPAR, AMP, SEMI] post"
  shows "parse_args post args rs = Ok (args, rs) (skip_space post)"
proof (cases "skip_space post")
  case Nil
  then have "gettoken (skip_space post) = (0, (0, 0), [])" using skip_space_idem [of post] by (simp add: gettoken_def scan_def)
  moreover have "\<not> fst (peek post [BAR, RPAR, AMP, SEMI])" using Nil by (simp add: peek_def Let_def)
  ultimately show ?thesis using Nil by (simp add: parse_args.simps [of post])
next
  case (Cons c s)
  then have "fst (peek post [BAR, RPAR, AMP, SEMI])" using assms by (auto simp: ends_def peek_def Let_def)
  then show ?thesis by (simp add: parse_args.simps [of post])
qed

lemma parse_args_skip [simp]: "parse_args (skip_space s) args rs = parse_args s args rs"
  by (simp add: parse_args.simps [of "skip_space s"] parse_args.simps [of s])

lemma parse_words_ok:
  assumes "list_all word ws" "list_all wf_redir rs" "ends [BAR, RPAR, AMP, SEMI] post" "length args + length ws < MAXARGS"
  shows "\<exists>xs ys. run (parseredirs (sh_words ws @ sh_redirs rs @ post)) (\<lambda>rs' ps. parse_args ps args (rs0 @ rs')) =
       Ok (args @ xs, rs0 @ ys) (skip_space post) \<and>
     list_all2 (at_slice (sh_words ws @ sh_redirs rs @ post)) xs ws \<and>
     list_all2 (at_redir (sh_words ws @ sh_redirs rs @ post)) ys rs"
  using assms(1,4)
proof (induction ws arbitrary: args)
  case Nil
  obtain ys where "parseredirs (sh_redirs rs @ post) = Ok ys (skip_space post)" "list_all2 (at_redir (sh_redirs rs @ post)) ys rs"
    using parseredirs_ok [OF assms(2), of post] ends_peek [OF assms(3), of "[LT, GT]"] by auto
  then show ?case using parse_args_end [OF assms(3)] by (auto simp: sh_words_def)
next
  case (Cons w ws)
  let ?t = "sh_words ws @ sh_redirs rs @ post"
  let ?s = "w @ SPACE # ?t"
  have e: "sh_words (w # ws) @ sh_redirs rs @ post = ?s" by (simp add: sh_words_def)
  have w: "word w" using Cons.prems by simp
  have r: "parseredirs ?s = Ok [] ?s" using peek_word [OF w, of "[LT, GT]"] by (simp add: parseredirs.simps [of ?s] symbols_def)
  have a: "parse_args ?s args rs0 = run (parseredirs ?t) (\<lambda>rs' ps. parse_args ps (args @ [(length ?s, length (SPACE # ?t))]) (rs0 @ rs'))"
    using peek_word [OF w, of "[BAR, RPAR, AMP, SEMI]" "SPACE # ?t"] gettoken_word [OF w, of ?t] Cons.prems(2) w
    by (simp add: parse_args.simps [of ?s] symbols_def)
  obtain xs ys where "run (parseredirs ?t) (\<lambda>rs' ps. parse_args ps (args @ [(length ?s, length (SPACE # ?t))]) (rs0 @ rs')) =
       Ok ((args @ [(length ?s, length (SPACE # ?t))]) @ xs, rs0 @ ys) (skip_space post)"
     "list_all2 (at_slice ?t) xs ws" "list_all2 (at_redir ?t) ys rs"
    using Cons.IH [of "args @ [(length ?s, length (SPACE # ?t))]"] Cons.prems by auto
  then show ?case
    unfolding e using r a at_slices_mono [of ?t xs ws "w @ [SPACE]"] at_redirs_mono [of ?t ys rs "w @ [SPACE]"]
      at_slice_here [OF w, of "[]" ?t]
    by auto
qed

text \<open>
  \<open>reads m s c r\<close>: with enough fuel the parser \<open>m\<close> reads the command \<open>c\<close> from \<open>s\<close> and stops
  at \<open>r\<close>.  For the part of a line before \<open>;\<close> the loop over \<open>&\<close> goes on at \<open>r\<close>.
\<close>

definition reads :: "(nat \<Rightarrow> u8 list \<Rightarrow> (u8 list, slice cmd) res) \<Rightarrow> u8 list \<Rightarrow> u8 list cmd \<Rightarrow> u8 list \<Rightarrow> bool" where
  "reads m s c r \<longleftrightarrow> (\<exists>N x. (\<forall>n \<ge> N. m n s = Ok x r) \<and> rel_cmd (at_slice s) x c)"

definition reads_backs :: "u8 list \<Rightarrow> u8 list cmd \<Rightarrow> u8 list \<Rightarrow> bool" where
  "reads_backs s c r \<longleftrightarrow> (\<exists>N x. (\<forall>n \<ge> N. run (parsepipe n s) parse_backs = parse_backs x r) \<and> rel_cmd (at_slice s) x c)"

lemma parse_skip [simp]:
  "parseexec n (skip_space s) = parseexec n s" "parsepipe n (skip_space s) = parsepipe n s" "parseline n (skip_space s) = parseline n s"
proof -
  show e: "parseexec n (skip_space s) = parseexec n s" for n by (cases n) (simp_all add: parseexec.simps(2))
  show p: "parsepipe n (skip_space s) = parsepipe n s" for n by (cases n) (simp_all add: parsepipe.simps(2) e)
  show "parseline n (skip_space s) = parseline n s" by (cases n) (simp_all add: parseline.simps(2) p)
qed

lemma reads_exec:
  assumes "list_all word ws" "length ws < MAXARGS" "list_all wf_redir rs" "ends [BAR, RPAR, AMP, SEMI] post"
  shows "reads parseexec (sh_words ws @ sh_redirs rs @ post) (redircmd (EXEC ws) rs) (skip_space post)"
proof -
  let ?s = "sh_words ws @ sh_redirs rs @ post"
  obtain xs ys where p: "run (parseredirs ?s) (\<lambda>rs' ps. parse_args ps [] rs') = Ok (xs, ys) (skip_space post)"
     "list_all2 (at_slice ?s) xs ws" "list_all2 (at_redir ?s) ys rs"
    using parse_words_ok [OF assms(1,3,4), of "[]" "[]"] assms(2) by auto
  have l: "\<not> fst (peek ?s [LPAR])"
  proof (cases ws)
    case (Cons w ws')
    then show ?thesis using peek_word [of w "[LPAR]"] assms(1) by (simp add: sh_words_def symbols_def)
  next
    case Nil
    show ?thesis
    proof (cases rs)
      case (Cons r rs')
      obtain c where "sh_redir r @ sh_redirs rs' @ post = c # fst r @ SPACE # sh_redirs rs' @ post" "c \<in> {LT, GT}"
        using parse_redir_ok(2) [of r "sh_redirs rs' @ post"] assms(3) Cons by auto
      then show ?thesis using Nil Cons by (auto simp: sh_words_def sh_redirs_def peek_Cons whitespace_def)
    qed (use Nil ends_peek [OF assms(4), of "[LPAR]"] in \<open>simp add: sh_words_def sh_redirs_def\<close>)
  qed
  have "run (parseredirs ?s) (\<lambda>rs' ps. run (parse_args ps [] rs') (\<lambda>x ps. Ok (wrap_exec x) ps)) = Ok (wrap_exec (xs, ys)) (skip_space post)"
    using p(1) by (auto simp: run_eq_Ok)
  then have "parseexec n ?s = Ok (redircmd (EXEC xs) ys) (skip_space post)" if "1 \<le> n" for n
    using l that by (cases n) (simp_all add: parseexec.simps(2))
  moreover have "rel_cmd (at_slice ?s) (redircmd (EXEC xs) ys) (redircmd (EXEC ws) rs)"
    using p(2,3) by (intro redircmd_rel) simp_all
  ultimately show ?thesis unfolding reads_def by blast
qed

lemma reads_pipe1:
  assumes "reads parseexec s c (skip_space post)" "ends [RPAR, AMP, SEMI] post"
  shows "reads parsepipe s c (skip_space post)"
proof -
  obtain N x where x: "\<forall>n \<ge> N. parseexec n s = Ok x (skip_space post)" "rel_cmd (at_slice s) x c" using assms(1) by (auto simp: reads_def)
  have "parsepipe n s = Ok x (skip_space post)" if "Suc N \<le> n" for n
    using that x(1) ends_peek [OF assms(2), of "[BAR]"] by (cases n) (simp_all add: parsepipe.simps(2))
  then show ?thesis unfolding reads_def using x(2) by blast
qed

lemma reads_pipe2:
  assumes "reads parseexec (u @ BAR # s) c (BAR # s)" "reads parsepipe s d r"
  shows "reads parsepipe (u @ BAR # s) (PIPE c d) r"
proof -
  obtain N x where x: "\<forall>n \<ge> N. parseexec n (u @ BAR # s) = Ok x (BAR # s)" "rel_cmd (at_slice (u @ BAR # s)) x c"
    using assms(1) by (auto simp: reads_def)
  obtain M y where y: "\<forall>n \<ge> M. parsepipe n s = Ok y r" "rel_cmd (at_slice s) y d" using assms(2) by (auto simp: reads_def)
  have "parsepipe n (u @ BAR # s) = Ok (PIPE x y) r" if "Suc (max N M) \<le> n" for n
    using that x(1) y(1) gettoken_symbol [of BAR s] by (cases n) (simp_all add: parsepipe.simps(2) peek_Cons whitespace_def)
  moreover have "rel_cmd (at_slice (u @ BAR # s)) (PIPE x y) (PIPE c d)"
    using x(2) at_cmd_mono [OF y(2), of "u @ [BAR]"] by simp
  ultimately show ?thesis unfolding reads_def by blast
qed

lemma reads_backs1: "reads parsepipe s c r \<Longrightarrow> reads_backs s c r"
  unfolding reads_def reads_backs_def by fastforce

lemma reads_backs2:
  assumes "reads_backs s c (AMP # post)"
  shows "reads_backs s (BACK c) (skip_space post)"
proof -
  obtain N x where x: "\<forall>n \<ge> N. run (parsepipe n s) parse_backs = parse_backs x (AMP # post)" "rel_cmd (at_slice s) x c"
    using assms by (auto simp: reads_backs_def)
  have "parse_backs x (AMP # post) = parse_backs (BACK x) (skip_space post)"
    using gettoken_symbol [of AMP post] by (simp add: parse_backs.simps [of x] peek_Cons whitespace_def)
  then show ?thesis unfolding reads_backs_def using x by fastforce
qed

lemma backs_end: "\<not> fst (peek r [AMP]) \<Longrightarrow> parse_backs x r = Ok x (skip_space r)"
  by (simp add: parse_backs.simps [of x])

lemma parseline_Suc:
  assumes "run (parsepipe n s) parse_backs = Ok x r"
  shows "parseline (Suc n) s =
     (if fst (peek r [SEMI])
      then case gettoken (snd (peek r [SEMI])) of (_, _, ps) \<Rightarrow> run (parseline n ps) (\<lambda>d ps. Ok (LIST x d) ps)
      else Ok x (snd (peek r [SEMI])))"
  using assms by (auto simp: parseline.simps(2) run_eq_Ok)

lemma reads_line1:
  assumes "reads_backs s c (skip_space post)" "ends [RPAR] post"
  shows "reads parseline s c (skip_space post)"
proof -
  obtain N x where x: "\<forall>n \<ge> N. run (parsepipe n s) parse_backs = parse_backs x (skip_space post)" "rel_cmd (at_slice s) x c"
    using assms(1) by (auto simp: reads_backs_def)
  have b: "parse_backs x (skip_space post) = Ok x (skip_space post)"
    using backs_end [of "skip_space post" x] ends_peek [OF assms(2), of "[AMP]"] by simp
  have "parseline n s = Ok x (skip_space post)" if "Suc N \<le> n" for n
    using that x(1) b ends_peek [OF assms(2), of "[SEMI]"] parseline_Suc [of "n - 1" s x "skip_space post"] by (cases n) simp_all
  then show ?thesis unfolding reads_def using x(2) by blast
qed

lemma reads_line2:
  assumes "reads_backs (u @ SEMI # s) c (SEMI # s)" "reads parseline s d r"
  shows "reads parseline (u @ SEMI # s) (LIST c d) r"
proof -
  let ?s = "u @ SEMI # s"
  obtain N x where x: "\<forall>n \<ge> N. run (parsepipe n ?s) parse_backs = parse_backs x (SEMI # s)" "rel_cmd (at_slice ?s) x c"
    using assms(1) by (auto simp: reads_backs_def)
  obtain M y where y: "\<forall>n \<ge> M. parseline n s = Ok y r" "rel_cmd (at_slice s) y d" using assms(2) by (auto simp: reads_def)
  have b: "parse_backs x (SEMI # s) = Ok x (SEMI # s)" using backs_end [of "SEMI # s" x] by (simp add: peek_Cons whitespace_def)
  have "parseline n ?s = Ok (LIST x y) r" if "Suc (max N M) \<le> n" for n
    using that x(1) y(1) b parseline_Suc [of "n - 1" ?s x "SEMI # s"] gettoken_symbol [of SEMI s]
    by (cases n) (simp_all add: peek_Cons whitespace_def)
  moreover have "rel_cmd (at_slice ?s) (LIST x y) (LIST c d)"
    using x(2) at_cmd_mono [OF y(2), of "u @ [SEMI]"] by simp
  ultimately show ?thesis unfolding reads_def by blast
qed

lemma reads_block:
  assumes "reads parseline (u @ RPAR # sh_redirs rs @ post) c (RPAR # sh_redirs rs @ post)" "list_all wf_redir rs"
    and "\<not> fst (peek post [LT, GT])"
  shows "reads parseexec (LPAR # u @ RPAR # sh_redirs rs @ post) (redircmd c rs) (skip_space post)"
proof -
  let ?t = "sh_redirs rs @ post"
  let ?s = "u @ RPAR # ?t"
  obtain N x where x: "\<forall>n \<ge> N. parseline n ?s = Ok x (RPAR # ?t)" "rel_cmd (at_slice ?s) x c" using assms(1) by (auto simp: reads_def)
  obtain ys where y: "parseredirs ?t = Ok ys (skip_space post)" "list_all2 (at_redir ?t) ys rs"
    using parseredirs_ok [OF assms(2,3)] by auto
  have p: "peek (LPAR # ?s) [LPAR] = (True, LPAR # ?s)" "peek (RPAR # ?t) [RPAR] = (True, RPAR # ?t)"
    by (simp_all add: peek_Cons whitespace_def)
  have g: "gettoken (LPAR # ?s) = (LPAR, (Suc (length ?s), length ?s), skip_space ?s)"
      "gettoken (RPAR # ?t) = (RPAR, (Suc (length ?t), length ?t), skip_space ?t)"
    using gettoken_symbol [of LPAR ?s] gettoken_symbol [of RPAR ?t] by simp_all
  have b: "parseblock (Suc n) (LPAR # ?s) = Ok (redircmd x ys) (skip_space post)" if "N \<le> n" for n
  proof -
    have "parseline n (skip_space ?s) = Ok x (RPAR # ?t)" using x(1) that by simp
    moreover have "parseredirs (skip_space ?t) = Ok ys (skip_space post)" using y(1) by simp
    ultimately show ?thesis by (simp only: parseblock.simps(2) p g fst_conv snd_conv prod.case if_False not_True_eq_False run.simps)
  qed
  have "parseexec n (LPAR # ?s) = Ok (redircmd x ys) (skip_space post)" if n: "Suc (Suc N) \<le> n" for n
  proof -
    obtain m where "n = Suc (Suc N) + m" using le_Suc_ex [OF n] by blast
    then show ?thesis using b [of "N + m"] by (simp only: add_Suc parseexec.simps(2) p fst_conv snd_conv if_True le_add1)
  qed
  moreover have "rel_cmd (at_slice (LPAR # ?s)) (redircmd x ys) (redircmd c rs)"
    using at_cmd_mono [OF x(2), of "[LPAR]"] at_redirs_mono [OF y(2), of "LPAR # u @ [RPAR]"] by (intro redircmd_rel) simp_all
  ultimately show ?thesis unfolding reads_def by blast
qed

lemma rpar_space: "RPAR \<notin> set whitespace"
  by (simp add: whitespace_def)

text \<open>The four levels of the grammar for one command.\<close>

definition reads3 :: "u8 list cmd \<Rightarrow> bool" where
  "reads3 c \<longleftrightarrow> (\<forall>rs post. list_all wf_redir rs \<longrightarrow> ends [BAR, RPAR, AMP, SEMI] post \<longrightarrow>
     reads parseexec (sh 3 c @ sh_redirs rs @ post) (redircmd c rs) (skip_space post))"

definition reads2 :: "u8 list cmd \<Rightarrow> bool" where
  "reads2 c \<longleftrightarrow> (\<forall>post. ends [RPAR, AMP, SEMI] post \<longrightarrow> reads parsepipe (sh 2 c @ post) c (skip_space post))"

definition reads1 :: "u8 list cmd \<Rightarrow> bool" where
  "reads1 c \<longleftrightarrow> (\<forall>post. ends [RPAR, AMP, SEMI] post \<longrightarrow> reads_backs (sh 1 c @ post) c (skip_space post))"

definition reads0 :: "u8 list cmd \<Rightarrow> bool" where
  "reads0 c \<longleftrightarrow> (\<forall>post. ends [RPAR] post \<longrightarrow> reads parseline (sh 0 c @ post) c (skip_space post))"

lemma reads_lift:
  "reads3 c \<Longrightarrow> sh 2 c = sh 3 c \<Longrightarrow> reads2 c" "reads2 c \<Longrightarrow> sh 1 c = sh 2 c \<Longrightarrow> reads1 c"
  "reads1 c \<Longrightarrow> sh 0 c = sh 1 c \<Longrightarrow> reads0 c" "reads0 c \<Longrightarrow> sh 3 c = LPAR # sh 0 c @ [RPAR] \<Longrightarrow> reads3 c"
proof -
  show "reads2 c" if "reads3 c" "sh 2 c = sh 3 c"
    unfolding reads2_def
  proof (intro allI impI)
    fix post assume e: "ends [RPAR, AMP, SEMI] post"
    have "reads parseexec (sh 3 c @ post) c (skip_space post)"
      using that(1) ends_mono [OF e, of "[BAR, RPAR, AMP, SEMI]"] reads3_def [THEN iffD1, rule_format, of c "[]" post]
      by (simp add: sh_redirs_def)
    then show "reads parsepipe (sh 2 c @ post) c (skip_space post)" using reads_pipe1 [OF _ e] that(2) by simp
  qed
  show "reads1 c" if "reads2 c" "sh 1 c = sh 2 c"
    using that reads_backs1 unfolding reads1_def reads2_def by simp
  show "reads0 c" if "reads1 c" "sh 0 c = sh 1 c"
    unfolding reads0_def
  proof (intro allI impI)
    fix post assume e: "ends [RPAR] post"
    have "reads_backs (sh 1 c @ post) c (skip_space post)"
      using that(1) ends_mono [OF e, of "[RPAR, AMP, SEMI]"] unfolding reads1_def by simp
    then show "reads parseline (sh 0 c @ post) c (skip_space post)" using reads_line1 [OF _ e] that(2) by simp
  qed
  show "reads3 c" if "reads0 c" "sh 3 c = LPAR # sh 0 c @ [RPAR]"
    unfolding reads3_def
  proof (intro allI impI)
    fix rs post assume rs: "list_all wf_redir rs" and e: "ends [BAR, RPAR, AMP, SEMI] post"
    have "reads parseline (sh 0 c @ RPAR # sh_redirs rs @ post) c (RPAR # sh_redirs rs @ post)"
      using that(1) unfolding reads0_def by (metis ends_Cons list.set_intros(1) rpar_space skip_space_Cons)
    from reads_block [OF this rs] show "reads parseexec (sh 3 c @ sh_redirs rs @ post) (redircmd c rs) (skip_space post)"
      using ends_peek [OF e, of "[LT, GT]"] that(2) by simp
  qed
qed

lemma reads_all: "wf_cmd c \<Longrightarrow> reads3 c \<and> reads2 c \<and> reads1 c \<and> reads0 c"
proof (induction c)
  case (EXEC ws)
  then have "reads3 (EXEC ws)" using reads_exec by (simp add: reads3_def)
  then show ?case using reads_lift(1-3) [of "EXEC ws"] by simp
next
  case (REDIR c f m d)
  have "reads3 (REDIR c f m d)"
    unfolding reads3_def
  proof (intro allI impI)
    fix rs post assume "list_all wf_redir rs" "ends [BAR, RPAR, AMP, SEMI] post"
    then have "reads parseexec (sh 3 c @ sh_redirs ((f, m, d) # rs) @ post) (redircmd c ((f, m, d) # rs)) (skip_space post)"
      using REDIR reads3_def [THEN iffD1, rule_format, of c "(f, m, d) # rs" post] by simp
    then show "reads parseexec (sh 3 (REDIR c f m d) @ sh_redirs rs @ post) (redircmd (REDIR c f m d) rs) (skip_space post)"
      by (simp add: sh_redirs_def)
  qed
  then show ?case using reads_lift(1-3) [of "REDIR c f m d"] by simp
next
  case (PIPE l r)
  have "reads2 (PIPE l r)"
    unfolding reads2_def
  proof (intro allI impI)
    fix post assume e: "ends [RPAR, AMP, SEMI] post"
    have "reads parsepipe (sh 2 r @ post) r (skip_space post)" using PIPE e by (simp add: reads2_def)
    moreover have "reads parseexec (sh 3 l @ sh_redirs [] @ BAR # sh 2 r @ post) (redircmd l []) (skip_space (BAR # sh 2 r @ post))"
      using PIPE by (simp add: reads3_def ends_Cons whitespace_def del: skip_space_Cons redircmd.simps)
    ultimately show "reads parsepipe (sh 2 (PIPE l r) @ post) (PIPE l r) (skip_space post)"
      using reads_pipe2 [of "sh 3 l" "sh 2 r @ post" l r "skip_space post"] by (simp add: paren_def sh_redirs_def whitespace_def)
  qed
  then show ?case using reads_lift(2-4) [of "PIPE l r"] by (simp add: paren_def)
next
  case (LIST l r)
  have "reads0 (LIST l r)"
    unfolding reads0_def
  proof (intro allI impI)
    fix post assume e: "ends [RPAR] post"
    have "reads parseline (sh 0 r @ post) r (skip_space post)" using LIST e by (simp add: reads0_def)
    moreover have "reads_backs (sh 1 l @ SEMI # sh 0 r @ post) l (skip_space (SEMI # sh 0 r @ post))"
      using LIST by (simp add: reads1_def ends_Cons whitespace_def del: skip_space_Cons)
    ultimately show "reads parseline (sh 0 (LIST l r) @ post) (LIST l r) (skip_space post)"
      using reads_line2 [of "sh 1 l" "sh 0 r @ post" l r "skip_space post"] by (simp add: paren_def whitespace_def)
  qed
  then show ?case using reads_lift(1,2,4) [of "LIST l r"] by (simp add: paren_def)
next
  case (BACK c)
  have "reads1 (BACK c)"
    unfolding reads1_def
  proof (intro allI impI)
    fix post assume e: "ends [RPAR, AMP, SEMI] post"
    have "reads_backs (sh 1 c @ AMP # post) c (skip_space (AMP # post))"
      using BACK by (simp add: reads1_def ends_Cons whitespace_def del: skip_space_Cons)
    then show "reads_backs (sh 1 (BACK c) @ post) (BACK c) (skip_space post)"
      using reads_backs2 [of "sh 1 c @ AMP # post" c post] by (simp add: paren_def whitespace_def)
  qed
  then show ?case using reads_lift(1,3,4) [of "BACK c"] by (simp add: paren_def)
qed

section \<open>The strings behind the pointers\<close>

definition cstring :: "u8 list \<Rightarrow> nat \<Rightarrow> u8 list" where
  "cstring b i = takeWhile (\<lambda>c. c \<noteq> 0) (drop i b)"

lemma nth_update_at: "j < length xs \<Longrightarrow> xs[i := x] ! j = (if j = i then x else xs ! j)"
  by simp

lemma foldl_update:
  "j < length b \<Longrightarrow> foldl (\<lambda>b (q, e). b[n - e := 0]) b xs ! j = (if j \<in> (\<lambda>x. n - snd x) ` set xs then 0 else b ! j)"
  "length (foldl (\<lambda>b (q, e). b[n - e := 0]) b xs) = length b"
  by (induction xs arbitrary: b) (simp_all add: nth_update_at split_def)

lemma nulterminate_nth:
  "length (nulterminate n c b) = length b"
  "j < length b \<Longrightarrow> nulterminate n c b ! j = (if j \<in> (\<lambda>x. n - snd x) ` set_cmd c then 0 else b ! j)"
proof (induction c arbitrary: b)
  case (EXEC xs)
  {
    case 1 then show ?case by (simp add: foldl_update)
  next
    case 2 then show ?case by (simp add: foldl_update)
  }
qed (simp_all add: nth_update_at image_Un)

lemma nulterminate_word:
  assumes "at_slice s (q, e) w" "(q, e) \<in> set_cmd c" "\<And>x. x \<in> set_cmd c \<Longrightarrow> \<exists>w. at_slice s x w"
  shows "cstring (nulterminate (length s) c (s @ [0])) (length s - q) = w"
proof -
  obtain u v where s: "s = u @ w @ v" "q = length (w @ v)" "e = length v" "word w" using assms(1) by (auto simp: at_slice_def)
  let ?b = "nulterminate (length s) c (s @ [0])"
  have i: "length s - q = length u" "length s - e = length (u @ w)" using s by simp_all
  have keep: "?b ! (length u + k) = w ! k" if k: "k < length w" for k
  proof -
    have "length u + k \<noteq> length s - snd x" if m: "x \<in> set_cmd c" for x
    proof
      assume j: "length u + k = length s - snd x"
      obtain w' u' v' where x: "s = u' @ w' @ v'" "snd x = length v'" "v' \<noteq> [] \<longrightarrow> \<not> word_char (hd v')"
        using assms(3) [OF m] unfolding at_slice_def by (metis snd_conv)
      have l: "length u + k < length s" using s(1) k by simp
      then have "v' \<noteq> []" using j x by auto
      have "length u + k = length (u' @ w')" using j x(1,2) by simp
      then have "s ! (length u + k) = hd v'" using x(1) \<open>v' \<noteq> []\<close> by (simp add: nth_append hd_conv_nth)
      moreover have "s ! (length u + k) = w ! k" using s(1) k by (simp add: nth_append)
      ultimately show False using x(3) \<open>v' \<noteq> []\<close> s(4) k by (auto simp: word_def list_all_length)
    qed
    then have "length u + k \<notin> (\<lambda>x. length s - snd x) ` set_cmd c" by auto
    then show ?thesis using s(1) k by (subst nulterminate_nth(2)) (auto simp: nth_append)
  qed
  have "length u + length w < length (s @ [0])" using s(1) by simp
  moreover have "length u + length w \<in> (\<lambda>x. length s - snd x) ` set_cmd c" using i(2) assms(2) by force
  ultimately have stop: "?b ! (length u + length w) = 0" by (simp only: nulterminate_nth(2) if_True)
  have len: "length ?b = Suc (length s)" by (simp add: nulterminate_nth(1))
  have "drop (length u) ?b = w @ 0 # drop (length u + length w + 1) ?b"
  proof (rule nth_equalityI)
    fix k assume "k < length (drop (length u) ?b)"
    then show "drop (length u) ?b ! k = (w @ 0 # drop (length u + length w + 1) ?b) ! k"
      using keep [of k] stop len s(1) by (auto simp: nth_append nth_Cons' add.assoc)
  qed (use len s(1) in simp)
  moreover have "\<forall>c \<in> set w. c \<noteq> 0" using s(4) by (simp add: word_def list_all_iff)
  ultimately show ?thesis unfolding i(1) cstring_def by (simp add: takeWhile_append2)
qed

section \<open>Properties\<close>

definition args_of :: "u8 list \<Rightarrow> u8 list \<Rightarrow> slice cmd \<Rightarrow> u8 list cmd" where
  "args_of s b c = map_cmd (\<lambda>(q, e). cstring b (length s - q)) c"

text \<open>
  C33: the shell parses what is printed.  For every command tree with proper words and at most
  nine arguments per command, the parser reads the text of the tree, printed with only the
  parentheses that the precedence of \<open>;\<close>, \<open>&\<close>, \<open>|\<close> and the redirections needs, and returns a
  tree whose argument pointers lead, in the terminated buffer, to the words of the original.
\<close>

theorem parsecmd_print:
  assumes "wf_cmd c"
  shows "returns (parsecmd (sh 0 c)) (\<lambda>x b. args_of (sh 0 c) b x = c)"
proof -
  let ?s = "sh 0 c"
  have "reads parseline (?s @ []) c (skip_space [])"
    using reads_all [OF assms] reads0_def [THEN iffD1, rule_format, of c "[]"] by (simp add: ends_def skip_space_def)
  then obtain N x where x: "\<forall>n \<ge> N. parseline n ?s = Ok x []" "rel_cmd (at_slice ?s) x c"
    by (auto simp: reads_def skip_space_def)
  let ?F = "4 * length ?s + 4"
  have "parseline (?F + N) ?s = parseline ?F ?s" by (rule parseline_stable) (rule parse_runs(1), simp)
  then have p: "parseline ?F ?s = Ok x []" using x(1) by simp
  let ?b = "nulterminate (length ?s) x (?s @ [0])"
  have r: "parsecmd ?s = Ok x ?b" using p by (simp add: parsecmd_def skip_space_def)
  have all: "\<exists>w. at_slice ?s y w" if "y \<in> set_cmd x" for y
    using rel_funD [OF cmd.set_transfer x(2)] that by (meson rel_setD1)
  have "rel_cmd (\<lambda>y w. (\<lambda>(q, e). cstring ?b (length ?s - q)) y = w) x c"
    using x(2) by (rule cmd.rel_mono_strong) (auto intro: nulterminate_word all)
  then have "args_of ?s ?b x = c" unfolding args_of_def by (metis (mono_tags, lifting) cmd.rel_eq cmd.rel_map(1) cmd.rel_mono_strong)
  then show ?thesis using r by simp
qed

theorem parsecmd_print_witness:
  "returns (parsecmd (sh 0 (LIST (BACK (PIPE (REDIR (EXEC [[0x63]]) [0x66] O_RDONLY 0) (LIST (EXEC [[0x64]]) (EXEC [])))) (EXEC [[0x65]]))))
     (\<lambda>x b. args_of (sh 0 (LIST (BACK (PIPE (REDIR (EXEC [[0x63]]) [0x66] O_RDONLY 0) (LIST (EXEC [[0x64]]) (EXEC [])))) (EXEC [[0x65]]))) b x =
       LIST (BACK (PIPE (REDIR (EXEC [[0x63]]) [0x66] O_RDONLY 0) (LIST (EXEC [[0x64]]) (EXEC [])))) (EXEC [[0x65]]))"
  by (rule parsecmd_print) (simp add: wf_redir_def word_def word_char_def whitespace_def symbols_def)

text \<open>
  C34: the parser ends on every line: its recursion through parentheses, pipelines and lists
  never runs longer than the length of the line allows, so it returns a command or reports a
  syntax error.
\<close>

theorem parsecmd_terminates: "parsecmd s \<noteq> Spin"
  unfolding parsecmd_def by (rule run_not_Spin) (use parse_runs(1) in auto)

end
