(* ===== verification/Spec2Isabelle.thy ===== *)
theory Spec2Isabelle
  imports Sched FileData Handles Wakeup Grep Shell
begin

text \<open>
  A verification of the xv6 kernel of \<open>src/lab2\<close> with its added schedulers, and of two of its user
  programs.

  \<^bold>\<open>The program.\<close>  The kernel runs on several processors.  Spin locks protect its tables; processes
  sleep on channels and are woken under a lock; one of three schedulers per processor switches to
  runnable processes.  Memory is handed out by a page allocator and mapped by two-level page tables.
  Files lie on a disk behind a buffer cache and a write-ahead log; inodes, directories, open files
  and pipes are built on it.  Processes reach all this through system calls that trap into the kernel.

  \<^bold>\<open>State and outcomes.\<close>  The state is a record that grows along the theories: \<open>machine\<close>, \<open>console\<close>,
  \<open>kmem\<close>, \<open>ptable\<close>, \<open>vm\<close>, \<open>bcache\<close>, \<open>logrec\<close>, \<open>icache\<close>, \<open>consdev\<close>, \<open>ftable\<close>, \<open>kernel\<close>, \<open>traps\<close>.
  A routine takes the state and ends in one of four ways (\<open>res\<close> in \<^theory_text>\<open>Prelude\<close>): it returns (\<open>Ok\<close>),
  panics with the message of the code (\<open>Panic\<close>), waits for a lock that another processor holds
  (\<open>Spin\<close>), or switches to the scheduler (\<open>Switch\<close>); what a routine does after a switch is a
  definition of its own with the suffix \<open>_resume\<close>.  Words of the machine are \<open>u8\<close>, \<open>u16\<close>, \<open>u32\<close>; a C
  \<open>int\<close> is an integer brought back into its range by \<open>c_int\<close> where the code can leave it.  Memory is a
  function from addresses to bytes; structures that the code only reaches through pointers of its own
  (locks, buffers, inodes, files, pipes, processes) are named by their slot or by an identifier.

  \<^bold>\<open>Theories and sources\<close> (under \<open>src/lab2\<close>).
  \<^item> \<open>Prelude\<close>: words, memory, outcomes, sections.  \<open>CString\<close>: \<open>string.c\<close>.  \<open>Mmu\<close>: \<open>mmu.h\<close>, \<open>memlayout.h\<close>.
  \<^item> \<open>Machine\<close>: \<open>spinlock.c\<close>, \<open>proc.h\<close>.  \<open>Console\<close>, \<open>ConsoleDev\<close>: \<open>console.c\<close>, \<open>uart.c\<close>, \<open>ioapic.c\<close>.
    \<open>Kbd\<close>: \<open>kbd.c\<close>.  \<open>Clock\<close>: \<open>cmostime\<close> of \<open>lapic.c\<close> and \<open>rand\<close> of \<open>proc.c\<close>.
  \<^item> \<open>Kalloc\<close>: \<open>kalloc.c\<close>.  \<open>Vm\<close>: \<open>vm.c\<close>, with \<open>TwoLevel\<close> and \<open>PageTable\<close> for what it promises.
  \<^item> \<open>Proc\<close>: the process table, \<open>sleep\<close>, \<open>wakeup\<close>, \<open>sched\<close>, priorities and tickets of \<open>proc.c\<close>.  \<open>Sched\<close>: its
    schedulers.  \<open>Wakeup\<close>: sleepers and wakers on several processors.  \<open>ProcLife\<close>: \<open>fork\<close>, \<open>exit\<close>, \<open>wait\<close>,
    \<open>growproc\<close> and \<open>exec.c\<close>.
  \<^item> \<open>Bio\<close>: \<open>sleeplock.c\<close>, \<open>memide.c\<close>, \<open>bio.c\<close>, with \<open>Cache\<close> for what it promises.  \<open>Layout\<close>: \<open>fs.h\<close>.
    \<open>Log\<close>: \<open>log.c\<close>, with \<open>Commit\<close>.  \<open>Inode\<close>, \<open>Fs\<close>: \<open>fs.c\<close>, with \<open>FileData\<close>.  \<open>File\<close>, \<open>Ring\<close>: \<open>file.c\<close>,
    \<open>pipe.c\<close>, with \<open>Pipe\<close>.
  \<^item> \<open>Syscall\<close>: \<open>syscall.c\<close>, \<open>sysproc.c\<close>, \<open>sysfile.c\<close>, with \<open>Handles\<close>.  \<open>Trap\<close>: \<open>trap.c\<close>.
    \<open>Samples\<close>: concrete states.
  \<^item> \<open>Grep\<close>: \<open>grep.c\<close>.  \<open>Shell\<close>: the parser of \<open>sh.c\<close>.

  \<^bold>\<open>What is shown.\<close>
  \<^item> Locks: \<open>acquire\<close> panics, spins or returns exactly according to the holder; a critical section
    around balanced code restores the interrupt state (\<open>balanced\<close>).
  \<^item> Memory: \<open>kalloc\<close> and \<open>kfree\<close> keep the free list, which lies in memory, duplicate-free (locale
    \<open>page_allocator\<close>); \<open>mappages\<close> implements an update of a map from pages to entries (locale \<open>two_level\<close>),
    the hardware walk follows it, and \<open>allocuvm\<close> adds private zeroed pages.
  \<^item> Processes: \<open>allocproc\<close> gives a fresh slot with a correct first frame; no wakeup is lost under any
    interleaving of a sleeper with wakers; the rounds of the multi-level feedback queue keep the table
    sound (locale \<open>process_exec\<close>), end under the stated condition (\<open>blocking_exec\<close>), and move a process
    between levels by the time it used; the lottery is fair on the tickets it can draw, and cannot
    draw them all.  \<open>setpriority\<close> round-trips, and leaks its lock on a bad argument.
  \<^item> Disk: through the cache the disk is an array of blocks (locale \<open>block_device\<close>); \<open>commit\<close> is atomic
    under crashes at every write, also during repeated recoveries; \<open>writei\<close> and \<open>readi\<close> act on the bytes
    of a file.
  \<^item> Pipes are bounded queues (locale \<open>bounded_fifo\<close>) whose two ends wake each other; the open-file
    table stays well typed; \<open>argptr\<close> lets only mapped blocks of the process pass.
  \<^item> Routines: \<open>memset\<close>, \<open>memmove\<close>, \<open>safestrcpy\<close>, \<open>printint\<close>, \<open>cprintf\<close> meet their specifications.
  \<^item> Programs: the matcher of \<open>grep\<close> decides the language of its pattern and the loop prints the
    matching lines, or loses a part of a line that came without a newline; the parser of the shell
    inverts a printer and ends on every line.

  Every locale is interpreted on the definitions of the model.  A property with hypotheses is followed
  by a witness that applies it to a concrete state.

  \<^bold>\<open>Loops and fuel.\<close>  Loops are recursions with a proved measure.  The exceptions: the loop over the
  levels of the feedback queue, which need not end and is a \<open>partial_function\<close> to \<open>option\<close>; the reads of
  the clock until two agree, likewise; the walk along the list of buffers, with fuel for all \<open>NBUF\<close>
  buffers, enough because the list is proved to be a ring of distinct buffers; the parser of the shell,
  with fuel four times the length of the line plus four, which is proved to be enough for every line.
  The \<open>for(;;)\<close> of a scheduler is run for any number of rounds.

  \<^bold>\<open>Interference.\<close>  Outside \<open>Wakeup\<close> a routine is run without interference: what other processors do
  while it holds no lock is not interleaved.  \<open>Wakeup\<close> interleaves atomic sections: a lock operation,
  a write to the process table, \<open>sched\<close>.

  \<^bold>\<open>Not modelled.\<close>
  \<^item> The boot loader, the assembly entry and switch code and \<open>initcode.S\<close>: machine code below the level
    of the model, present as the outcome \<open>Switch\<close>, the trap frame and the context of a new process.
  \<^item> \<open>main.c\<close>, \<open>mp.c\<close>, the rest of \<open>lapic.c\<close>, \<open>picirq.c\<close> and \<open>ide.c\<close>: port and register sequences whose effect is on
    devices only.  The disk is the memory disk of \<open>memide.c\<close>, which the \<open>Makefile\<close> offers in place of
    \<open>ide.c\<close>; a block write is atomic.
  \<^item> The other user programs, which only make system calls, and the test programs.
  \<^item> The JOS kernel in \<open>src/lab3\<close> and \<open>src/lab1/jos\<close>, and \<open>src/assignment3\<close>, an earlier copy of xv6 without the
    schedulers.  The QEMU sources in \<open>src/lab1/qemu\<close> are a copy of the emulator.
\<close>

end
